(* ===== verification/C_Prelude.thy ===== *)
theory C_Prelude
  imports Main "HOL-Library.Multiset" "HOL-Library.Word"
begin

text \<open>
  The shared prelude: the theorem collections of the development, the C integer types the
  programs use, the control characters of the protocols, and the facts on lists that more
  than one component needs.

  The programs are compiled with gcc on Linux x86-64: \<open>int\<close> has 32 bits, \<open>long\<close>,
  \<open>size_t\<close> and \<open>ssize_t\<close> have 64, and the conversion of a \<open>long\<close> to an \<open>int\<close>
  keeps the low 32 bits (\<open>to_int32\<close>); a sum of \<open>long\<close>s keeps the low 64 (\<open>to_int64\<close>).
\<close>

section \<open>Collections\<close>

named_theorems io_simps
  \<comment> \<open>evaluation of the primitives of the process model\<close>

named_theorems eval_simps
  \<comment> \<open>unfolding of a program on a concrete script\<close>

named_theorems wp_simps
  \<comment> \<open>weakest preconditions of the primitives of the process model\<close>

section \<open>Characters\<close>

type_synonym bytes = string

abbreviation NUL :: char where "NUL \<equiv> CHR 0x00"
abbreviation CR :: char where "CR \<equiv> CHR 0x0D"
abbreviation LF :: char where "LF \<equiv> CHR 0x0A"

definition crlf :: string where
  "crlf = [CR, LF]"

text \<open>The C string that starts at the first byte of an array: the bytes before the first NUL.\<close>

definition cstr :: "bytes \<Rightarrow> string" where
  "cstr b = takeWhile (\<lambda>c. c \<noteq> NUL) b"

lemma length_cstr_le: "length (cstr b) \<le> length b"
  by (simp add: cstr_def length_takeWhile_le)

lemma cstr_no_NUL [simp]: "NUL \<notin> set (cstr b)"
  by (auto simp: cstr_def dest: set_takeWhileD)

lemma cstr_id: "NUL \<notin> set b \<Longrightarrow> cstr b = b"
  by (induction b) (auto simp: cstr_def)

lemma cstr_append_NUL: "NUL \<notin> set b \<Longrightarrow> cstr (b @ NUL # r) = b"
  by (induction b) (auto simp: cstr_def)

section \<open>Integers\<close>

definition to_int32 :: "int \<Rightarrow> int" where
  "to_int32 x = (x + 2 ^ 31) mod 2 ^ 32 - 2 ^ 31"

definition INT_MAX :: int where "INT_MAX = 2147483647"
definition INT_MIN :: int where "INT_MIN = - 2147483648"

definition in_int32 :: "int \<Rightarrow> bool" where
  "in_int32 x \<longleftrightarrow> INT_MIN \<le> x \<and> x \<le> INT_MAX"

lemma to_int32_id: "in_int32 x \<Longrightarrow> to_int32 x = x"
  by (simp add: in_int32_def to_int32_def INT_MIN_def INT_MAX_def)

lemma to_int32_id': "- 2147483648 \<le> x \<Longrightarrow> x \<le> 2147483647 \<Longrightarrow> to_int32 x = x"
  by (simp add: to_int32_def)

lemma to_int32_range: "in_int32 (to_int32 x)"
proof -
  have "0 \<le> (x + 2 ^ 31) mod 2 ^ 32" "(x + 2 ^ 31) mod 2 ^ 32 < 2 ^ 32"
    by (simp_all add: pos_mod_sign pos_mod_bound)
  then show ?thesis by (simp add: to_int32_def in_int32_def INT_MIN_def INT_MAX_def)
qed

lemma to_int32_add_left: "to_int32 (to_int32 x + y) = to_int32 (x + y)"
proof -
  have "((x + 2 ^ 31) mod 2 ^ 32 + y) mod 2 ^ 32 = (x + y + 2 ^ 31) mod 2 ^ (32::nat)"
    by (simp add: mod_simps ac_simps)
  then show ?thesis by (simp add: to_int32_def algebra_simps)
qed

text \<open>A \<open>long\<close> has 64 bits; converting it to \<open>int\<close> keeps the low 32.\<close>

definition to_int64 :: "int \<Rightarrow> int" where
  "to_int64 x = (x + 2 ^ 63) mod 2 ^ 64 - 2 ^ 63"

lemma to_int64_add_left: "to_int64 (to_int64 x + y) = to_int64 (x + y)"
proof -
  have "((x + 2 ^ 63) mod 2 ^ 64 + y) mod 2 ^ 64 = (x + y + 2 ^ 63) mod 2 ^ (64::nat)"
    by (simp add: mod_simps ac_simps)
  then show ?thesis by (simp add: to_int64_def algebra_simps)
qed

lemma to_int32_to_int64 [simp]: "to_int32 (to_int64 x) = to_int32 x"
proof -
  define k where "k = - (2 ^ 32 * ((x + 2 ^ 63) div 2 ^ 64))"
  have "to_int64 x + 2 ^ 31 = (x + 2 ^ 31) + 2 ^ 32 * k"
    by (simp add: to_int64_def k_def minus_mult_div_eq_mod [symmetric])
  then show ?thesis unfolding to_int32_def by (simp only: mod_mult_self2)
qed

section \<open>Decimal numerals\<close>

text \<open>\<open>%d\<close> of \<open>printf\<close>: the decimal digits, with a minus sign in front of a negative value.\<close>

definition digit_char :: "nat \<Rightarrow> char" where
  "digit_char d = char_of (48 + d)"

function show_nat :: "nat \<Rightarrow> string" where
  "show_nat n = (if n < 10 then [digit_char n] else show_nat (n div 10) @ [digit_char (n mod 10)])"
  by pat_completeness auto
termination
  by (relation "measure id") auto

declare show_nat.simps [simp del]

definition show_int :: "int \<Rightarrow> string" where
  "show_int i = (if i < 0 then CHR ''-'' # show_nat (nat (- i)) else show_nat (nat i))"

definition is_digit :: "char \<Rightarrow> bool" where
  "is_digit c \<longleftrightarrow> 48 \<le> (of_char c :: nat) \<and> (of_char c :: nat) \<le> 57"

definition digit_val :: "char \<Rightarrow> nat" where
  "digit_val c = of_char c - 48"

definition digits_val :: "nat \<Rightarrow> string \<Rightarrow> nat" where
  "digits_val acc s = foldl (\<lambda>a c. 10 * a + digit_val c) acc s"

lemma digits_val_simps [simp]:
  "digits_val acc [] = acc"
  "digits_val acc (c # s) = digits_val (10 * acc + digit_val c) s"
  "digits_val acc (s @ t) = digits_val (digits_val acc s) t"
  by (simp_all add: digits_val_def)

lemma of_char_digit_char: "d < 10 \<Longrightarrow> (of_char (digit_char d) :: nat) = 48 + d"
  by (simp add: digit_char_def)

lemma is_digit_digit_char: "d < 10 \<Longrightarrow> is_digit (digit_char d)"
  by (simp add: is_digit_def of_char_digit_char)

lemma digit_val_digit_char: "d < 10 \<Longrightarrow> digit_val (digit_char d) = d"
  by (simp add: digit_val_def of_char_digit_char)

lemma show_nat_digits: "\<forall>c \<in> set (show_nat n). is_digit c"
proof (induction n rule: show_nat.induct)
  case (1 n)
  then show ?case
    by (subst show_nat.simps) (auto simp: is_digit_digit_char)
qed

lemma show_nat_nonempty: "show_nat n \<noteq> []"
  by (subst show_nat.simps) simp

lemma digits_val_show_nat: "digits_val 0 (show_nat n) = n"
proof (induction n rule: show_nat.induct)
  case (1 n)
  then show ?case
    by (cases "n < 10") (subst show_nat.simps, simp add: digit_val_digit_char)+
qed

lemma length_show_nat_le: "n < 10 ^ Suc k \<Longrightarrow> length (show_nat n) \<le> Suc k"
proof (induction k arbitrary: n)
  case 0
  then show ?case by (simp add: show_nat.simps)
next
  case (Suc k)
  then have "n div 10 < 10 ^ Suc k" by (simp add: less_mult_imp_div_less)
  from Suc.IH [OF this] show ?case
    by (subst show_nat.simps) simp
qed

lemma digit_not_special:
  "is_digit c \<Longrightarrow> c \<noteq> NUL \<and> c \<noteq> CR \<and> c \<noteq> LF \<and> c \<noteq> CHR '' '' \<and> c \<noteq> CHR ''-'' \<and> c \<noteq> CHR ''+''
    \<and> c \<noteq> CHR ''.''"
  by (auto simp: is_digit_def)

section \<open>Lists\<close>

lemma dropWhile_idem [simp]:
  "dropWhile P (dropWhile P xs) = dropWhile P xs"
  by (induction xs) auto

lemma dropWhile_suffix_length: "length (dropWhile P xs) \<le> length xs"
  by (rule length_dropWhile_le)

lemma filter_snoc: "filter P (xs @ [x]) = filter P xs @ (if P x then [x] else [])"
  by simp

lemma min_length_0_iff [simp]: "min (length xs) k = 0 \<longleftrightarrow> xs = [] \<or> k = (0::nat)"
  by (auto simp: min_def)

lemma take_drop_split:
  "k \<le> c \<Longrightarrow> take c (drop p b) = take k (drop p b) @ take (c - k) (drop (p + k) b)"
  by (metis drop_drop add.commute le_add_diff_inverse take_add)

lemma drop_eq_append_length: "drop (length a) (a @ b) = b"
  by simp

end
