(* ===== verification/C_String.thy ===== *)
theory C_String
  imports C_Prelude
begin

text \<open>
  The functions of \<^verbatim>\<open>string.h\<close>, \<^verbatim>\<open>strings.h\<close>, \<^verbatim>\<open>stdlib.h\<close> and \<^verbatim>\<open>stdio.h\<close> that the
  programs call on strings: \<open>strncasecmp\<close>, \<open>strchr\<close>, \<open>strstr\<close>, \<open>atoi\<close>, and \<open>sscanf\<close> as an
  interpreter of its conversion specifications.  A C string is the list of its bytes without
  the terminating NUL; a pointer into a string is the suffix that starts there, so that
  pointer differences are differences of lengths; a null pointer is \<open>None\<close>.
\<close>

section \<open>Character classes\<close>

definition is_space :: "char \<Rightarrow> bool" where
  "is_space c \<longleftrightarrow> c = CHR '' '' \<or> (9 \<le> (of_char c :: nat) \<and> (of_char c :: nat) \<le> 13)"

definition to_lower :: "char \<Rightarrow> nat" where
  "to_lower c = (let n = of_char c in if 65 \<le> n \<and> n \<le> 90 then n + 32 else n)"

section \<open>Comparison and search\<close>

text \<open>The byte at the start of a C string, 0 at its end.\<close>

definition byte_at :: "string \<Rightarrow> nat" where
  "byte_at s = (case s of [] \<Rightarrow> 0 | c # _ \<Rightarrow> to_lower c)"

fun strncasecmp :: "string \<Rightarrow> string \<Rightarrow> nat \<Rightarrow> int" where
  "strncasecmp s t 0 = 0"
| "strncasecmp s t (Suc n) =
     (if byte_at s \<noteq> byte_at t then int (byte_at s) - int (byte_at t)
      else if byte_at s = 0 then 0
      else strncasecmp (tl s) (tl t) n)"

fun prefix_of :: "string \<Rightarrow> string \<Rightarrow> bool" where
  "prefix_of [] s = True"
| "prefix_of (p # ps) [] = False"
| "prefix_of (p # ps) (c # cs) = (p = c \<and> prefix_of ps cs)"

fun strstr :: "string \<Rightarrow> string \<Rightarrow> string option" where
  "strstr [] needle = (if needle = [] then Some [] else None)"
| "strstr (c # cs) needle = (if prefix_of needle (c # cs) then Some (c # cs) else strstr cs needle)"

fun strchr :: "string \<Rightarrow> char \<Rightarrow> string option" where
  "strchr [] c = None"
| "strchr (x # xs) c = (if x = c then Some (x # xs) else strchr xs c)"

lemma prefix_of_iff: "prefix_of p s \<longleftrightarrow> (\<exists>r. s = p @ r)"
  by (induction p s rule: prefix_of.induct) auto

lemma prefix_of_append [simp]: "prefix_of p (p @ r)"
  by (auto simp: prefix_of_iff)

lemma prefix_of_self [simp]: "prefix_of p p"
  using prefix_of_append [of p "[]"] by simp

lemma strstr_Some: "strstr s n = Some t \<Longrightarrow> \<exists>a r. s = a @ t \<and> t = n @ r"
proof (induction s n rule: strstr.induct)
  case (2 c cs n)
  show ?case
  proof (cases "prefix_of n (c # cs)")
    case True
    with 2 show ?thesis by (auto simp: prefix_of_iff)
  next
    case False
    with 2 obtain a r where "cs = a @ t" "t = n @ r" by auto
    then have "c # cs = (c # a) @ t \<and> t = n @ r" by simp
    then show ?thesis by blast
  qed
qed (auto split: if_splits)

text \<open>\<open>strstr\<close> finds the first occurrence: none starts before the one it returns.\<close>

lemma strstr_first:
  "strstr s n = Some t \<Longrightarrow> s = a @ b \<Longrightarrow> length t < length b \<Longrightarrow> \<not> prefix_of n b"
proof (induction s n arbitrary: a rule: strstr.induct)
  case (2 c cs n)
  then show ?case
    by (cases a) (auto split: if_splits)
qed (auto split: if_splits)

lemma strstr_None: "strstr s n = None \<Longrightarrow> s = a @ b \<Longrightarrow> \<not> prefix_of n b"
proof (induction s n arbitrary: a rule: strstr.induct)
  case (2 c cs n)
  then show ?case
    by (cases a) (auto split: if_splits)
next
  case (1 n)
  then show ?case by (cases n) (auto split: if_splits)
qed

lemma strstr_eq_SomeI:
  assumes "\<And>x y. a = x @ y \<Longrightarrow> y \<noteq> [] \<Longrightarrow> \<not> prefix_of n (y @ n @ r)"
  shows "strstr (a @ n @ r) n = Some (n @ r)"
  using assms
proof (induction a)
  case Nil
  then show ?case by (cases n; cases r) auto
next
  case (Cons c a)
  from Cons.prems [of "[]" "c # a"] have "\<not> prefix_of n ((c # a) @ n @ r)" by simp
  moreover have "strstr (a @ n @ r) n = Some (n @ r)"
  proof (rule Cons.IH)
    fix x y assume "a = x @ y" "y \<noteq> []"
    then show "\<not> prefix_of n (y @ n @ r)" using Cons.prems [of "c # x" y] by simp
  qed
  ultimately show ?case by simp
qed

lemma strchr_Some: "strchr s c = Some t \<Longrightarrow> \<exists>a r. s = a @ t \<and> t = c # r \<and> c \<notin> set a"
proof (induction s c rule: strchr.induct)
  case (2 x xs c)
  show ?case
  proof (cases "x = c")
    case True
    with 2 show ?thesis by auto
  next
    case False
    with 2 obtain a r where "xs = a @ t" "t = c # r" "c \<notin> set a" by auto
    with False have "x # xs = (x # a) @ t \<and> t = c # r \<and> c \<notin> set (x # a)" by auto
    then show ?thesis by blast
  qed
qed simp

lemma strchr_append: "c \<notin> set a \<Longrightarrow> strchr (a @ c # r) c = Some (c # r)"
  by (induction a) auto

lemma strchr_None_iff: "strchr s c = None \<longleftrightarrow> c \<notin> set s"
  by (induction s) auto

lemma strncasecmp_numeral:
  "strncasecmp s t (numeral v) =
     (if byte_at s \<noteq> byte_at t then int (byte_at s) - int (byte_at t)
      else if byte_at s = 0 then 0
      else strncasecmp (tl s) (tl t) (pred_numeral v))"
  by (simp add: numeral_eq_Suc)

text \<open>\<open>strncasecmp\<close> tests equality of the first bytes up to case.\<close>

lemma to_lower_0_iff: "to_lower c = 0 \<longleftrightarrow> c = NUL"
proof -
  have "of_char c = (0::nat) \<longleftrightarrow> of_char c = (of_char NUL :: nat)" by simp
  also have "\<dots> \<longleftrightarrow> c = NUL" by (rule of_char_eq_iff)
  finally show ?thesis by (auto simp: to_lower_def Let_def)
qed

lemma strncasecmp_eq_0_iff:
  assumes "NUL \<notin> set t" "length t = n"
  shows "strncasecmp s t n = 0 \<longleftrightarrow> n \<le> length s \<and> map to_lower (take n s) = map to_lower t"
  using assms
proof (induction n arbitrary: s t)
  case (Suc n)
  then obtain b t' where t: "t = b # t'" "NUL \<notin> set t'" "length t' = n" "to_lower b \<noteq> 0"
    by (cases t) (auto simp: to_lower_0_iff)
  with Suc.IH [of t' "tl s"] show ?case
    by (cases s) (auto simp: byte_at_def)
qed simp

section \<open>Decimal input\<close>

text \<open>
  \<open>strtol\<close> in base 10, past the white space: an optional sign and at least one digit.  glibc
  clamps the value to \<open>long\<close>, and \<open>atoi\<close> and \<open>%d\<close> keep its low 32 bits.
\<close>

definition clamp_long :: "int \<Rightarrow> int" where
  "clamp_long x = max (- (2 ^ 63)) (min (2 ^ 63 - 1) x)"

definition scan_unsigned :: "string \<Rightarrow> (nat \<times> string) option" where
  "scan_unsigned s =
     (let d = takeWhile is_digit s in
      if d = [] then None else Some (digits_val 0 d, dropWhile is_digit s))"

definition scan_decimal :: "string \<Rightarrow> (int \<times> string) option" where
  "scan_decimal s =
     (case s of
        [] \<Rightarrow> None
      | c # cs \<Rightarrow>
          if c = CHR ''-'' then map_option (\<lambda>(n, r). (- int n, r)) (scan_unsigned cs)
          else if c = CHR ''+'' then map_option (\<lambda>(n, r). (int n, r)) (scan_unsigned cs)
          else map_option (\<lambda>(n, r). (int n, r)) (scan_unsigned s))"

definition atoi :: "string \<Rightarrow> int" where
  "atoi s =
     (case scan_decimal (dropWhile is_space s) of
        None \<Rightarrow> 0
      | Some (i, _) \<Rightarrow> to_int32 (clamp_long i))"

lemma is_digit_not_space: "is_digit c \<Longrightarrow> \<not> is_space c"
  by (auto simp: is_digit_def is_space_def)

lemma scan_unsigned_show_nat:
  assumes "r = [] \<or> \<not> is_digit (hd r)"
  shows "scan_unsigned (show_nat n @ r) = Some (n, r)"
proof -
  have "takeWhile is_digit (show_nat n @ r) = show_nat n"
    "dropWhile is_digit (show_nat n @ r) = r"
    using assms show_nat_digits [of n]
    by (auto simp: takeWhile_append2 dropWhile_append2 takeWhile_eq_Nil_iff dropWhile_eq_self_iff)
  then show ?thesis
    by (simp add: scan_unsigned_def show_nat_nonempty digits_val_show_nat)
qed

lemma scan_decimal_show_int:
  assumes "r = [] \<or> \<not> is_digit (hd r)"
  shows "scan_decimal (show_int i @ r) = Some (i, r)"
proof -
  obtain c cs where c: "show_nat (nat i) = c # cs"
    using show_nat_nonempty by (cases "show_nat (nat i)") auto
  with show_nat_digits [of "nat i"] have "is_digit c" by simp
  from digit_not_special [OF this] have "c \<noteq> CHR ''-''" "c \<noteq> CHR ''+''" by auto
  with c scan_unsigned_show_nat [OF assms, of "nat i"] scan_unsigned_show_nat [OF assms, of "nat (- i)"]
  show ?thesis by (auto simp: show_int_def scan_decimal_def)
qed

lemma minus_not_space: "\<not> is_space CHR ''-''"
  by (simp add: is_space_def)

lemma show_int_no_space: "\<forall>c \<in> set (show_int i). \<not> is_space c"
  using show_nat_digits [of "nat i"] show_nat_digits [of "nat (- i)"]
  by (auto simp: show_int_def is_digit_not_space minus_not_space)

lemma show_int_nonempty: "show_int i \<noteq> []"
  by (simp add: show_int_def show_nat_nonempty)

lemma atoi_show_int: "in_int32 i \<Longrightarrow> atoi (show_int i) = i"
proof -
  assume i: "in_int32 i"
  then have "clamp_long i = i"
    by (simp add: clamp_long_def in_int32_def INT_MIN_def INT_MAX_def)
  moreover have "dropWhile is_space (show_int i) = show_int i"
    using show_int_no_space show_int_nonempty by (auto simp: dropWhile_eq_self_iff)
  ultimately show ?thesis
    using scan_decimal_show_int [of "[]" i] i by (simp add: atoi_def to_int32_id)
qed

section \<open>Formatted input\<close>

text \<open>
  The conversion specifications the programs use: a literal byte, white space, \<open>%s\<close>, \<open>%[^...]\<close>
  and \<open>%d\<close>.  The two string conversions carry the size of the array they store into;
  storing more than it holds is the outcome \<open>Overflow\<close>.
\<close>

datatype conv = Lit char | Ws | Str nat | NotIn string nat | Dec

datatype cval = VStr string | VInt int

datatype scan_end = Done string | Mismatch string | Eof | Overflow

fun sscanf :: "conv list \<Rightarrow> string \<Rightarrow> cval list \<times> scan_end" where
  "sscanf [] s = ([], Done s)"
| "sscanf (Lit c # fs) [] = ([], Eof)"
| "sscanf (Lit c # fs) (x # xs) = (if x = c then sscanf fs xs else ([], Mismatch (x # xs)))"
| "sscanf (Ws # fs) s = sscanf fs (dropWhile is_space s)"
| "sscanf (Str cap # fs) s =
     (let t = dropWhile is_space s;
          v = takeWhile (\<lambda>c. \<not> is_space c) t
      in if t = [] then ([], Eof)
         else if cap \<le> length v then ([], Overflow)
         else apfst (Cons (VStr v)) (sscanf fs (dropWhile (\<lambda>c. \<not> is_space c) t)))"
| "sscanf (NotIn cs cap # fs) s =
     (let v = takeWhile (\<lambda>c. c \<notin> set cs) s
      in if s = [] then ([], Eof)
         else if v = [] then ([], Mismatch s)
         else if cap \<le> length v then ([], Overflow)
         else apfst (Cons (VStr v)) (sscanf fs (dropWhile (\<lambda>c. c \<notin> set cs) s)))"
| "sscanf (Dec # fs) s =
     (let t = dropWhile is_space s
      in if t = [] then ([], Eof)
         else (case scan_decimal t of
                 None \<Rightarrow> ([], Mismatch t)
               | Some (i, r) \<Rightarrow> apfst (Cons (VInt (to_int32 (clamp_long i)))) (sscanf fs r)))"

text \<open>The value \<open>sscanf\<close> returns: the number of conversions stored, or \<open>EOF\<close>.\<close>

definition sscanf_ret :: "cval list \<times> scan_end \<Rightarrow> int" where
  "sscanf_ret r = (if fst r = [] \<and> snd r = Eof then -1 else int (length (fst r)))"

definition lits :: "string \<Rightarrow> conv list" where
  "lits s = map Lit s"

lemma sscanf_lits: "sscanf (lits p @ fs) (p @ s) = sscanf fs s"
  by (induction p) (auto simp: lits_def)

lemma sscanf_Str_word:
  assumes "v \<noteq> []" "\<forall>c \<in> set v. \<not> is_space c" "length v < cap" "r = [] \<or> is_space (hd r)"
  shows "sscanf (Str cap # fs) (v @ r) = apfst (Cons (VStr v)) (sscanf fs r)"
proof -
  have "dropWhile is_space (v @ r) = v @ r"
    using assms(1,2) by (cases v) auto
  moreover have "takeWhile (\<lambda>c. \<not> is_space c) (v @ r) = v"
    "dropWhile (\<lambda>c. \<not> is_space c) (v @ r) = r"
    using assms(2,4)
    by (auto simp: takeWhile_append2 dropWhile_append2 takeWhile_eq_Nil_iff dropWhile_eq_self_iff)
  ultimately show ?thesis using assms(1,3) by simp
qed

lemma sscanf_Str_skip: "is_space c \<Longrightarrow> sscanf (Str cap # fs) (c # s) = sscanf (Str cap # fs) s"
  by simp

lemma sscanf_NotIn_word:
  assumes "v \<noteq> []" "\<forall>c \<in> set v. c \<notin> set cs" "length v < cap" "r = [] \<or> hd r \<in> set cs"
  shows "sscanf (NotIn cs cap # fs) (v @ r) = apfst (Cons (VStr v)) (sscanf fs r)"
proof -
  have "takeWhile (\<lambda>c. c \<notin> set cs) (v @ r) = v" "dropWhile (\<lambda>c. c \<notin> set cs) (v @ r) = r"
    using assms(2,4)
    by (auto simp: takeWhile_append2 dropWhile_append2 takeWhile_eq_Nil_iff dropWhile_eq_self_iff)
  then show ?thesis using assms(1,3) by simp
qed

lemma sscanf_Dec_text:
  assumes "in_int32 i" "r = [] \<or> \<not> is_digit (hd r)"
  shows "sscanf (Dec # fs) (show_int i @ r) = apfst (Cons (VInt i)) (sscanf fs r)"
proof -
  have "dropWhile is_space (show_int i @ r) = show_int i @ r"
    using show_int_no_space [of i] show_int_nonempty [of i] by (cases "show_int i") auto
  moreover have "clamp_long i = i"
    using assms(1) by (simp add: clamp_long_def in_int32_def INT_MIN_def INT_MAX_def)
  ultimately show ?thesis
    using scan_decimal_show_int [OF assms(2), of i] assms(1)
    by (simp add: to_int32_id show_int_nonempty)
qed

declare sscanf.simps(5-7) [simp del]

lemmas [eval_simps] =
  strncasecmp_numeral byte_at_def to_lower_def is_space_def lits_def sscanf.simps show_nat.simps
  digit_char_def show_int_def to_int32_def crlf_def cstr_def clamp_long_def scan_decimal_def
  scan_unsigned_def is_digit_def digit_val_def atoi_def

end
