(* ===== verification/Posix_IO.thy ===== *)
theory Posix_IO
  imports C_String
begin

text \<open>
  One process and the kernel it calls.  A program is a function on the \<open>world\<close>: the replies
  the kernel will give to the calls whose results the program looks at (\<open>script\<close>), \<open>errno\<close>,
  and the trace of what the process has done so far.  The kernel is the environment: nothing
  is assumed of the replies beyond what \<open>norm_reply\<close> states (a read returns at most the
  bytes asked for, a write accepts at most the bytes given), and the theorems quantify over
  the script.  A program that asks for a reply when the script is exhausted is \<open>Blocked\<close> in
  that call, so a finite script is a finite prefix of an execution.

  A program ends by returning (\<open>Ret\<close>), by \<open>exit\<close> (\<open>Exited\<close>), by \<open>abort\<close> (\<open>Aborted\<close>), or
  with a \<open>Fault\<close>: undefined behaviour of C (a store past the end of an array, the use of
  a null pointer or of an uninitialised variable, a variable length array whose size is not
  positive).  \<open>Spin\<close> is a loop that goes round without making a call,
  and \<open>Replaced\<close> a process that \<open>exec\<close> has given another program.
\<close>

section \<open>Calls, replies and the trace\<close>

record reply =
  rv :: int
  er :: int
  dat :: bytes
  src_addr :: bytes

text \<open>The calls whose results a program uses.\<close>

datatype call =
    CSocket int int int
  | CSocketAI bytes
  | CSetsockopt int int int
  | CBind int int
  | CListen int int
  | CAccept int
  | CConnect int bytes
  | CGetaddrinfo string string
  | CRead int nat
  | CWrite int bytes
  | CWriteBad int
  | COpen string int
  | CFopen string string
  | CMalloc nat
  | CFork
  | CWaitpid int int
  | CPoll "(int \<times> int) list" int
  | CPthreadCreate string
  | CFgets nat
  | CRecvfrom int nat
  | CSendto int bytes bytes
  | CSendtoBad int
  | CSys string "int list"

text \<open>The actions whose results a program ignores.\<close>

datatype act =
    AClose int
  | AFreeaddrinfo
  | AFree
  | ALock string
  | AUnlock string
  | AFcntlLock int int
  | ALseekEnd int
  | AFputs int string
  | AFclose int
  | ADetach int
  | AOut string
  | AErr string
  | APerror string int
  | ASys string "int list"

datatype entry = Sys call reply | Act act

record world =
  script :: "reply list"
  errno :: int
  trace :: "entry list"

text \<open>
  What the kernel guarantees of a reply.  \<open>read\<close> returns -1 or as many bytes as it stored,
  at most the number asked for; \<open>write\<close> returns -1 or how many of the bytes it took;
  a write with a negative count fails; the only negative result of \<open>poll\<close> is -1.  A datagram
  is received, cut to the size of the buffer, with the address of its sender (\<open>src_addr\<close>), and is
  sent whole or not at all.  \<open>fgets\<close> on standard input delivers a line of at least one byte that
  fits the buffer with its NUL, or null (0) at the end of the input.
\<close>

definition norm_reply :: "call \<Rightarrow> reply \<Rightarrow> reply" where
  "norm_reply c r =
     (case c of
        CRead fd n \<Rightarrow>
          if rv r < 0 then r\<lparr>rv := -1, dat := []\<rparr>
          else r\<lparr>rv := int (length (take n (dat r))), dat := take n (dat r)\<rparr>
      | CWrite fd b \<Rightarrow>
          if rv r < 0 then r\<lparr>rv := -1\<rparr> else r\<lparr>rv := min (rv r) (int (length b))\<rparr>
      | CWriteBad fd \<Rightarrow> r\<lparr>rv := -1\<rparr>
      | CPoll fds t \<Rightarrow> r\<lparr>rv := max (-1) (rv r)\<rparr>
      | CFgets n \<Rightarrow>
          if rv r = 0 \<or> take (n - 1) (dat r) = [] then r\<lparr>rv := 0, dat := []\<rparr>
          else r\<lparr>rv := 1, dat := take (n - 1) (dat r)\<rparr>
      | CRecvfrom fd n \<Rightarrow>
          if rv r < 0 then r\<lparr>rv := -1, dat := []\<rparr>
          else r\<lparr>rv := int (length (take n (dat r))), dat := take n (dat r)\<rparr>
      | CSendto fd b a \<Rightarrow>
          if rv r < 0 then r\<lparr>rv := -1\<rparr> else r\<lparr>rv := int (length b)\<rparr>
      | CSendtoBad fd \<Rightarrow> r\<lparr>rv := -1\<rparr>
      | _ \<Rightarrow> r)"

datatype stop = Exited int | Aborted | Fault string | Blocked call | Spin | Replaced string

datatype 'a result = Ret 'a world | Stop stop world

type_synonym 'a io = "world \<Rightarrow> 'a result"

section \<open>Sequencing\<close>

definition ret :: "'a \<Rightarrow> 'a io" where
  "ret x = (\<lambda>w. Ret x w)"

definition halt :: "stop \<Rightarrow> 'a io" where
  "halt s = (\<lambda>w. Stop s w)"

definition bnd :: "'a io \<Rightarrow> ('a \<Rightarrow> 'b io) \<Rightarrow> 'b io" where
  "bnd m f = (\<lambda>w. case m w of Ret x w' \<Rightarrow> f x w' | Stop s w' \<Rightarrow> Stop s w')"

definition thn :: "unit io \<Rightarrow> 'b io \<Rightarrow> 'b io" where
  "thn m k = bnd m (\<lambda>_. k)"

text \<open>A block of statements executed in order, and what follows it.\<close>

definition seqs :: "unit io list \<Rightarrow> 'b io \<Rightarrow> 'b io" where
  "seqs ms k = foldr thn ms k"

lemma seqs_simps [simp]:
  "seqs [] k = k"
  "seqs (m # ms) k = thn m (seqs ms k)"
  by (simp_all add: seqs_def)

section \<open>Primitives\<close>

definition log_act :: "act \<Rightarrow> world \<Rightarrow> world" where
  "log_act a w = w\<lparr>trace := trace w @ [Act a]\<rparr>"

definition log_call :: "call \<Rightarrow> reply \<Rightarrow> reply list \<Rightarrow> world \<Rightarrow> world" where
  "log_call c r rs w =
     w\<lparr>script := rs, errno := (if rv r < 0 then er r else errno w), trace := trace w @ [Sys c r]\<rparr>"

definition act :: "act \<Rightarrow> unit io" where
  "act a = (\<lambda>w. Ret () (log_act a w))"

definition call :: "call \<Rightarrow> reply io" where
  "call c = (\<lambda>w. case script w of
      [] \<Rightarrow> Stop (Blocked c) w
    | r # rs \<Rightarrow> (let r' = norm_reply c r in Ret r' (log_call c r' rs w)))"

definition get_errno :: "int io" where
  "get_errno = (\<lambda>w. Ret (errno w) w)"

definition c_exit :: "int \<Rightarrow> 'a io" where
  "c_exit n = halt (Exited n)"

definition c_abort :: "'a io" where
  "c_abort = halt Aborted"

definition c_fault :: "string \<Rightarrow> 'a io" where
  "c_fault why = halt (Fault why)"

text \<open>A call of which the program uses the returned integer only.\<close>

definition sysi :: "call \<Rightarrow> int io" where
  "sysi c = bnd (call c) (\<lambda>r. ret (rv r))"

definition c_read :: "int \<Rightarrow> nat \<Rightarrow> (int \<times> bytes) io" where
  "c_read fd n = bnd (call (CRead fd n)) (\<lambda>r. ret (rv r, dat r))"

text \<open>
  \<open>write(fd, buf, n)\<close>, \<open>buf\<close> being the bytes of the array the pointer refers to: a negative
  count is an enormous \<open>size_t\<close>, which the kernel rejects; a count larger than the array
  makes the kernel read memory past its end.
\<close>

definition c_write :: "int \<Rightarrow> bytes \<Rightarrow> int \<Rightarrow> int io" where
  "c_write fd buf n =
     (if n < 0 then sysi (CWriteBad fd)
      else if n \<le> int (length buf) then sysi (CWrite fd (take (nat n) buf))
      else c_fault ''write past the end of an array'')"

definition c_close :: "int \<Rightarrow> unit io" where
  "c_close fd = act (AClose fd)"

definition c_print :: "string \<Rightarrow> unit io" where
  "c_print s = act (AOut s)"

definition c_eprint :: "string \<Rightarrow> unit io" where
  "c_eprint s = act (AErr s)"

text \<open>\<open>perror\<close> prints the message and the text of the current \<open>errno\<close>.\<close>

definition c_perror :: "string \<Rightarrow> unit io" where
  "c_perror s = bnd get_errno (\<lambda>e. act (APerror s e))"

text \<open>Reading an automatic variable that nothing was stored in is undefined.\<close>

definition need :: "'a option \<Rightarrow> ('a \<Rightarrow> 'b io) \<Rightarrow> 'b io" where
  "need v k = (case v of None \<Rightarrow> c_fault ''indeterminate value'' | Some x \<Rightarrow> k x)"

text \<open>Constants of the headers (Linux, x86-64).\<close>

definition AF_INET :: int where "AF_INET = 2"
definition SOCK_STREAM :: int where "SOCK_STREAM = 1"
definition SOL_SOCKET :: int where "SOL_SOCKET = 1"
definition SO_REUSEADDR :: int where "SO_REUSEADDR = 2"
definition EINTR :: int where "EINTR = 4"
definition O_RDONLY :: int where "O_RDONLY = 0"
definition O_WRONLY :: int where "O_WRONLY = 1"
definition WNOHANG :: int where "WNOHANG = 1"
definition F_WRLCK :: int where "F_WRLCK = 1"
definition F_UNLCK :: int where "F_UNLCK = 2"
definition EXIT_FAILURE :: int where "EXIT_FAILURE = 1"
definition EXIT_SUCCESS :: int where "EXIT_SUCCESS = 0"

text \<open>\<open>htons\<close> keeps the low 16 bits of its argument (the byte order is not modelled).\<close>

definition htons :: "int \<Rightarrow> int" where
  "htons p = p mod 65536"

section \<open>Loops\<close>

text \<open>
  \<open>repeat_var \<mu> body s\<close> is \<open>while (1) body\<close>: each round ends with \<open>Inl\<close> of the next loop state
  (go on) or \<open>Inr\<close> of the value the loop is left with (\<open>break\<close> or \<open>return\<close>).  A round that goes
  on has used up a reply, or else has made the variant \<open>\<mu>\<close> of the loop state smaller; a round
  that did neither is \<open>Spin\<close>.  \<open>repeat_io\<close> is the loop whose every round makes a call.
\<close>

definition progress :: "('s \<Rightarrow> nat) \<Rightarrow> 's \<Rightarrow> world \<Rightarrow> 's \<Rightarrow> world \<Rightarrow> bool" where
  "progress \<mu> s w s' w' \<longleftrightarrow>
     length (script w') < length (script w) \<or>
     (length (script w') = length (script w) \<and> \<mu> s' < \<mu> s)"

function repeat_var :: "('s \<Rightarrow> nat) \<Rightarrow> ('s \<Rightarrow> ('s + 'b) io) \<Rightarrow> 's \<Rightarrow> 'b io" where
  "repeat_var \<mu> body s w =
     (case body s w of
        Stop e w' \<Rightarrow> Stop e w'
      | Ret x w' \<Rightarrow>
          (case x of
             Inr b \<Rightarrow> Ret b w'
           | Inl s' \<Rightarrow> if progress \<mu> s w s' w' then repeat_var \<mu> body s' w' else Stop Spin w'))"
  by pat_completeness auto
termination
  by (relation "measures [\<lambda>(\<mu>, body, s, w). length (script w), \<lambda>(\<mu>, body, s, w). \<mu> s]")
    (auto simp: progress_def)

declare repeat_var.simps [simp del]

definition repeat_io :: "('s \<Rightarrow> ('s + 'b) io) \<Rightarrow> 's \<Rightarrow> 'b io" where
  "repeat_io body = repeat_var (\<lambda>_. 0) body"

text \<open>Rounds of a loop: \<open>go s\<close> is the next round, \<open>leave b\<close> leaves the loop.\<close>

definition go :: "'s \<Rightarrow> ('s + 'b) io" where
  "go s = ret (Inl s)"

definition leave :: "'b \<Rightarrow> ('s + 'b) io" where
  "leave b = ret (Inr b)"

section \<open>Evaluation\<close>

lemma call_simps [io_simps]:
  "script w = [] \<Longrightarrow> call c w = Stop (Blocked c) w"
  "script w = r # rs \<Longrightarrow> call c w = Ret (norm_reply c r) (log_call c (norm_reply c r) rs w)"
  by (simp_all add: call_def Let_def)

lemma log_act_fields [simp, io_simps]:
  "script (log_act a w) = script w"
  "errno (log_act a w) = errno w"
  "trace (log_act a w) = trace w @ [Act a]"
  by (simp_all add: log_act_def)

lemma log_call_fields [simp, io_simps]:
  "script (log_call c r rs w) = rs"
  "errno (log_call c r rs w) = (if rv r < 0 then er r else errno w)"
  "trace (log_call c r rs w) = trace w @ [Sys c r]"
  by (simp_all add: log_call_def)

lemma norm_read [simp, io_simps]:
  "rv (norm_reply (CRead fd n) r) = (if rv r < 0 then -1 else int (length (take n (dat r))))"
  "dat (norm_reply (CRead fd n) r) = (if rv r < 0 then [] else take n (dat r))"
  "er (norm_reply (CRead fd n) r) = er r"
  by (simp_all add: norm_reply_def)

lemma norm_write [simp, io_simps]:
  "rv (norm_reply (CWrite fd b) r) = (if rv r < 0 then -1 else min (rv r) (int (length b)))"
  "er (norm_reply (CWrite fd b) r) = er r"
  "rv (norm_reply (CWriteBad fd) r) = -1"
  by (simp_all add: norm_reply_def)

lemma ret_run [simp, io_simps]: "ret x w = Ret x w"
  by (simp add: ret_def)

lemma act_run [simp, io_simps]: "act a w = Ret () (log_act a w)"
  by (simp add: act_def)

lemma halt_run [simp, io_simps]:
  "halt s w = Stop s w" "c_exit n w = Stop (Exited n) w" "c_abort w = Stop Aborted w"
  "c_fault f w = Stop (Fault f) w"
  by (simp_all add: halt_def c_exit_def c_abort_def c_fault_def)

lemma bnd_run [io_simps]:
  "m w = Ret x w' \<Longrightarrow> bnd m f w = f x w'"
  "m w = Stop s w' \<Longrightarrow> bnd m f w = Stop s w'"
  by (simp_all add: bnd_def)

lemma thn_run [io_simps]:
  "m w = Ret () w' \<Longrightarrow> thn m k w = k w'"
  "m w = Stop s w' \<Longrightarrow> thn m k w = Stop s w'"
  by (simp_all add: thn_def bnd_def)

lemma bnd_ret [simp]: "bnd (ret x) f = f x"
  by (simp add: bnd_def ret_def)

lemma bnd_assoc: "bnd (bnd m f) g = bnd m (\<lambda>x. bnd (f x) g)"
  by (rule ext) (simp add: bnd_def split: result.split)

lemma thn_act [simp]: "thn (act a) k w = k (log_act a w)"
  by (simp add: thn_def bnd_def)

section \<open>Weakest preconditions\<close>

text \<open>
  \<open>wp m Q E w\<close>: run from \<open>w\<close>, \<open>m\<close> returns only values and worlds that satisfy \<open>Q\<close> and stops
  only with outcomes and worlds that satisfy \<open>E\<close>.  Every run has one of the two outcomes, so
  this is total correctness up to \<open>Blocked\<close>.
\<close>

definition wp :: "'a io \<Rightarrow> ('a \<Rightarrow> world \<Rightarrow> bool) \<Rightarrow> (stop \<Rightarrow> world \<Rightarrow> bool) \<Rightarrow> world \<Rightarrow> bool" where
  "wp m Q E w = (case m w of Ret x w' \<Rightarrow> Q x w' | Stop s w' \<Rightarrow> E s w')"

lemma wp_prims [wp_simps]:
  "wp (ret x) Q E = Q x"
  "wp (halt s) Q E = E s"
  "wp (c_exit n) Q E = E (Exited n)"
  "wp c_abort Q E = E Aborted"
  "wp (c_fault f) Q E = E (Fault f)"
  "wp (act a) Qu E = (\<lambda>w. Qu () (log_act a w))"
  "wp get_errno Qi E = (\<lambda>w. Qi (errno w) w)"
  "wp (go y) Qs E = Qs (Inl y)"
  "wp (leave z) Qs E = Qs (Inr z)"
  by (simp_all add: wp_def get_errno_def go_def leave_def fun_eq_iff)

lemma wp_bnd [wp_simps]: "wp (bnd m f) Q E = wp m (\<lambda>x. wp (f x) Q E) E"
  by (simp add: wp_def bnd_def fun_eq_iff split: result.split)

lemma wp_thn [wp_simps]: "wp (thn m k) Q E = wp m (\<lambda>_. wp k Q E) E"
  by (simp add: thn_def wp_bnd)

lemma wp_call:
  "wp (call c) Q E w =
     (case script w of
        [] \<Rightarrow> E (Blocked c) w
      | r # rs \<Rightarrow> Q (norm_reply c r) (log_call c (norm_reply c r) rs w))"
  by (simp add: wp_def call_def Let_def split: list.split)

text \<open>
  The rule for a call in a proof about every script: the continuation is shown for an
  arbitrary reply.
\<close>

lemma wp_callI:
  assumes "\<And>r rs. script w = r # rs \<Longrightarrow> Q (norm_reply c r) (log_call c (norm_reply c r) rs w)"
    and "script w = [] \<Longrightarrow> E (Blocked c) w"
  shows "wp (call c) Q E w"
  using assms by (cases "script w") (auto simp: wp_call)

lemma wp_derived [wp_simps]:
  "wp (sysi c) Qi E = wp (call c) (\<lambda>r. Qi (rv r)) E"
  "wp (c_read fd n) Qr E = wp (call (CRead fd n)) (\<lambda>r. Qr (rv r, dat r)) E"
  "wp (c_close fd) P E = (\<lambda>w. P () (log_act (AClose fd) w))"
  "wp (c_print s) P E = (\<lambda>w. P () (log_act (AOut s) w))"
  "wp (c_eprint s) P E = (\<lambda>w. P () (log_act (AErr s) w))"
  "wp (c_perror s) P E = (\<lambda>w. P () (log_act (APerror s (errno w)) w))"
  by (simp_all add: sysi_def c_read_def c_close_def c_print_def c_eprint_def c_perror_def
      wp_bnd wp_prims)

lemma wp_write [wp_simps]:
  "wp (c_write fd buf n) Q E =
     (if n < 0 then wp (call (CWriteBad fd)) (\<lambda>r. Q (rv r)) E
      else if n \<le> int (length buf) then wp (call (CWrite fd (take (nat n) buf))) (\<lambda>r. Q (rv r)) E
      else E (Fault ''write past the end of an array''))"
  by (simp add: c_write_def wp_derived wp_prims)

lemma wp_need [wp_simps]:
  "wp (need v k) Q E =
     (case v of None \<Rightarrow> E (Fault ''indeterminate value'') | Some x \<Rightarrow> wp (k x) Q E)"
  by (simp add: need_def wp_prims split: option.split)

lemma wp_if [wp_simps]: "wp (if b then m else k) Q E = (if b then wp m Q E else wp k Q E)"
  by simp

lemma wp_conseq:
  "wp m Q E w \<Longrightarrow> (\<And>x w'. Q x w' \<Longrightarrow> Q' x w') \<Longrightarrow> (\<And>s w'. E s w' \<Longrightarrow> E' s w') \<Longrightarrow> wp m Q' E' w"
  by (auto simp: wp_def split: result.splits)

lemma wp_RetD: "wp m Q E w \<Longrightarrow> m w = Ret x w' \<Longrightarrow> Q x w'"
  by (simp add: wp_def)

lemma wp_StopD: "wp m Q E w \<Longrightarrow> m w = Stop s w' \<Longrightarrow> E s w'"
  by (simp add: wp_def)

text \<open>
  The loop rule: an invariant that every round keeps, with a round that goes on making
  progress.  The loop then never spins.
\<close>

lemma wp_repeat_var:
  assumes round: "\<And>s w. I s w \<Longrightarrow>
      wp (body s) (\<lambda>x w'. case x of Inr b \<Rightarrow> Q b w'
                   | Inl s' \<Rightarrow> I s' w' \<and> progress \<mu> s w s' w') E w"
    and start: "I s w"
  shows "wp (repeat_var \<mu> body s) Q E w"
proof -
  have "\<And>s w. p = (length (script w), \<mu> s) \<Longrightarrow> I s w \<Longrightarrow> wp (repeat_var \<mu> body s) Q E w" for p
  proof (induction p rule: wf_induct [OF wf_lex_prod [OF wf_less_than wf_less_than]])
    case (1 p)
    then have IH: "progress \<mu> s w s' w' \<Longrightarrow> I s' w' \<Longrightarrow> wp (repeat_var \<mu> body s') Q E w'" for s' w'
      by (force simp: progress_def)
    note IHs = wp_RetD [OF IH] wp_StopD [OF IH]
    from round [OF 1(3)] show ?case
      by (subst wp_def, subst repeat_var.simps)
        (auto simp: wp_def [of "body s"] split: result.splits sum.splits dest: IHs)
  qed
  with start show ?thesis by blast
qed

lemma wp_repeat:
  assumes "\<And>s w. I s w \<Longrightarrow>
      wp (body s) (\<lambda>x w'. case x of Inr b \<Rightarrow> Q b w'
                   | Inl s' \<Rightarrow> I s' w' \<and> length (script w') < length (script w)) E w"
    and "I s w"
  shows "wp (repeat_io body s) Q E w"
  unfolding repeat_io_def
proof (rule wp_repeat_var [where I = I])
  fix s w assume "I s w"
  from assms(1) [OF this]
  show "wp (body s) (\<lambda>x w'. case x of Inr b \<Rightarrow> Q b w'
          | Inl s' \<Rightarrow> I s' w' \<and> progress (\<lambda>_. 0) s w s' w') E w"
    by (rule wp_conseq) (auto simp: progress_def split: sum.splits)
qed (rule assms(2))

section \<open>Reasoning about the trace alone\<close>

text \<open>
  \<open>wpt m Q E t\<close>: for every script, a run of \<open>m\<close> extends the trace \<open>t\<close> to one that satisfies
  \<open>Q\<close> when it returns and \<open>E\<close> when it stops.  The reply to a call is then any reply.
\<close>

definition wpt :: "'a io \<Rightarrow> ('a \<Rightarrow> entry list \<Rightarrow> bool) \<Rightarrow> (stop \<Rightarrow> entry list \<Rightarrow> bool)
    \<Rightarrow> entry list \<Rightarrow> bool" where
  "wpt m Q E t \<longleftrightarrow>
     (\<forall>w. wp m (\<lambda>x w'. \<exists>u. trace w' = trace w @ u \<and> Q x (t @ u))
               (\<lambda>s w'. \<exists>u. trace w' = trace w @ u \<and> E s (t @ u)) w)"

lemma wpt_case:
  assumes "wpt m Q E []"
  shows "case m w of
      Ret x w' \<Rightarrow> \<exists>u. trace w' = trace w @ u \<and> Q x u
    | Stop s w' \<Rightarrow> \<exists>u. trace w' = trace w @ u \<and> E s u"
  using assms by (auto simp: wpt_def wp_def split: result.splits)

lemma wpt_conseq:
  "wpt m Q E t \<Longrightarrow> (\<And>x u. Q x u \<Longrightarrow> Q' x u) \<Longrightarrow> (\<And>s u. E s u \<Longrightarrow> E' s u) \<Longrightarrow> wpt m Q' E' t"
  unfolding wpt_def by (blast intro: wp_conseq)

text \<open>A law proved from the empty trace holds behind any trace.\<close>

lemma wpt_frame:
  assumes "wpt m Q E []" "\<And>x u. Q x u \<Longrightarrow> Q' x (t @ u)" "\<And>s u. E s u \<Longrightarrow> E' s (t @ u)"
  shows "wpt m Q' E' t"
  using assms unfolding wpt_def by (auto intro: wp_conseq)

lemma wpt_bnd: "wpt m (\<lambda>x. wpt (f x) Q E) E t \<Longrightarrow> wpt (bnd m f) Q E t"
  unfolding wpt_def wp_bnd
proof (intro allI, elim allE)
  fix w
  assume "wp m (\<lambda>x w'. \<exists>u. trace w' = trace w @ u \<and>
       (\<forall>w. wp (f x) (\<lambda>x w'. \<exists>v. trace w' = trace w @ v \<and> Q x ((t @ u) @ v))
            (\<lambda>s w'. \<exists>v. trace w' = trace w @ v \<and> E s ((t @ u) @ v)) w))
     (\<lambda>s w'. \<exists>u. trace w' = trace w @ u \<and> E s (t @ u)) w"
  then show "wp m (\<lambda>x. wp (f x) (\<lambda>x w'. \<exists>u. trace w' = trace w @ u \<and> Q x (t @ u))
       (\<lambda>s w'. \<exists>u. trace w' = trace w @ u \<and> E s (t @ u)))
     (\<lambda>s w'. \<exists>u. trace w' = trace w @ u \<and> E s (t @ u)) w"
  proof (rule wp_conseq)
    fix x and w' :: world
    assume "\<exists>u. trace w' = trace w @ u \<and>
       (\<forall>w. wp (f x) (\<lambda>x w'. \<exists>v. trace w' = trace w @ v \<and> Q x ((t @ u) @ v))
            (\<lambda>s w'. \<exists>v. trace w' = trace w @ v \<and> E s ((t @ u) @ v)) w)"
    then obtain u where u: "trace w' = trace w @ u" and
      f: "wp (f x) (\<lambda>x w''. \<exists>v. trace w'' = trace w' @ v \<and> Q x ((t @ u) @ v))
            (\<lambda>s w''. \<exists>v. trace w'' = trace w' @ v \<and> E s ((t @ u) @ v)) w'" by blast
    from f show "wp (f x) (\<lambda>x w'. \<exists>u. trace w' = trace w @ u \<and> Q x (t @ u))
       (\<lambda>s w'. \<exists>u. trace w' = trace w @ u \<and> E s (t @ u)) w'"
      by (rule wp_conseq) (auto simp: u)
  qed
qed

lemma wpt_thn: "wpt m (\<lambda>_. wpt k Q E) E t \<Longrightarrow> wpt (thn m k) Q E t"
  unfolding thn_def by (rule wpt_bnd)

lemma wpt_call:
  "(\<And>r. Q (norm_reply c r) (t @ [Sys c (norm_reply c r)])) \<Longrightarrow> E (Blocked c) t \<Longrightarrow>
   wpt (call c) Q E t"
  unfolding wpt_def by (intro allI wp_callI) auto

lemma wpt_prims:
  "Q x t \<Longrightarrow> wpt (ret x) Q E t"
  "E s t \<Longrightarrow> wpt (halt s) Q E t"
  "E (Exited n) t \<Longrightarrow> wpt (c_exit n) Q E t"
  "E Aborted t \<Longrightarrow> wpt c_abort Q E t"
  "E (Fault why) t \<Longrightarrow> wpt (c_fault why) Q E t"
  "Qu () (t @ [Act a]) \<Longrightarrow> wpt (act a) Qu E t"
  "(\<And>e. Qi e t) \<Longrightarrow> wpt get_errno Qi E t"
  "Qs (Inl y) t \<Longrightarrow> wpt (go y) Qs E t"
  "Qs (Inr z) t \<Longrightarrow> wpt (leave z) Qs E t"
  by (simp_all add: wpt_def wp_simps)

lemma wpt_derived:
  "(\<And>r. Qi (rv (norm_reply c r)) (t @ [Sys c (norm_reply c r)])) \<Longrightarrow> E (Blocked c) t \<Longrightarrow>
   wpt (sysi c) Qi E t"
  "Qu () (t @ [Act (AClose fd)]) \<Longrightarrow> wpt (c_close fd) Qu E t"
  "Qu () (t @ [Act (AOut s)]) \<Longrightarrow> wpt (c_print s) Qu E t"
  "Qu () (t @ [Act (AErr s)]) \<Longrightarrow> wpt (c_eprint s) Qu E t"
  "(\<And>e. Qu () (t @ [Act (APerror s e)])) \<Longrightarrow> wpt (c_perror s) Qu E t"
  unfolding sysi_def c_close_def c_print_def c_eprint_def c_perror_def
  by (auto intro!: wpt_bnd wpt_call wpt_prims)

lemma wpt_if:
  "(b \<Longrightarrow> wpt m Q E t) \<Longrightarrow> (\<not> b \<Longrightarrow> wpt k Q E t) \<Longrightarrow> wpt (if b then m else k) Q E t"
  by simp

lemma wpt_need:
  "(v = None \<Longrightarrow> E (Fault ''indeterminate value'') t) \<Longrightarrow> (\<And>x. v = Some x \<Longrightarrow> wpt (k x) Q E t) \<Longrightarrow>
   wpt (need v k) Q E t"
  unfolding need_def by (auto intro: wpt_prims split: option.split)

text \<open>
  A read either fails, or delivers bytes; a write of what a read delivered writes all of it,
  or is rejected when the read failed.
\<close>

lemma wpt_read:
  assumes "\<And>r. rv r = -1 \<Longrightarrow> dat r = [] \<Longrightarrow> Q (-1, []) (t @ [Sys (CRead fd n) r])"
    and "\<And>r. rv r = int (length (dat r)) \<Longrightarrow> length (dat r) \<le> n \<Longrightarrow>
      Q (int (length (dat r)), dat r) (t @ [Sys (CRead fd n) r])"
    and "E (Blocked (CRead fd n)) t"
  shows "wpt (c_read fd n) Q E t"
  unfolding c_read_def
proof (rule wpt_bnd, rule wpt_call, rule wpt_prims)
  fix r
  let ?r = "norm_reply (CRead fd n) r"
  show "Q (rv ?r, dat ?r) (t @ [Sys (CRead fd n) ?r])"
  proof (cases "rv r < 0")
    case True
    with assms(1) [of ?r] show ?thesis by simp
  next
    case False
    with assms(2) [of ?r] show ?thesis by simp
  qed
qed (rule assms(3))

lemma wpt_write:
  assumes "n = int (length buf) \<or> (n = -1 \<and> buf = [])"
    and "\<And>r. n = -1 \<Longrightarrow> buf = [] \<Longrightarrow> rv r = -1 \<Longrightarrow> Q (-1) (t @ [Sys (CWriteBad fd) r])"
    and "\<And>r. n = int (length buf) \<Longrightarrow> -1 \<le> rv r \<Longrightarrow> rv r \<le> int (length buf) \<Longrightarrow>
      Q (rv r) (t @ [Sys (CWrite fd buf) r])"
    and "\<And>c. E (Blocked c) t"
  shows "wpt (c_write fd buf n) Q E t"
proof (cases "n = -1")
  case True
  with assms(1) have "buf = []" by auto
  show ?thesis
    unfolding c_write_def True
    using assms(2) [OF True \<open>buf = []\<close>, of "norm_reply (CWriteBad fd) r" for r] assms(4)
    by (auto intro!: wpt_derived)
next
  case False
  with assms(1) have n: "n = int (length buf)" by simp
  have "Q (rv (norm_reply (CWrite fd buf) r)) (t @ [Sys (CWrite fd buf) (norm_reply (CWrite fd buf) r)])"
    for r
    using assms(3) [OF n, of "norm_reply (CWrite fd buf) r"] by simp
  then show ?thesis
    using assms(4) by (auto simp: c_write_def n intro!: wpt_derived)
qed

lemmas wpt_intros = wpt_bnd wpt_thn wpt_prims wpt_derived wpt_if wpt_need wpt_call

text \<open>The loop rule: the rounds that go on make a call.\<close>

definition calls_each_round :: "('s \<Rightarrow> ('s + 'b) io) \<Rightarrow> bool" where
  "calls_each_round body \<longleftrightarrow>
     (\<forall>s w. wp (body s) (\<lambda>x w'. case x of Inr b \<Rightarrow> True
        | Inl s' \<Rightarrow> length (script w') < length (script w)) (\<lambda>_ _. True) w)"

lemma wpt_repeat:
  assumes calls: "calls_each_round body"
    and round: "\<And>s t. I s t \<Longrightarrow>
      wpt (body s) (\<lambda>x t'. case x of Inr b \<Rightarrow> Q b t' | Inl s' \<Rightarrow> I s' t') E t"
    and start: "I s t"
  shows "wpt (repeat_io body s) Q E t"
  unfolding wpt_def
proof (rule allI)
  fix w :: world
  show "wp (repeat_io body s) (\<lambda>x w'. \<exists>u. trace w' = trace w @ u \<and> Q x (t @ u))
      (\<lambda>s w'. \<exists>u. trace w' = trace w @ u \<and> E s (t @ u)) w"
  proof (rule wp_repeat [where I = "\<lambda>s w'. \<exists>u. trace w' = trace w @ u \<and> I s (t @ u)"], goal_cases)
    case (1 s w')
    then obtain u where u: "trace w' = trace w @ u" "I s (t @ u)" by blast
    from round [OF u(2)] calls u(1) show ?case
      unfolding wpt_def calls_each_round_def wp_def
      by (fastforce split: result.splits sum.splits)
  next
    case 2
    with start show ?case by (intro exI [of _ "[]"]) simp
  qed
qed

text \<open>Nothing adds to the script, so a round that begins with a call makes progress.\<close>

definition shrinks :: "'a io \<Rightarrow> bool" where
  "shrinks m \<longleftrightarrow> (\<forall>w x w'. m w = Ret x w' \<longrightarrow> length (script w') \<le> length (script w))"

lemma shrinks_bnd: "shrinks m \<Longrightarrow> (\<And>x. shrinks (f x)) \<Longrightarrow> shrinks (bnd m f)"
  unfolding shrinks_def bnd_def by (fastforce split: result.splits)

lemma shrinks_thn: "shrinks m \<Longrightarrow> shrinks k \<Longrightarrow> shrinks (thn m k)"
  unfolding thn_def by (rule shrinks_bnd)

lemma shrinks_call: "shrinks (call c)"
  by (auto simp: shrinks_def call_def Let_def split: list.splits)

lemma shrinks_prims:
  "shrinks (ret x)" "shrinks (halt s)" "shrinks (c_exit n)" "shrinks c_abort" "shrinks (c_fault f)"
  "shrinks (act a)" "shrinks get_errno" "shrinks (go y)" "shrinks (leave z)"
  by (simp_all add: shrinks_def get_errno_def go_def leave_def)

lemma shrinks_derived:
  "shrinks (sysi c)" "shrinks (c_read fd n)" "shrinks (c_close fd)" "shrinks (c_print s)"
  "shrinks (c_eprint s)" "shrinks (c_perror s)" "shrinks (c_write fd b i)"
  unfolding sysi_def c_read_def c_close_def c_print_def c_eprint_def c_perror_def c_write_def
  by (auto intro!: shrinks_bnd shrinks_call shrinks_prims)

lemma shrinks_if: "shrinks m \<Longrightarrow> shrinks k \<Longrightarrow> shrinks (if b then m else k)"
  by simp

lemma shrinks_need: "(\<And>x. shrinks (k x)) \<Longrightarrow> shrinks (need v k)"
  by (simp add: need_def shrinks_prims split: option.split)

lemma shrinks_seqs: "(\<And>m. m \<in> set ms \<Longrightarrow> shrinks m) \<Longrightarrow> shrinks k \<Longrightarrow> shrinks (seqs ms k)"
  by (induction ms) (auto intro: shrinks_thn)

lemma shrinks_repeat_var:
  assumes "\<And>s. shrinks (body s)"
  shows "shrinks (repeat_var \<mu> body s)"
proof -
  have "repeat_var \<mu> body s w = Ret x w' \<Longrightarrow> length (script w') \<le> length (script w)" for s w x w'
    using assms
  proof (induction \<mu> body s w rule: repeat_var.induct)
    case (1 \<mu> body s w)
    from 1(3) have body: "body s w = Ret y v \<Longrightarrow> length (script v) \<le> length (script w)" for y v
      by (simp add: shrinks_def)
    have IH: "length (script w') \<le> length (script w)"
      if "body s w = Ret (Inl s') v" "progress \<mu> s w s' v" "repeat_var \<mu> body s' v = Ret x w'" for s' v
      using 1(1) [OF that(1) refl that(2,3) 1(3)] body [OF that(1)] by simp
    from 1(2) show ?case
      by (subst (asm) repeat_var.simps)
        (auto dest: body IH split: result.splits sum.splits if_splits)
  qed
  then show ?thesis by (auto simp: shrinks_def)
qed

lemma shrinks_repeat: "(\<And>s. shrinks (body s)) \<Longrightarrow> shrinks (repeat_io body s)"
  unfolding repeat_io_def by (rule shrinks_repeat_var)

lemmas shrinks_intros =
  shrinks_bnd shrinks_thn shrinks_call shrinks_prims shrinks_derived shrinks_if shrinks_need
  shrinks_seqs shrinks_repeat

lemma calls_first:
  assumes "\<And>s r. shrinks (f s r)"
  shows "calls_each_round (\<lambda>s. bnd (call (c s)) (f s))"
  unfolding calls_each_round_def
proof (intro allI)
  fix s w
  have "length (script v) < length (script w)"
    if "script w = r # rs" "f s (norm_reply (c s) r) (log_call (c s) (norm_reply (c s) r) rs w) = Ret y v" for r rs y v
    using assms [of s "norm_reply (c s) r"] that unfolding shrinks_def by fastforce
  then show "wp (bnd (call (c s)) (f s)) (\<lambda>x w'. case x of
      Inl s' \<Rightarrow> length (script w') < length (script w) | Inr b \<Rightarrow> True) (\<lambda>_ _. True) w"
    by (auto simp: wp_def bnd_def call_def Let_def split: list.splits result.splits sum.splits)
qed

text \<open>Closing descriptors one after the other.\<close>

lemma wpt_closes:
  "wpt k Q E (t @ map (\<lambda>fd. Act (AClose fd)) fds) \<Longrightarrow> wpt (seqs (map c_close fds) k) Q E t"
proof (induction fds arbitrary: t)
  case (Cons fd fds)
  then show ?case by (auto intro!: wpt_thn wpt_derived)
qed simp

section \<open>What went over a descriptor\<close>

text \<open>The bytes a trace read from a descriptor, wrote to it, and how often it closed it.\<close>

fun bytes_read :: "int \<Rightarrow> entry list \<Rightarrow> bytes" where
  "bytes_read fd [] = []"
| "bytes_read fd (Sys (CRead fd' n) r # t) = (if fd' = fd then dat r else []) @ bytes_read fd t"
| "bytes_read fd (_ # t) = bytes_read fd t"

fun bytes_written :: "int \<Rightarrow> entry list \<Rightarrow> bytes" where
  "bytes_written fd [] = []"
| "bytes_written fd (Sys (CWrite fd' b) r # t) =
     (if fd' = fd then take (nat (rv r)) b else []) @ bytes_written fd t"
| "bytes_written fd (_ # t) = bytes_written fd t"

text \<open>The bytes a trace gave to \<open>write\<close> for a descriptor, whether or not they were accepted.\<close>

fun bytes_offered :: "int \<Rightarrow> entry list \<Rightarrow> bytes" where
  "bytes_offered fd [] = []"
| "bytes_offered fd (Sys (CWrite fd' b) r # t) = (if fd' = fd then b else []) @ bytes_offered fd t"
| "bytes_offered fd (_ # t) = bytes_offered fd t"

lemma bytes_offered_append [simp]:
  "bytes_offered fd (s @ t) = bytes_offered fd s @ bytes_offered fd t"
  by (induction fd s rule: bytes_offered.induct) auto

text \<open>The sockets a trace created for a server, the connections it accepted, and the descriptors
  it closed, in order.\<close>

fun opened :: "entry list \<Rightarrow> int list" where
  "opened [] = []"
| "opened (Sys (CSocketAI a) r # t) = (if rv r < 0 then [] else [rv r]) @ opened t"
| "opened (_ # t) = opened t"

fun accepted :: "entry list \<Rightarrow> int list" where
  "accepted [] = []"
| "accepted (Sys (CAccept a) r # t) = (if rv r < 0 then [] else [rv r]) @ accepted t"
| "accepted (_ # t) = accepted t"

fun closed :: "entry list \<Rightarrow> int list" where
  "closed [] = []"
| "closed (Act (AClose fd) # t) = fd # closed t"
| "closed (_ # t) = closed t"

lemma opened_append [simp]: "opened (s @ t) = opened s @ opened t"
  by (induction s rule: opened.induct) auto

lemma accepted_append [simp]: "accepted (s @ t) = accepted s @ accepted t"
  by (induction s rule: accepted.induct) auto

lemma closed_append [simp]: "closed (s @ t) = closed s @ closed t"
  by (induction s rule: closed.induct) auto

lemma closing [simp]:
  "closed (map (\<lambda>fd. Act (AClose fd)) fds) = fds" "opened (map (\<lambda>fd. Act (AClose fd)) fds) = []"
  "accepted (map (\<lambda>fd. Act (AClose fd)) fds) = []"
  "bytes_read g (map (\<lambda>fd. Act (AClose fd)) fds) = []"
  "bytes_offered g (map (\<lambda>fd. Act (AClose fd)) fds) = []"
  by (induction fds) auto

text \<open>What a trace printed.\<close>

fun printed :: "entry list \<Rightarrow> string list" where
  "printed [] = []"
| "printed (Act (AOut s) # t) = s # printed t"
| "printed (_ # t) = printed t"

lemma printed_append [simp]: "printed (s @ t) = printed s @ printed t"
  by (induction s rule: printed.induct) auto

definition closes :: "int \<Rightarrow> entry list \<Rightarrow> nat" where
  "closes fd t = length (filter (\<lambda>e. e = Act (AClose fd)) t)"

lemma bytes_read_append [simp]: "bytes_read fd (s @ t) = bytes_read fd s @ bytes_read fd t"
  by (induction fd s rule: bytes_read.induct) auto

lemma bytes_written_append [simp]:
  "bytes_written fd (s @ t) = bytes_written fd s @ bytes_written fd t"
  by (induction fd s rule: bytes_written.induct) auto

lemma closes_simps [simp]:
  "closes fd [] = 0"
  "closes fd (s @ t) = closes fd s + closes fd t"
  "closes fd [Act (AClose fd')] = (if fd' = fd then 1 else 0)"
  "closes fd [Sys c r] = 0"
  by (auto simp: closes_def)

text \<open>The outcomes of a piece of code that never ends the process.\<close>

definition only_blocks :: "stop \<Rightarrow> world \<Rightarrow> bool" where
  "only_blocks s w \<longleftrightarrow> (\<exists>c. s = Blocked c)"

lemma only_blocks_Blocked [simp]: "only_blocks (Blocked c) w"
  by (simp add: only_blocks_def)

section \<open>Concrete runs\<close>

text \<open>Worlds and replies for evaluating a program on a concrete input.\<close>

definition world0 :: "reply list \<Rightarrow> world" where
  "world0 rs = \<lparr>script = rs, errno = 0, trace = []\<rparr>"

text \<open>A read that delivers bytes, a call that fails, a call that returns a number.\<close>

definition got_bytes :: "bytes \<Rightarrow> reply" where
  "got_bytes d = \<lparr>rv = 0, er = 0, dat = d, src_addr = []\<rparr>"

definition failed :: "int \<Rightarrow> reply" where
  "failed e = \<lparr>rv = -1, er = e, dat = [], src_addr = []\<rparr>"

definition took :: "int \<Rightarrow> reply" where
  "took n = \<lparr>rv = n, er = 0, dat = [], src_addr = []\<rparr>"

definition returns :: "'a result \<Rightarrow> 'a \<Rightarrow> bool" where
  "returns r x = (case r of Ret y _ \<Rightarrow> y = x | Stop _ _ \<Rightarrow> False)"

definition stops_as :: "'a result \<Rightarrow> stop \<Rightarrow> bool" where
  "stops_as r s = (case r of Ret _ _ \<Rightarrow> False | Stop s' _ \<Rightarrow> s' = s)"

fun world_of :: "'a result \<Rightarrow> world" where
  "world_of (Ret x w) = w"
| "world_of (Stop s w) = w"

lemma returnsD: "returns r x \<Longrightarrow> r = Ret x (world_of r)"
  by (cases r) (auto simp: returns_def)

lemma stops_asD: "stops_as r s \<Longrightarrow> r = Stop s (world_of r)"
  by (cases r) (auto simp: stops_as_def)

lemmas [eval_simps] =
  bnd_def thn_def seqs_simps call_def sysi_def c_read_def c_write_def c_close_def c_print_def
  c_eprint_def c_perror_def get_errno_def need_def go_def leave_def norm_reply_def Let_def
  world0_def got_bytes_def failed_def took_def repeat_io_def repeat_var.simps progress_def
  log_act_def log_call_def returns_def stops_as_def EINTR_def

end
