(* ===== verification/Rio.thy ===== *)
theory Rio
  imports Posix_IO
begin

text \<open>
  The robust I/O package of \<^verbatim>\<open>csapp.c\<close>: \<open>rio_readn\<close>, \<open>rio_writen\<close>, and the buffered
  \<open>rio_read\<close>, \<open>rio_readinitb\<close>, \<open>rio_readnb\<close>, \<open>rio_readlineb\<close>.  A function that fills the
  caller's buffer returns, beside the C return value, the bytes it stored there.  The locale
  \<open>byte_source\<close> is the contract the loops of \<open>rio_readn\<close> and \<open>rio_readnb\<close> rely on: what one
  read hands out, followed by what the reader still holds, is what it held before followed
  by what the kernel delivered.
\<close>

section \<open>Unbuffered reads and writes\<close>

text \<open>
  The loop that \<open>rio_readn\<close> and \<open>rio_readnb\<close> share, over the read they call; the state is
  \<open>nleft\<close>, the bytes stored so far, and the state of the reader.
\<close>

definition robust_round ::
  "('s \<Rightarrow> nat \<Rightarrow> (int \<times> bytes \<times> 's) io) \<Rightarrow> nat \<Rightarrow> nat \<times> bytes \<times> 's
    \<Rightarrow> ((nat \<times> bytes \<times> 's) + (int \<times> bytes \<times> 's)) io" where
  "robust_round rd n = (\<lambda>(nleft, got, s).
     if nleft > 0 then
       bnd (rd s nleft) (\<lambda>(nread, d, s').
         if nread < 0 then
           bnd get_errno (\<lambda>e. if e = EINTR then go (nleft, got, s') else leave (-1, got, s'))
         else if nread = 0 then leave (int (n - nleft), got, s')
         else go (nleft - nat nread, got @ d, s'))
     else leave (int (n - nleft), got, s))"

definition robust_read ::
  "('s \<Rightarrow> nat \<Rightarrow> (int \<times> bytes \<times> 's) io) \<Rightarrow> 's \<Rightarrow> nat \<Rightarrow> (int \<times> bytes \<times> 's) io" where
  "robust_read rd s n = repeat_var (\<lambda>(nleft, _, _). nleft) (robust_round rd n) (n, [], s)"

definition raw_read :: "int \<Rightarrow> unit \<Rightarrow> nat \<Rightarrow> (int \<times> bytes \<times> unit) io" where
  "raw_read fd u n = bnd (c_read fd n) (\<lambda>(c, d). ret (c, d, u))"

definition rio_readn :: "int \<Rightarrow> nat \<Rightarrow> (int \<times> bytes) io" where
  "rio_readn fd n = bnd (robust_read (raw_read fd) () n) (\<lambda>(c, d, _). ret (c, d))"

definition writen_round :: "int \<Rightarrow> bytes \<Rightarrow> nat \<times> bytes \<Rightarrow> ((nat \<times> bytes) + int) io" where
  "writen_round fd usrbuf = (\<lambda>(nleft, bufp).
     if nleft > 0 then
       bnd (c_write fd bufp (int nleft)) (\<lambda>nwritten.
         if nwritten \<le> 0 then
           bnd get_errno (\<lambda>e. if e = EINTR then go (nleft, bufp) else leave (-1))
         else go (nleft - nat nwritten, drop (nat nwritten) bufp))
     else leave (int (length usrbuf)))"

definition rio_writen :: "int \<Rightarrow> bytes \<Rightarrow> int io" where
  "rio_writen fd usrbuf = repeat_io (writen_round fd usrbuf) (length usrbuf, usrbuf)"

section \<open>Buffered reads\<close>

definition RIO_BUFSIZE :: nat where "RIO_BUFSIZE = 8192"

text \<open>
  \<open>rio_t\<close>: \<open>rio_bufptr\<close> is the offset into \<open>rio_buf\<close> of the next unread byte, and \<open>rio_buf\<close> lists
  the part of the array that has been filled so far (at most \<open>RIO_BUFSIZE\<close> bytes).
\<close>

record rio =
  rio_fd :: int
  rio_cnt :: int
  rio_bufptr :: nat
  rio_buf :: bytes

definition rio_readinitb :: "rio \<Rightarrow> int \<Rightarrow> rio" where
  "rio_readinitb rp fd = rp\<lparr>rio_fd := fd, rio_cnt := 0, rio_bufptr := 0\<rparr>"

text \<open>The refill loop; the value it is left with says whether \<open>rio_read\<close> goes on or returns.\<close>

definition refill_round :: "rio \<Rightarrow> (rio + (int option \<times> rio)) io" where
  "refill_round rp =
     (if rio_cnt rp \<le> 0 then
        bnd (c_read (rio_fd rp) RIO_BUFSIZE) (\<lambda>(c, d).
          let rp' = rp\<lparr>rio_cnt := c, rio_buf := d @ drop (length d) (rio_buf rp)\<rparr> in
          if c < 0 then
            bnd get_errno (\<lambda>e. if e \<noteq> EINTR then leave (Some (-1), rp') else go rp')
          else if c = 0 then leave (Some 0, rp')
          else go (rp'\<lparr>rio_bufptr := 0\<rparr>))
      else leave (None, rp))"

definition rio_read :: "rio \<Rightarrow> nat \<Rightarrow> (int \<times> bytes \<times> rio) io" where
  "rio_read rp n =
     bnd (repeat_io refill_round rp) (\<lambda>(stop, rp).
       case stop of
         Some rc \<Rightarrow> ret (rc, [], rp)
       | None \<Rightarrow>
           let cnt = (if rio_cnt rp < int n then rio_cnt rp else int n);
               d = take (nat cnt) (drop (rio_bufptr rp) (rio_buf rp))
           in ret (cnt, d, rp\<lparr>rio_bufptr := rio_bufptr rp + nat cnt, rio_cnt := rio_cnt rp - cnt\<rparr>))"

definition rio_readnb :: "rio \<Rightarrow> nat \<Rightarrow> (int \<times> bytes \<times> rio) io" where
  "rio_readnb rp n = robust_read rio_read rp n"

text \<open>
  \<open>rio_readlineb\<close>: the loop state is \<open>n\<close>, the bytes stored and the reader; the stored bytes
  get their terminating NUL when the loop is left.  The counter \<open>n\<close>, an \<open>int\<close>, is taken
  not to overflow: \<open>maxlen\<close> is assumed to be at most \<open>2 ^ 31\<close>.
\<close>

definition readline_round ::
  "nat \<Rightarrow> nat \<times> bytes \<times> rio \<Rightarrow> ((nat \<times> bytes \<times> rio) + (int \<times> bytes \<times> rio)) io" where
  "readline_round maxlen = (\<lambda>(n, got, rp).
     if n < maxlen then
       bnd (rio_read rp 1) (\<lambda>(rc, d, rp').
         if rc = 1 then
           (if d = [LF] then leave (int n, got @ d @ [NUL], rp')
            else go (n + 1, got @ d, rp'))
         else if rc = 0 then
           (if n = 1 then leave (0, got, rp') else leave (int n, got @ [NUL], rp'))
         else leave (-1, got, rp'))
     else leave (int n, got @ [NUL], rp))"

definition rio_readlineb :: "rio \<Rightarrow> nat \<Rightarrow> (int \<times> bytes \<times> rio) io" where
  "rio_readlineb rp maxlen =
     repeat_var (\<lambda>(n, _, _). maxlen - n) (readline_round maxlen) (1, [], rp)"

section \<open>The contract of a source of bytes\<close>

definition eof_seen :: "int \<Rightarrow> world \<Rightarrow> bool" where
  "eof_seen fd w \<longleftrightarrow> (\<exists>t n r. trace w = t @ [Sys (CRead fd n) r] \<and> rv r = 0)"

text \<open>
  \<open>source_post\<close> relates a reader before and after it handed out the bytes \<open>d\<close>, the bytes the
  kernel delivered meanwhile being those the trace gained.
\<close>

definition source_post ::
  "int \<Rightarrow> world \<Rightarrow> bytes \<Rightarrow> bytes \<Rightarrow> bytes \<Rightarrow> world \<Rightarrow> bool" where
  "source_post fd w held d held' w' \<longleftrightarrow>
     (\<exists>x. bytes_read fd (trace w') = bytes_read fd (trace w) @ x \<and> held @ x = d @ held')"

lemma source_post_refl: "source_post fd w h [] h w"
  by (simp add: source_post_def)

lemma source_post_trans:
  "source_post fd w h d h' w' \<Longrightarrow> source_post fd w' h' d' h'' w'' \<Longrightarrow>
   source_post fd w h (d @ d') h'' w''"
  unfolding source_post_def by (elim exE conjE, rule exI [of _ "_ @ _"]) (auto, metis append.assoc)

locale byte_source =
  fixes rd :: "'s \<Rightarrow> nat \<Rightarrow> (int \<times> bytes \<times> 's) io"
    and held :: "'s \<Rightarrow> bytes"
    and ok :: "'s \<Rightarrow> bool"
    and fd :: int
  assumes rd_law: "ok s \<Longrightarrow> 0 < n \<Longrightarrow>
    wp (rd s n) (\<lambda>(c, d, s') w'.
      ok s' \<and> source_post fd w (held s) d (held s') w' \<and>
      length (script w') \<le> length (script w) \<and>
      ((c = -1 \<and> d = [] \<and> length (script w') < length (script w)) \<or>
       (c = int (length d) \<and> length d \<le> n \<and> (d = [] \<longrightarrow> held s' = [] \<and> eof_seen fd w'))))
    only_blocks w"
begin

lemma robust_round_law:
  assumes "ok s" "nleft \<le> n" "source_post fd w0 (held s0) got (held s) w" "length got + nleft = n"
  shows "wp (robust_round rd n (nleft, got, s))
     (\<lambda>x w'. case x of
        Inr (c, d, s') \<Rightarrow>
          ok s' \<and> source_post fd w0 (held s0) d (held s') w' \<and> length d \<le> n \<and>
          (c = -1 \<or> (c = int (length d) \<and> (length d < n \<longrightarrow> held s' = [] \<and> eof_seen fd w')))
      | Inl (nleft', got', s') \<Rightarrow>
          (ok s' \<and> nleft' \<le> n \<and> source_post fd w0 (held s0) got' (held s') w' \<and>
           length got' + nleft' = n) \<and>
          progress (\<lambda>(nleft, _, _). nleft) (nleft, got, s) w (nleft', got', s') w')
     only_blocks w"
proof (cases "nleft = 0")
  case True
  with assms show ?thesis by (auto simp: robust_round_def wp_simps)
next
  case False
  with rd_law [OF assms(1), of nleft w] show ?thesis
    unfolding robust_round_def
    using assms(2,4) source_post_trans [OF assms(3)]
    by (simp add: wp_simps) (erule wp_conseq, fastforce simp: wp_simps progress_def split: if_splits)
qed

lemma robust_read_law:
  assumes "ok s"
  shows "wp (robust_read rd s n)
     (\<lambda>(c, d, s') w'.
        ok s' \<and> source_post fd w (held s) d (held s') w' \<and> length d \<le> n \<and>
        (c = -1 \<or> (c = int (length d) \<and> (length d < n \<longrightarrow> held s' = [] \<and> eof_seen fd w'))))
     only_blocks w"
  unfolding robust_read_def
proof (rule wp_repeat_var [where I = "\<lambda>(nleft, got, s') w'. ok s' \<and> nleft \<le> n \<and>
      source_post fd w (held s) got (held s') w' \<and> length got + nleft = n"], goal_cases)
  case (1 st w')
  then show ?case
    by (cases st) (auto intro!: wp_conseq [OF robust_round_law] split: sum.splits)
next
  case 2
  then show ?case by (simp add: assms source_post_refl)
qed

end

section \<open>The sources of the package\<close>

text \<open>\<open>read\<close> itself holds nothing back.\<close>

lemma raw_read_law:
  assumes "0 < n"
  shows "wp (raw_read fd u n) (\<lambda>(c, d, s') w'.
      True \<and> source_post fd w [] d [] w' \<and> length (script w') \<le> length (script w) \<and>
      ((c = -1 \<and> d = [] \<and> length (script w') < length (script w)) \<or>
       (c = int (length d) \<and> length d \<le> n \<and> (d = [] \<longrightarrow> [] = [] \<and> eof_seen fd w'))))
    only_blocks w"
  unfolding raw_read_def wp_simps
  by (rule wp_callI) (auto simp: source_post_def eof_seen_def wp_simps)

interpretation raw: byte_source "raw_read fd" "\<lambda>_. []" "\<lambda>_. True" fd for fd
  by (unfold_locales, rule raw_read_law)

text \<open>\<open>rio_read\<close> holds the unread part of its buffer.\<close>

definition unread :: "rio \<Rightarrow> bytes" where
  "unread rp = take (nat (rio_cnt rp)) (drop (rio_bufptr rp) (rio_buf rp))"

definition rio_ok :: "int \<Rightarrow> rio \<Rightarrow> bool" where
  "rio_ok fd rp \<longleftrightarrow> rio_fd rp = fd \<and> length (rio_buf rp) \<le> RIO_BUFSIZE \<and> -1 \<le> rio_cnt rp \<and>
     rio_bufptr rp + nat (rio_cnt rp) \<le> length (rio_buf rp)"

lemma length_unread: "rio_ok fd rp \<Longrightarrow> length (unread rp) = nat (rio_cnt rp)"
  by (auto simp: unread_def rio_ok_def)

lemma unread_readinitb: "unread (rio_readinitb rp fd) = []"
  by (simp add: unread_def rio_readinitb_def)

lemma rio_ok_readinitb: "length (rio_buf rp) \<le> RIO_BUFSIZE \<Longrightarrow> rio_ok fd (rio_readinitb rp fd)"
  by (simp add: rio_ok_def rio_readinitb_def)

text \<open>What the refill loop establishes.\<close>

definition refilled :: "int \<Rightarrow> world \<Rightarrow> bytes \<Rightarrow> int option \<times> rio \<Rightarrow> world \<Rightarrow> bool" where
  "refilled fd w h res w' = (case res of (stop, rp) \<Rightarrow>
     rio_ok fd rp \<and> source_post fd w h [] (unread rp) w' \<and>
     length (script w') \<le> length (script w) \<and>
     (case stop of
        None \<Rightarrow> 0 < rio_cnt rp
      | Some rc \<Rightarrow> unread rp = [] \<and> length (script w') < length (script w) \<and>
          (rc = -1 \<or> (rc = 0 \<and> eof_seen fd w'))))"

lemma refill_round_law:
  assumes "rio_ok fd rp" "source_post fd w0 h [] (unread rp) w"
    "length (script w) \<le> length (script w0)"
  shows "wp (refill_round rp)
     (\<lambda>x w'. case x of
        Inr res \<Rightarrow> refilled fd w0 h res w'
      | Inl rp' \<Rightarrow> (rio_ok fd rp' \<and> source_post fd w0 h [] (unread rp') w' \<and>
          length (script w') \<le> length (script w0)) \<and> length (script w') < length (script w))
     only_blocks w"
proof (cases "rio_cnt rp \<le> 0")
  case False
  with assms show ?thesis by (simp add: refill_round_def wp_simps refilled_def)
next
  case True
  then have "unread rp = []" by (simp add: unread_def)
  with True assms show ?thesis
    unfolding refill_round_def
    by (simp add: wp_simps Let_def, intro wp_callI)
      (auto simp: wp_simps refilled_def rio_ok_def unread_def source_post_def eof_seen_def
        RIO_BUFSIZE_def)
qed

lemma hand_out:
  assumes "rio_ok fd rp" "0 \<le> cnt" "cnt \<le> rio_cnt rp"
    and rp': "rp' = rp\<lparr>rio_bufptr := rio_bufptr rp + nat cnt, rio_cnt := rio_cnt rp - cnt\<rparr>"
  shows "rio_ok fd rp'"
    and "unread rp = take (nat cnt) (drop (rio_bufptr rp) (rio_buf rp)) @ unread rp'"
    and "length (take (nat cnt) (drop (rio_bufptr rp) (rio_buf rp))) = nat cnt"
  using assms take_drop_split [of "nat cnt" "nat (rio_cnt rp)" "rio_bufptr rp" "rio_buf rp"]
  by (auto simp: rio_ok_def unread_def nat_diff_distrib)

lemma rio_read_law:
  assumes "rio_ok fd rp" "0 < n"
  shows "wp (rio_read rp n) (\<lambda>(c, d, rp') w'.
      rio_ok fd rp' \<and> source_post fd w (unread rp) d (unread rp') w' \<and>
      length (script w') \<le> length (script w) \<and>
      ((c = -1 \<and> d = [] \<and> length (script w') < length (script w)) \<or>
       (c = int (length d) \<and> length d \<le> n \<and> (d = [] \<longrightarrow> unread rp' = [] \<and> eof_seen fd w'))))
    only_blocks w"
proof -
  have fill: "wp (repeat_io refill_round rp) (refilled fd w (unread rp)) only_blocks w"
  proof (rule wp_repeat [where I = "\<lambda>rp' w'. rio_ok fd rp' \<and>
        source_post fd w (unread rp) [] (unread rp') w' \<and> length (script w') \<le> length (script w)"])
    show "wp (refill_round rp') (\<lambda>x w''. case x of
        Inl rp'' \<Rightarrow> (rio_ok fd rp'' \<and> source_post fd w (unread rp) [] (unread rp'') w'' \<and>
          length (script w'') \<le> length (script w)) \<and> length (script w'') < length (script w')
      | Inr res \<Rightarrow> refilled fd w (unread rp) res w'') only_blocks w'"
      if "rio_ok fd rp' \<and> source_post fd w (unread rp) [] (unread rp') w' \<and>
          length (script w') \<le> length (script w)" for rp' w'
      using that by (auto intro: wp_conseq [OF refill_round_law] split: sum.splits)
  qed (simp add: assms source_post_refl)
  show ?thesis
    unfolding rio_read_def wp_simps
  proof (rule wp_conseq [OF fill])
    fix res w'
    assume r: "refilled fd w (unread rp) res w'"
    obtain stop rp1 where res: "res = (stop, rp1)" by (cases res)
    show "wp (case res of (stop, rp) \<Rightarrow> case stop of
         None \<Rightarrow> let cnt = if rio_cnt rp < int n then rio_cnt rp else int n;
               d = take (nat cnt) (drop (rio_bufptr rp) (rio_buf rp))
           in ret (cnt, d, rp\<lparr>rio_bufptr := rio_bufptr rp + nat cnt, rio_cnt := rio_cnt rp - cnt\<rparr>)
       | Some rc \<Rightarrow> ret (rc, [], rp)) (\<lambda>(c, d, rp') w'.
      rio_ok fd rp' \<and> source_post fd w (unread rp) d (unread rp') w' \<and>
      length (script w') \<le> length (script w) \<and>
      ((c = -1 \<and> d = [] \<and> length (script w') < length (script w)) \<or>
       (c = int (length d) \<and> length d \<le> n \<and> (d = [] \<longrightarrow> unread rp' = [] \<and> eof_seen fd w'))))
    only_blocks w'"
    proof (cases stop)
      case (Some rc)
      with r show ?thesis by (auto simp: res refilled_def wp_simps)
    next
      case None
      define cnt where "cnt = (if rio_cnt rp1 < int n then rio_cnt rp1 else int n)"
      from None r have ok: "rio_ok fd rp1" "0 < rio_cnt rp1"
        and post: "source_post fd w (unread rp) [] (unread rp1) w'"
        and len: "length (script w') \<le> length (script w)"
        by (auto simp: res refilled_def)
      from ok \<open>0 < n\<close> have "0 < cnt" "cnt \<le> rio_cnt rp1" "cnt \<le> int n"
        by (auto simp: cnt_def)
      with hand_out [OF ok(1) _ _ refl, of cnt] post len show ?thesis
        unfolding res None by (auto simp: wp_simps Let_def source_post_def simp flip: cnt_def)
    qed
  qed
qed

interpretation buffered: byte_source rio_read unread "rio_ok fd" fd for fd
  by (unfold_locales, rule rio_read_law)

section \<open>Laws of the loops\<close>

lemma rio_readn_law:
  "wp (rio_readn fd n) (\<lambda>(c, d) w'.
      bytes_read fd (trace w') = bytes_read fd (trace w) @ d \<and> length d \<le> n \<and>
      (c = -1 \<or> (c = int (length d) \<and> (length d < n \<longrightarrow> eof_seen fd w'))))
    only_blocks w"
  unfolding rio_readn_def wp_simps
  by (rule wp_conseq [OF raw.robust_read_law]) (auto simp: source_post_def wp_simps)

lemma rio_readnb_law:
  "rio_ok fd rp \<Longrightarrow> wp (rio_readnb rp n) (\<lambda>(c, d, rp') w'.
      rio_ok fd rp' \<and> source_post fd w (unread rp) d (unread rp') w' \<and> length d \<le> n \<and>
      (c = -1 \<or> (c = int (length d) \<and> (length d < n \<longrightarrow> unread rp' = [] \<and> eof_seen fd w'))))
    only_blocks w"
  unfolding rio_readnb_def by (rule buffered.robust_read_law)

text \<open>
  What a call of \<open>rio_readlineb\<close> with return value \<open>c\<close> has stored in \<open>buf\<close>, \<open>line\<close> being the
  bytes it took from the stream.
\<close>

definition line_post :: "int \<Rightarrow> nat \<Rightarrow> int \<Rightarrow> bytes \<Rightarrow> bytes \<Rightarrow> world \<Rightarrow> bool" where
  "line_post fd maxlen c line buf w' \<longleftrightarrow>
     length line < maxlen \<and> LF \<notin> set (butlast line) \<and>
     (if c = -1 then buf = line
      else if c = 0 then line = [] \<and> buf = [] \<and> eof_seen fd w'
      else buf = line @ [NUL] \<and>
        (if line \<noteq> [] \<and> last line = LF then c = int (length line)
         else c = int (length line) + 1 \<and> (length line + 1 = maxlen \<or> eof_seen fd w')))"

lemma readline_round_law:
  assumes "rio_ok fd rp" "n = length got + 1" "length got < maxlen" "LF \<notin> set got"
    and "source_post fd w0 h got (unread rp) w"
  shows "wp (readline_round maxlen (n, got, rp))
     (\<lambda>x w'. case x of
        Inr (c, buf, rp') \<Rightarrow> \<exists>line. rio_ok fd rp' \<and> source_post fd w0 h line (unread rp') w' \<and>
          line_post fd maxlen c line buf w'
      | Inl (n', got', rp') \<Rightarrow>
          (rio_ok fd rp' \<and> n' = length got' + 1 \<and> length got' < maxlen \<and> LF \<notin> set got' \<and>
           source_post fd w0 h got' (unread rp') w') \<and>
          progress (\<lambda>(n, _, _). maxlen - n) (n, got, rp) w (n', got', rp') w')
     only_blocks w"
proof (cases "n < maxlen")
  case False
  with assms show ?thesis
    by (auto simp: readline_round_def wp_simps line_post_def dest: in_set_butlastD last_in_set)
next
  case True
  note ext = source_post_trans [OF assms(5)]
  have LF_butlast: "LF \<notin> set (butlast (got @ [c]))" "LF \<notin> set (butlast got)" for c
    using assms(4) by (auto dest: in_set_butlastD)
  have LF_got: "\<not> (got \<noteq> [] \<and> last got = LF)" using assms(4) last_in_set by fastforce
  show ?thesis
    using True assms LF_butlast LF_got
    unfolding readline_round_def
    apply (simp add: wp_simps)
    apply (rule wp_conseq [OF rio_read_law [OF assms(1), of "Suc 0"]])
      apply simp
     apply (clarsimp simp: le_Suc_eq length_Suc_conv)
     apply (elim disjE exE; auto simp: wp_simps progress_def line_post_def dest!: ext)
    apply assumption
    done
qed

lemma rio_readlineb_law:
  assumes "rio_ok fd rp" "0 < maxlen"
  shows "wp (rio_readlineb rp maxlen) (\<lambda>(c, buf, rp') w'.
      \<exists>line. rio_ok fd rp' \<and> source_post fd w (unread rp) line (unread rp') w' \<and>
        line_post fd maxlen c line buf w') only_blocks w"
  unfolding rio_readlineb_def
proof (rule wp_repeat_var [where I = "\<lambda>(n, got, rp') w'. rio_ok fd rp' \<and> n = length got + 1 \<and>
      length got < maxlen \<and> LF \<notin> set got \<and> source_post fd w (unread rp) got (unread rp') w'"],
    goal_cases)
  case (1 st w')
  then show ?case
    by (cases st) (auto intro!: wp_conseq [OF readline_round_law] split: sum.splits)
next
  case 2
  then show ?case by (simp add: assms source_post_refl)
qed

lemma writen_round_law:
  assumes "nleft = length bufp" "sent @ bufp = usrbuf"
    "bytes_written fd (trace w) = bytes_written fd (trace w0) @ sent"
  shows "wp (writen_round fd usrbuf (nleft, bufp))
     (\<lambda>x w'. case x of
        Inr c \<Rightarrow> (\<exists>sent rest. sent @ rest = usrbuf \<and>
          bytes_written fd (trace w') = bytes_written fd (trace w0) @ sent \<and>
          (c = -1 \<or> (c = int (length usrbuf) \<and> rest = [])))
      | Inl (nleft', bufp') \<Rightarrow>
          (nleft' = length bufp' \<and> (\<exists>sent. sent @ bufp' = usrbuf \<and>
           bytes_written fd (trace w') = bytes_written fd (trace w0) @ sent)) \<and>
          length (script w') < length (script w))
     only_blocks w"
proof (cases "nleft > 0")
  case False
  with assms show ?thesis by (auto simp: writen_round_def wp_simps)
next
  case True
  with assms show ?thesis
    unfolding writen_round_def
    by (simp add: wp_simps, intro wp_callI) (auto simp: wp_simps)
qed

lemma rio_writen_law:
  "wp (rio_writen fd usrbuf) (\<lambda>c w'. \<exists>sent rest. sent @ rest = usrbuf \<and>
      bytes_written fd (trace w') = bytes_written fd (trace w) @ sent \<and>
      (c = -1 \<or> (c = int (length usrbuf) \<and> rest = []))) only_blocks w"
  unfolding rio_writen_def
proof (rule wp_repeat [where I = "\<lambda>(nleft, bufp) w'. nleft = length bufp \<and>
      (\<exists>sent. sent @ bufp = usrbuf \<and>
        bytes_written fd (trace w') = bytes_written fd (trace w) @ sent)"], goal_cases)
  case (1 st w')
  then obtain nleft bufp sent where st: "st = (nleft, bufp)" and H: "nleft = length bufp"
    "sent @ bufp = usrbuf" "bytes_written fd (trace w') = bytes_written fd (trace w) @ sent"
    by (cases st) auto
  show ?case
    unfolding st by (rule wp_conseq [OF writen_round_law [OF H]]) (auto split: sum.splits)
next
  case 2
  then show ?case by simp
qed

section \<open>Properties\<close>

text \<open>
  C7. \<open>rio_readn\<close> stores exactly the bytes the kernel delivered on the descriptor during the
  call, in order and at most \<open>n\<close>; a return value other than -1 is their number, and it is less
  than \<open>n\<close> only after \<open>read\<close> reported end of file.  Short reads and reads interrupted by a
  signal never lose or repeat a byte, and the call always returns, unless it waits in \<open>read\<close>.
\<close>

theorem rio_readn_complete:
  "case rio_readn fd n w of
     Ret (c, d) w' \<Rightarrow>
       bytes_read fd (trace w') = bytes_read fd (trace w) @ d \<and> length d \<le> n \<and>
       (c = -1 \<or> (c = int (length d) \<and> (length d < n \<longrightarrow> eof_seen fd w')))
   | Stop s w' \<Rightarrow> (\<exists>k. s = Blocked k)"
  using rio_readn_law [of fd n w]
  by (auto simp: wp_def only_blocks_def split: result.splits)

theorem rio_readn_complete_witness:
  "\<exists>w'. rio_readn 7 5 (world0 [got_bytes ''ab'', failed EINTR, got_bytes ''c'', got_bytes []])
        = Ret (3, ''abc'') w' \<and> bytes_read 7 (trace w') = ''abc'' \<and> eof_seen 7 w'"
proof -
  let ?w = "world0 [got_bytes ''ab'', failed EINTR, got_bytes ''c'', got_bytes []]"
  have "returns (rio_readn 7 5 ?w) (3, ''abc'')" by code_simp
  note run = returnsD [OF this]
  from rio_readn_complete [where fd = 7 and n = 5 and w = ?w] run show ?thesis
    by (auto simp: world0_def split: result.splits)
qed

text \<open>
  C5. \<open>rio_readnb\<close> keeps the stream in order: the bytes that were buffered, followed by the
  bytes the kernel delivered during the call, are the bytes stored followed by the bytes still
  buffered.  The buffer stays well formed, at most \<open>n\<close> bytes are stored, and a short count
  means end of file with nothing left in the buffer.
\<close>

theorem rio_readnb_stream:
  assumes "rio_ok fd rp"
  shows "case rio_readnb rp n w of
     Ret (c, d, rp') w' \<Rightarrow>
       rio_ok fd rp' \<and>
       (\<exists>x. bytes_read fd (trace w') = bytes_read fd (trace w) @ x \<and> unread rp @ x = d @ unread rp') \<and>
       length d \<le> n \<and>
       (c = -1 \<or> (c = int (length d) \<and> (length d < n \<longrightarrow> unread rp' = [] \<and> eof_seen fd w')))
   | Stop s w' \<Rightarrow> (\<exists>k. s = Blocked k)"
  using rio_readnb_law [OF assms, of n w]
  by (auto simp: wp_def only_blocks_def source_post_def split: result.splits)

text \<open>A \<open>rio_t\<close> on the stack, just initialised.\<close>

definition fresh_rio :: "int \<Rightarrow> rio" where
  "fresh_rio fd = rio_readinitb \<lparr>rio_fd = 0, rio_cnt = 0, rio_bufptr = 0, rio_buf = []\<rparr> fd"

lemma rio_ok_fresh: "rio_ok fd (fresh_rio fd)"
  by (simp add: rio_ok_def fresh_rio_def rio_readinitb_def)

lemma unread_fresh [simp]: "unread (fresh_rio fd) = []"
  by (simp add: fresh_rio_def unread_readinitb)

lemmas [eval_simps] =
  robust_round_def robust_read_def raw_read_def rio_readn_def writen_round_def rio_writen_def
  RIO_BUFSIZE_def rio_readinitb_def refill_round_def rio_read_def rio_readnb_def
  readline_round_def rio_readlineb_def fresh_rio_def

theorem rio_readnb_stream_witness:
  "\<exists>w' rp'. rio_readnb (fresh_rio 4) 3 (world0 [got_bytes ''abcde'']) = Ret (3, ''abc'', rp') w' \<and>
     unread rp' = ''de''"
proof -
  let ?w = "world0 [got_bytes ''abcde'']"
  have "(case rio_readnb (fresh_rio 4) 3 ?w of Ret (c, d, rp') w' \<Rightarrow>
           c = 3 \<and> d = ''abc'' \<and> bytes_read 4 (trace w') = ''abcde''
         | Stop _ _ \<Rightarrow> False)"
    by (simp add: eval_simps)
  then obtain rp' w' where run: "rio_readnb (fresh_rio 4) 3 ?w = Ret (3, ''abc'', rp') w'"
    and t: "bytes_read 4 (trace w') = ''abcde''"
    by (auto split: result.splits prod.splits)
  from rio_readnb_stream [OF rio_ok_fresh, where n = 3 and w = ?w and fd = 4] run t
  have "''abcde'' = ''abc'' @ unread rp'" by (simp add: world0_def)
  with run show ?thesis by simp
qed

text \<open>
  C6. \<open>rio_readlineb\<close> takes from the stream a line that stops at the first newline, at end of
  file, or after \<open>maxlen - 1\<close> bytes, and stores it with a terminating NUL.  The return value is
  the length of the line when the line ends in a newline; when the line was cut short by the
  end of file or by \<open>maxlen\<close> the return value is one more than the bytes read.
\<close>

theorem rio_readlineb_line:
  assumes "rio_ok fd rp" "0 < maxlen"
  shows "case rio_readlineb rp maxlen w of
     Ret (c, buf, rp') w' \<Rightarrow>
       rio_ok fd rp' \<and>
       (\<exists>line x. bytes_read fd (trace w') = bytes_read fd (trace w) @ x \<and>
          unread rp @ x = line @ unread rp' \<and>
          length line < maxlen \<and> LF \<notin> set (butlast line) \<and>
          (if c = -1 then buf = line
           else if c = 0 then line = [] \<and> buf = [] \<and> eof_seen fd w'
           else buf = line @ [NUL] \<and>
             (if line \<noteq> [] \<and> last line = LF then c = int (length line)
              else c = int (length line) + 1 \<and> (length line + 1 = maxlen \<or> eof_seen fd w'))))
   | Stop s w' \<Rightarrow> (\<exists>k. s = Blocked k)"
  using rio_readlineb_law [OF assms, of w]
  unfolding wp_def only_blocks_def source_post_def line_post_def
  by (fastforce split: result.splits)

theorem rio_readlineb_line_witness:
  "\<exists>w' rp'. rio_readlineb (fresh_rio 4) 80 (world0 [got_bytes ''ab'', got_bytes []])
     = Ret (3, ''ab'' @ [NUL], rp') w' \<and> unread rp' = []"
proof -
  let ?w = "world0 [got_bytes ''ab'', got_bytes []]"
  have "(case rio_readlineb (fresh_rio 4) 80 ?w of Ret (c, d, rp') w' \<Rightarrow>
           c = 3 \<and> d = ''ab'' @ [NUL] \<and> bytes_read 4 (trace w') = ''ab''
         | Stop _ _ \<Rightarrow> False)"
    by (simp add: eval_simps)
  then obtain rp' w' where run: "rio_readlineb (fresh_rio 4) 80 ?w = Ret (3, ''ab'' @ [NUL], rp') w'"
    and t: "bytes_read 4 (trace w') = ''ab''"
    by (auto split: result.splits prod.splits)
  from rio_readlineb_line [OF rio_ok_fresh, where maxlen = 80 and w = ?w and fd = 4] run t
  have "''ab'' = ''ab'' @ unread rp'" by (simp add: world0_def)
  with run show ?thesis by simp
qed

text \<open>
  C8. \<open>rio_writen\<close> writes the buffer in order, whatever part of it each \<open>write\<close> accepts and
  however often it is interrupted: the bytes accepted by the kernel are a prefix of the
  buffer, and the whole buffer when the return value is not -1 (and then it is its length).
\<close>

theorem rio_writen_all:
  "case rio_writen fd buf w of
     Ret c w' \<Rightarrow> (\<exists>sent rest. sent @ rest = buf \<and>
        bytes_written fd (trace w') = bytes_written fd (trace w) @ sent \<and>
        (c = -1 \<or> (c = int (length buf) \<and> rest = [])))
   | Stop s w' \<Rightarrow> (\<exists>k. s = Blocked k)"
  using rio_writen_law [of fd buf w]
  by (auto simp: wp_def only_blocks_def split: result.splits)

end
