(* ===== verification/Csapp.thy ===== *)
theory Csapp
  imports Rio
begin

text \<open>
  The rest of \<^verbatim>\<open>csapp.c\<close>: the error reporting functions, the error-handling wrappers of the
  system calls and of the library, and the client/server helpers \<open>open_clientfd\<close> and
  \<open>open_listenfd\<close>.  A wrapper makes the call it is named after and ends the process through
  \<open>unix_error\<close> (\<open>posix_error\<close>, \<open>dns_error\<close>, \<open>app_error\<close>) when the call reports an error.
  A pointer result is an integer, 0 for a null pointer; arguments the wrapper only passes on
  (signal numbers, flags, addresses) are integers too.
\<close>

section \<open>Error-handling functions\<close>

definition unix_error :: "string \<Rightarrow> 'a io" where
  "unix_error msg = bnd get_errno (\<lambda>e. thn (act (APerror msg e)) (c_exit 0))"

definition posix_error :: "int \<Rightarrow> string \<Rightarrow> 'a io" where
  "posix_error code msg = thn (act (APerror msg code)) (c_exit 0)"

text \<open>\<open>h_errno\<close> is the error code of the failed lookup.\<close>

definition dns_error :: "int \<Rightarrow> string \<Rightarrow> 'a io" where
  "dns_error h_errno msg = thn (c_eprint (msg @ '': DNS error '' @ show_int h_errno @ [LF])) (c_exit 0)"

definition app_error :: "string \<Rightarrow> 'a io" where
  "app_error msg = thn (c_eprint (msg @ [LF])) (c_exit 0)"

text \<open>
  The tests the wrappers make: a negative result, a null pointer, the pointer -1, a non-zero
  error code.
\<close>

definition checked :: "call \<Rightarrow> string \<Rightarrow> int io" where
  "checked c msg = bnd (sysi c) (\<lambda>rc. if rc < 0 then unix_error msg else ret rc)"

definition checked_ptr :: "call \<Rightarrow> string \<Rightarrow> int io" where
  "checked_ptr c msg = bnd (sysi c) (\<lambda>p. if p = 0 then unix_error msg else ret p)"

definition checked_pthread :: "call \<Rightarrow> string \<Rightarrow> unit io" where
  "checked_pthread c msg = bnd (sysi c) (\<lambda>rc. if rc \<noteq> 0 then posix_error rc msg else ret ())"

definition void :: "int io \<Rightarrow> unit io" where
  "void m = bnd m (\<lambda>_. ret ())"

section \<open>Process control\<close>

definition Fork :: "int io" where
  "Fork = checked CFork ''Fork error''"

definition Execve :: "string \<Rightarrow> unit io" where
  "Execve filename = void (checked (CSys (''execve '' @ filename) []) ''Execve error'')"

definition Wait :: "int io" where
  "Wait = checked (CSys ''wait'' []) ''Wait error''"

definition Waitpid :: "int \<Rightarrow> int \<Rightarrow> int io" where
  "Waitpid pid options = checked (CWaitpid pid options) ''Waitpid error''"

definition Kill :: "int \<Rightarrow> int \<Rightarrow> unit io" where
  "Kill a b = void (checked (CSys ''kill'' [a, b]) ''Kill error'')"

definition Pause :: "unit io" where
  "Pause = void (sysi (CSys ''pause'' []))"

text \<open>The result of \<open>sleep\<close> is kept in an unsigned variable, so the test for an error never succeeds.\<close>

definition Sleep :: "int \<Rightarrow> int io" where
  "Sleep secs = bnd (sysi (CSys ''sleep'' [secs])) (\<lambda>rv.
     let rc = rv mod 2 ^ 32 in if rc < 0 then unix_error ''Sleep error'' else ret rc)"

definition Alarm :: "int \<Rightarrow> int io" where
  "Alarm seconds = sysi (CSys ''alarm'' [seconds])"

definition Setpgid :: "int \<Rightarrow> int \<Rightarrow> unit io" where
  "Setpgid a b = void (checked (CSys ''setpgid'' [a, b]) ''Setpgid error'')"

definition Getpgrp :: "int io" where
  "Getpgrp = sysi (CSys ''getpgrp'' [])"

section \<open>Signals\<close>

text \<open>\<open>SA_RESTART\<close> is set, and the reply of \<open>sigaction\<close> carries the old handler in its data.\<close>

definition SA_RESTART :: int where "SA_RESTART = 0x10000000"

definition Signal :: "int \<Rightarrow> int \<Rightarrow> bytes io" where
  "Signal signum handler = bnd (call (CSys ''sigaction'' [signum, handler, SA_RESTART])) (\<lambda>r.
     if rv r < 0 then unix_error ''Signal error'' else ret (dat r))"

definition Sigprocmask :: "int \<Rightarrow> int \<Rightarrow> int \<Rightarrow> unit io" where
  "Sigprocmask a b c = void (checked (CSys ''sigprocmask'' [a, b, c]) ''Sigprocmask error'')"

definition Sigemptyset :: "int \<Rightarrow> unit io" where
  "Sigemptyset a = void (checked (CSys ''sigemptyset'' [a]) ''Sigemptyset error'')"

definition Sigfillset :: "int \<Rightarrow> unit io" where
  "Sigfillset a = void (checked (CSys ''sigfillset'' [a]) ''Sigfillset error'')"

definition Sigaddset :: "int \<Rightarrow> int \<Rightarrow> unit io" where
  "Sigaddset a b = void (checked (CSys ''sigaddset'' [a, b]) ''Sigaddset error'')"

definition Sigdelset :: "int \<Rightarrow> int \<Rightarrow> unit io" where
  "Sigdelset a b = void (checked (CSys ''sigdelset'' [a, b]) ''Sigdelset error'')"

definition Sigismember :: "int \<Rightarrow> int \<Rightarrow> int io" where
  "Sigismember a b = checked (CSys ''sigismember'' [a, b]) ''Sigismember error''"

section \<open>Unix I/O\<close>

definition Open :: "string \<Rightarrow> int \<Rightarrow> int io" where
  "Open pathname flags = checked (COpen pathname flags) ''Open error''"

definition Read :: "int \<Rightarrow> nat \<Rightarrow> (int \<times> bytes) io" where
  "Read fd n = bnd (c_read fd n) (\<lambda>(rc, d).
     if rc < 0 then unix_error ''Read error'' else ret (rc, d))"

definition Write :: "int \<Rightarrow> bytes \<Rightarrow> int \<Rightarrow> int io" where
  "Write fd buf n = bnd (c_write fd buf n) (\<lambda>rc.
     if rc < 0 then unix_error ''Write error'' else ret rc)"

definition Lseek :: "int \<Rightarrow> int \<Rightarrow> int \<Rightarrow> int io" where
  "Lseek a b c = checked (CSys ''lseek'' [a, b, c]) ''Lseek error''"

definition Close :: "int \<Rightarrow> unit io" where
  "Close a = void (checked (CSys ''close'' [a]) ''Close error'')"

definition Select :: "int \<Rightarrow> int \<Rightarrow> int \<Rightarrow> int \<Rightarrow> int \<Rightarrow> int io" where
  "Select a b c d e = checked (CSys ''select'' [a, b, c, d, e]) ''Select error''"

definition Dup2 :: "int \<Rightarrow> int \<Rightarrow> int io" where
  "Dup2 a b = checked (CSys ''dup2'' [a, b]) ''Dup2 error''"

definition Stat :: "string \<Rightarrow> unit io" where
  "Stat filename = void (checked (CSys (''stat '' @ filename) []) ''Stat error'')"

definition Fstat :: "int \<Rightarrow> int \<Rightarrow> unit io" where
  "Fstat a b = void (checked (CSys ''fstat'' [a, b]) ''Fstat error'')"

section \<open>Memory mapping and dynamic storage\<close>

definition Mmap :: "int \<Rightarrow> int \<Rightarrow> int \<Rightarrow> int \<Rightarrow> int \<Rightarrow> int \<Rightarrow> int io" where
  "Mmap addr len prot flags fd offset = bnd (sysi (CSys ''mmap'' [addr, len, prot, flags, fd, offset])) (\<lambda>ptr.
     if ptr = -1 then unix_error ''mmap error'' else ret ptr)"

definition Munmap :: "int \<Rightarrow> int \<Rightarrow> unit io" where
  "Munmap a b = void (checked (CSys ''munmap'' [a, b]) ''munmap error'')"

definition Malloc :: "nat \<Rightarrow> int io" where
  "Malloc n = checked_ptr (CMalloc n) ''Malloc error''"

definition Realloc :: "int \<Rightarrow> int \<Rightarrow> int io" where
  "Realloc ptr n = checked_ptr (CSys ''realloc'' [ptr, n]) ''Realloc error''"

definition Calloc :: "int \<Rightarrow> int \<Rightarrow> int io" where
  "Calloc nmemb sz = checked_ptr (CSys ''calloc'' [nmemb, sz]) ''Calloc error''"

definition Free :: "int \<Rightarrow> unit io" where
  "Free ptr = act AFree"

section \<open>Standard I/O\<close>

definition Fclose :: "int \<Rightarrow> unit io" where
  "Fclose fp = bnd (sysi (CSys ''fclose'' [fp])) (\<lambda>rc.
     if rc \<noteq> 0 then unix_error ''Fclose error'' else ret ())"

definition Fdopen :: "int \<Rightarrow> string \<Rightarrow> int io" where
  "Fdopen fd type = checked_ptr (CSys (''fdopen '' @ type) [fd]) ''Fdopen error''"

text \<open>\<open>ferror\<close> is consulted only when the transfer came back short.\<close>

definition Fgets :: "int \<Rightarrow> int \<Rightarrow> (int \<times> bytes) io" where
  "Fgets n stream = bnd (call (CSys ''fgets'' [n, stream])) (\<lambda>r.
     if rv r = 0 then
       bnd (sysi (CSys ''ferror'' [stream])) (\<lambda>err.
         if err \<noteq> 0 then app_error ''Fgets error'' else ret (rv r, []))
     else ret (rv r, dat r))"

definition Fopen :: "string \<Rightarrow> string \<Rightarrow> int io" where
  "Fopen filename mode = checked_ptr (CFopen filename mode) ''Fopen error''"

definition Fputs :: "string \<Rightarrow> int \<Rightarrow> unit io" where
  "Fputs ptr stream = bnd (sysi (CSys (''fputs '' @ ptr) [stream])) (\<lambda>rc.
     if rc = -1 then unix_error ''Fputs error'' else ret ())"

definition Fread :: "int \<Rightarrow> int \<Rightarrow> int \<Rightarrow> (int \<times> bytes) io" where
  "Fread sz nmemb stream = bnd (call (CSys ''fread'' [sz, nmemb, stream])) (\<lambda>r.
     if rv r < nmemb then
       bnd (sysi (CSys ''ferror'' [stream])) (\<lambda>err.
         if err \<noteq> 0 then unix_error ''Fread error'' else ret (rv r, dat r))
     else ret (rv r, dat r))"

definition Fwrite :: "bytes \<Rightarrow> int \<Rightarrow> int \<Rightarrow> int \<Rightarrow> unit io" where
  "Fwrite ptr sz nmemb stream = bnd (sysi (CSys (''fwrite '' @ ptr) [sz, nmemb, stream])) (\<lambda>n.
     if n < nmemb then unix_error ''Fwrite error'' else ret ())"

section \<open>Sockets\<close>

definition Socket :: "int \<Rightarrow> int \<Rightarrow> int \<Rightarrow> int io" where
  "Socket domain type protocol = checked (CSocket domain type protocol) ''Socket error''"

definition Setsockopt :: "int \<Rightarrow> int \<Rightarrow> int \<Rightarrow> unit io" where
  "Setsockopt s level optname = void (checked (CSetsockopt s level optname) ''Setsockopt error'')"

definition Bind :: "int \<Rightarrow> int \<Rightarrow> unit io" where
  "Bind sockfd port = void (checked (CBind sockfd port) ''Bind error'')"

definition Listen :: "int \<Rightarrow> int \<Rightarrow> unit io" where
  "Listen s backlog = void (checked (CListen s backlog) ''Listen error'')"

definition Accept :: "int \<Rightarrow> int io" where
  "Accept s = checked (CAccept s) ''Accept error''"

definition Connect :: "int \<Rightarrow> bytes \<Rightarrow> unit io" where
  "Connect sockfd serv_addr = void (checked (CConnect sockfd serv_addr) ''Connect error'')"

section \<open>DNS\<close>

text \<open>The host entry is the data of the reply, \<open>h_errno\<close> its error code.\<close>

definition Gethostbyname :: "string \<Rightarrow> bytes io" where
  "Gethostbyname name = bnd (call (CSys (''gethostbyname '' @ name) [])) (\<lambda>r.
     if rv r = 0 then dns_error (er r) ''Gethostbyname error'' else ret (dat r))"

definition Gethostbyaddr :: "bytes \<Rightarrow> int \<Rightarrow> int \<Rightarrow> bytes io" where
  "Gethostbyaddr addr len type = bnd (call (CSys (''gethostbyaddr '' @ addr) [len, type])) (\<lambda>r.
     if rv r = 0 then dns_error (er r) ''Gethostbyaddr error'' else ret (dat r))"

section \<open>Threads and semaphores\<close>

definition Pthread_create :: "string \<Rightarrow> unit io" where
  "Pthread_create routine = checked_pthread (CPthreadCreate routine) ''Pthread_create error''"

definition Pthread_cancel :: "int \<Rightarrow> unit io" where
  "Pthread_cancel tid = checked_pthread (CSys ''pthread_cancel'' [tid]) ''Pthread_cancel error''"

definition Pthread_join :: "int \<Rightarrow> unit io" where
  "Pthread_join tid = checked_pthread (CSys ''pthread_join'' [tid]) ''Pthread_join error''"

definition Pthread_detach :: "int \<Rightarrow> unit io" where
  "Pthread_detach tid = checked_pthread (CSys ''pthread_detach'' [tid]) ''Pthread_detach error''"

definition Pthread_self :: "int io" where
  "Pthread_self = sysi (CSys ''pthread_self'' [])"

definition Sem_init :: "int \<Rightarrow> int \<Rightarrow> int \<Rightarrow> unit io" where
  "Sem_init a b c = void (checked (CSys ''sem_init'' [a, b, c]) ''Sem_init error'')"

definition P_sem :: "int \<Rightarrow> unit io" where
  "P_sem a = void (checked (CSys ''sem_wait'' [a]) ''P error'')"

definition V_sem :: "int \<Rightarrow> unit io" where
  "V_sem a = void (checked (CSys ''sem_post'' [a]) ''V error'')"

section \<open>Wrappers of the robust I/O package\<close>

definition Rio_readn :: "int \<Rightarrow> nat \<Rightarrow> (int \<times> bytes) io" where
  "Rio_readn fd nbytes = bnd (rio_readn fd nbytes) (\<lambda>(n, d).
     if n < 0 then unix_error ''Rio_readn error'' else ret (n, d))"

definition Rio_writen :: "int \<Rightarrow> bytes \<Rightarrow> unit io" where
  "Rio_writen fd usrbuf = bnd (rio_writen fd usrbuf) (\<lambda>rc.
     if rc \<noteq> int (length usrbuf) then unix_error ''Rio_writen error'' else ret ())"

definition Rio_readinitb :: "rio \<Rightarrow> int \<Rightarrow> rio" where
  "Rio_readinitb rp fd = rio_readinitb rp fd"

definition Rio_readnb :: "rio \<Rightarrow> nat \<Rightarrow> (int \<times> bytes \<times> rio) io" where
  "Rio_readnb rp n = bnd (rio_readnb rp n) (\<lambda>(rc, d, rp').
     if rc < 0 then unix_error ''Rio_readnb error'' else ret (rc, d, rp'))"

definition Rio_readlineb :: "rio \<Rightarrow> nat \<Rightarrow> (int \<times> bytes \<times> rio) io" where
  "Rio_readlineb rp maxlen = bnd (rio_readlineb rp maxlen) (\<lambda>(rc, d, rp').
     if rc < 0 then unix_error ''Rio_readlineb error'' else ret (rc, d, rp'))"

section \<open>Client and server helpers\<close>

text \<open>\<open>h_errno\<close> after a failed lookup: the error code of the last reply.\<close>

definition get_h_errno :: "int io" where
  "get_h_errno = (\<lambda>w. Ret (case rev (trace w) of Sys c r # es \<Rightarrow> er r | es \<Rightarrow> 0) w)"

definition LISTENQ :: int where "LISTENQ = 1024"

text \<open>
  \<open>open_clientfd\<close>: the address of the host and the port, as 16 bits, make the address given
  to \<open>connect\<close>.
\<close>

definition open_clientfd :: "string \<Rightarrow> int \<Rightarrow> int io" where
  "open_clientfd hostname port =
     bnd (sysi (CSocket AF_INET SOCK_STREAM 0)) (\<lambda>clientfd.
     if clientfd < 0 then ret (-1) else
     bnd (call (CSys (''gethostbyname '' @ hostname) [])) (\<lambda>hp.
     if rv hp = 0 then ret (-2) else
     bnd (sysi (CConnect clientfd (dat hp @ '':'' @ show_int (htons port)))) (\<lambda>rc.
     if rc < 0 then ret (-1) else ret clientfd)))"

definition open_listenfd :: "int \<Rightarrow> int io" where
  "open_listenfd port =
     bnd (sysi (CSocket AF_INET SOCK_STREAM 0)) (\<lambda>listenfd.
     if listenfd < 0 then ret (-1) else
     bnd (sysi (CSetsockopt listenfd SOL_SOCKET SO_REUSEADDR)) (\<lambda>rc.
     if rc < 0 then ret (-1) else
     bnd (sysi (CBind listenfd (htons port))) (\<lambda>rc.
     if rc < 0 then ret (-1) else
     bnd (sysi (CListen listenfd LISTENQ)) (\<lambda>rc.
     if rc < 0 then ret (-1) else ret listenfd))))"

definition Open_clientfd :: "string \<Rightarrow> int \<Rightarrow> int io" where
  "Open_clientfd hostname port =
     bnd (open_clientfd hostname port) (\<lambda>rc.
     if rc < 0 then
       (if rc = -1 then unix_error ''Open_clientfd Unix error''
        else bnd get_h_errno (\<lambda>h. dns_error h ''Open_clientfd DNS error''))
     else ret rc)"

definition Open_listenfd :: "int \<Rightarrow> int io" where
  "Open_listenfd port =
     bnd (open_listenfd port) (\<lambda>rc.
     if rc < 0 then unix_error ''Open_listenfd error'' else ret rc)"

section \<open>Laws of the wrappers\<close>

text \<open>
  What every wrapper has in common: it returns only a result that is not an error, and when
  the call reports an error the process prints the message and exits with status 0.
\<close>

definition exits0 :: "stop \<Rightarrow> world \<Rightarrow> bool" where
  "exits0 s w \<longleftrightarrow> s = Exited 0 \<or> only_blocks s w"

lemma wp_errors [wp_simps]:
  "wp (unix_error msg) Q E = (\<lambda>w. E (Exited 0) (log_act (APerror msg (errno w)) w))"
  "wp (posix_error code msg) Q E = (\<lambda>w. E (Exited 0) (log_act (APerror msg code) w))"
  "wp (app_error msg) Q E = (\<lambda>w. E (Exited 0) (log_act (AErr (msg @ [LF])) w))"
  by (simp_all add: unix_error_def posix_error_def app_error_def wp_simps)

lemma checked_law: "wp (checked c msg) (\<lambda>rc w'. 0 \<le> rc) exits0 w"
  unfolding checked_def wp_simps
  by (rule wp_callI) (auto simp: exits0_def)

lemma checked_ptr_law: "wp (checked_ptr c msg) (\<lambda>p w'. p \<noteq> 0) exits0 w"
  unfolding checked_ptr_def wp_simps
  by (rule wp_callI) (auto simp: exits0_def)

lemma Rio_readlineb_exits:
  assumes "rio_ok fd rp" "0 < maxlen"
  shows "wp (Rio_readlineb rp maxlen) (\<lambda>(c, buf, rp') w'.
      \<exists>line. rio_ok fd rp' \<and> source_post fd w (unread rp) line (unread rp') w' \<and>
        0 \<le> c \<and> line_post fd maxlen c line buf w') exits0 w"
  unfolding Rio_readlineb_def wp_simps
  by (rule wp_conseq [OF rio_readlineb_law [OF assms]])
    (auto simp: wp_simps exits0_def)

section \<open>Properties\<close>

text \<open>
  \<open>open_listenfd\<close> either returns the descriptor of a socket on which \<open>setsockopt\<close>, \<open>bind\<close>
  (to the port, reduced to 16 bits) and \<open>listen\<close> have succeeded, in this order, or returns -1
  after a call that failed; it never closes a descriptor, so on a failure after \<open>socket\<close> the
  new socket stays open.
\<close>

theorem open_listenfd_setup:
  "case open_listenfd port w of
     Ret fd w' \<Rightarrow>
       (if fd \<ge> 0 then
          \<exists>r1 r2 r3 r4. trace w' = trace w @
            [Sys (CSocket AF_INET SOCK_STREAM 0) r1, Sys (CSetsockopt fd SOL_SOCKET SO_REUSEADDR) r2,
             Sys (CBind fd (port mod 2 ^ 16)) r3, Sys (CListen fd 1024) r4] \<and>
            rv r1 = fd \<and> rv r2 \<ge> 0 \<and> rv r3 \<ge> 0 \<and> rv r4 \<ge> 0
        else fd = -1 \<and>
          (\<exists>pre c r. trace w' = trace w @ pre @ [Sys c r] \<and> rv r < 0 \<and> errno w' = er r)) \<and>
       closes g (trace w') = closes g (trace w)
   | Stop s w' \<Rightarrow> (\<exists>k. s = Blocked k)"
proof -
  have "wp (open_listenfd port) (\<lambda>fd w'.
       (if fd \<ge> 0 then
          \<exists>r1 r2 r3 r4. trace w' = trace w @
            [Sys (CSocket AF_INET SOCK_STREAM 0) r1, Sys (CSetsockopt fd SOL_SOCKET SO_REUSEADDR) r2,
             Sys (CBind fd (port mod 2 ^ 16)) r3, Sys (CListen fd 1024) r4] \<and>
            rv r1 = fd \<and> rv r2 \<ge> 0 \<and> rv r3 \<ge> 0 \<and> rv r4 \<ge> 0
        else fd = -1 \<and>
          (\<exists>pre c r. trace w' = trace w @ pre @ [Sys c r] \<and> rv r < 0 \<and> errno w' = er r)) \<and>
       closes g (trace w') = closes g (trace w)) only_blocks w"
    unfolding open_listenfd_def wp_simps htons_def LISTENQ_def
    by ((intro wp_callI impI conjI | simp add: closes_def)+)
  then show ?thesis by (auto simp: wp_def only_blocks_def split: result.splits)
qed
end
