(* ===== verification/Getopt.thy ===== *)
theory Getopt
  imports Posix_IO
begin

text \<open>
  \<open>getopt_long\<close> of the C library, as the programs call it: short options given by a list of
  letters, long options by a table, each with or without an argument.  The whole of \<open>argv\<close> is
  scanned at once: the result is the sequence of values the successive calls return, and the
  permuted \<open>argv\<close>, in which the options come before the operands.
\<close>

record optspec =
  shorts :: "(char \<times> bool) list"
  longs :: "(string \<times> bool \<times> char) list"

datatype opt = Opt char "string option" | Bad_opt

text \<open>An option that needs an argument takes the one attached to it, or else the next word.\<close>

definition with_arg :: "char \<Rightarrow> string option \<Rightarrow> string list \<Rightarrow> opt \<times> nat" where
  "with_arg c attached rest =
     (case attached of
        Some a \<Rightarrow> (Opt c (Some a), 0)
      | None \<Rightarrow> (case rest of [] \<Rightarrow> (Bad_opt, 0) | a # _ \<Rightarrow> (Opt c (Some a), 1)))"

text \<open>A word of short options; the number is how many of the following words it used.\<close>

fun scan_shorts :: "(char \<times> bool) list \<Rightarrow> string \<Rightarrow> string list \<Rightarrow> opt list \<times> nat" where
  "scan_shorts sp [] rest = ([], 0)"
| "scan_shorts sp (c # cs) rest =
     (case map_of sp c of
        None \<Rightarrow> apfst (Cons Bad_opt) (scan_shorts sp cs rest)
      | Some False \<Rightarrow> apfst (Cons (Opt c None)) (scan_shorts sp cs rest)
      | Some True \<Rightarrow>
          apfst (\<lambda>o'. [o']) (with_arg c (if cs = [] then None else Some cs) rest))"

text \<open>A long option may be shortened to a prefix that no other option shares.\<close>

definition find_long :: "(string \<times> bool \<times> char) list \<Rightarrow> string \<Rightarrow> (bool \<times> char) option" where
  "find_long sp name =
     (case map_of sp name of
        Some v \<Rightarrow> Some v
      | None \<Rightarrow> (case filter (\<lambda>(l, _). prefix_of name l) sp of
                    [(_, v)] \<Rightarrow> Some v
                  | _ \<Rightarrow> None))"

definition scan_long :: "(string \<times> bool \<times> char) list \<Rightarrow> string \<Rightarrow> string list \<Rightarrow> opt \<times> nat" where
  "scan_long sp s rest =
     (let name = takeWhile (\<lambda>c. c \<noteq> CHR ''='') s;
          attached = (case dropWhile (\<lambda>c. c \<noteq> CHR ''='') s of [] \<Rightarrow> None | _ # v \<Rightarrow> Some v)
      in case find_long sp name of
           None \<Rightarrow> (Bad_opt, 0)
         | Some (False, c) \<Rightarrow> if attached = None then (Opt c None, 0) else (Bad_opt, 0)
         | Some (True, c) \<Rightarrow> with_arg c attached rest)"

definition scan_word :: "optspec \<Rightarrow> string \<Rightarrow> string list \<Rightarrow> opt list \<times> nat" where
  "scan_word sp w rest =
     (if prefix_of ''--'' w then apfst (\<lambda>o'. [o']) (scan_long (longs sp) (drop 2 w) rest)
      else scan_shorts (shorts sp) (tl w) rest)"

text \<open>
  The scan: the options found, the words of \<open>argv\<close> they are made of (with the terminating
  \<^verbatim>\<open>--\<close>), and the operands.
\<close>

function getopt :: "optspec \<Rightarrow> string list \<Rightarrow> opt list \<times> string list \<times> string list" where
  "getopt sp [] = ([], [], [])"
| "getopt sp (w # ws) =
     (if w = ''--'' then ([], [w], ws)
      else if w = ''-'' \<or> \<not> prefix_of ''-'' w then
        (let (os, used, operands) = getopt sp ws in (os, used, w # operands))
      else
        (let (os, k) = scan_word sp w ws;
             (os', used, operands) = getopt sp (drop k ws)
         in (os @ os', w # take k ws @ used, operands)))"
  by pat_completeness auto
termination
  by (relation "measure (\<lambda>(sp, ws). length ws)") auto

declare getopt.simps [simp del]

text \<open>Nothing of \<open>argv\<close> is lost: the permuted \<open>argv\<close> has the words of \<open>argv\<close>.\<close>

lemma getopt_permutes:
  "getopt sp ws = (os, used, operands) \<Longrightarrow> mset used + mset operands = mset ws"
proof (induction sp ws arbitrary: os used operands rule: getopt.induct)
  case (1 sp)
  then show ?case by (simp add: getopt.simps)
next
  case (2 sp w ws)
  have split: "mset (take k ws) + mset (drop k ws) = mset ws" for k
    by (metis append_take_drop_id mset_append)
  consider "w = ''--''" | "w \<noteq> ''--''" "w = ''-'' \<or> \<not> prefix_of ''-'' w"
    | "w \<noteq> ''--''" "w \<noteq> ''-''" "prefix_of ''-'' w" by blast
  then show ?case
  proof cases
    case 1
    with 2(3) show ?thesis by (auto simp: getopt.simps)
  next
    case c: 2
    obtain o1 u1 p1 where r: "getopt sp ws = (o1, u1, p1)" by (cases "getopt sp ws") auto
    from 2(1) [OF c r] 2(3) c r show ?thesis by (auto simp: getopt.simps)
  next
    case c: 3
    obtain o1 k where s: "scan_word sp w ws = (o1, k)" by (cases "scan_word sp w ws") auto
    obtain o2 u2 p2 where r: "getopt sp (drop k ws) = (o2, u2, p2)"
      by (cases "getopt sp (drop k ws)") auto
    from c have nc: "\<not> (w = ''-'' \<or> \<not> prefix_of ''-'' w)" by blast
    from 2(2) [OF c(1) nc s [symmetric] refl r] 2(3) c s r show ?thesis
      by (auto simp: getopt.simps ac_simps simp flip: split [of k])
  qed
qed

text \<open>Words that do not start with a dash are operands, in their order.\<close>

lemma getopt_operands:
  "\<forall>w \<in> set ws. \<not> prefix_of ''-'' w \<Longrightarrow> getopt sp ws = ([], [], ws)"
proof (induction ws)
  case (Cons w ws)
  then show ?case by (auto simp: getopt.simps)
qed (simp add: getopt.simps)

text \<open>The letters of the options found are letters of the tables.\<close>

definition opt_letters :: "optspec \<Rightarrow> char set" where
  "opt_letters sp = fst ` set (shorts sp) \<union> (\<lambda>(_, _, c). c) ` set (longs sp)"

lemma with_arg_letter:
  "fst (with_arg c attached rest) = Bad_opt \<or> (\<exists>a. fst (with_arg c attached rest) = Opt c a)"
  by (auto simp: with_arg_def split: option.split list.split)

lemma scan_shorts_letters: "Opt d a \<in> set (fst (scan_shorts sp cs rest)) \<Longrightarrow> d \<in> fst ` set sp"
proof (induction sp cs rest rule: scan_shorts.induct)
  case (2 sp c cs rest)
  show ?case
  proof (cases "map_of sp c")
    case None
    with 2 show ?thesis by auto
  next
    case (Some v)
    then have c: "c \<in> fst ` set sp" by (force dest: map_of_SomeD)
    show ?thesis
    proof (cases v)
      case True
      with with_arg_letter [of c "if cs = [] then None else Some cs" rest] 2(3) Some
      have "d = c" by auto
      with c show ?thesis by simp
    next
      case False
      with 2 Some c show ?thesis by auto
    qed
  qed
qed simp

lemma find_long_letter: "find_long sp name = Some (b, c) \<Longrightarrow> \<exists>l. (l, b, c) \<in> set sp"
proof -
  assume f: "find_long sp name = Some (b, c)"
  have "(l, v) \<in> set sp" if "filter (\<lambda>(l, _). prefix_of name l) sp = [(l, v)]" for l v
    using arg_cong [OF that, of set] by auto
  with f show ?thesis
    unfolding find_long_def
    by (auto split: option.splits list.splits prod.splits dest: map_of_SomeD)
qed

lemma scan_word_letters:
  "Opt d a \<in> set (fst (scan_word sp w rest)) \<Longrightarrow> d \<in> opt_letters sp"
proof -
  have long: "d \<in> (\<lambda>(_, _, c). c) ` set (longs sp)" if "fst (scan_long (longs sp) v rest) = Opt d a" for v
  proof (cases "find_long (longs sp) (takeWhile (\<lambda>c. c \<noteq> CHR ''='') v)")
    case None
    with that show ?thesis by (simp add: scan_long_def)
  next
    case (Some bc)
    then obtain b c where bc: "bc = (b, c)" by (cases bc)
    with Some obtain l where l: "(l, b, c) \<in> set (longs sp)" by (auto dest: find_long_letter)
    let ?att = "case dropWhile (\<lambda>c. c \<noteq> CHR ''='') v of [] \<Rightarrow> None | _ # v \<Rightarrow> Some v"
    from that Some bc with_arg_letter [of c ?att rest] have "d = c"
      by (cases b) (auto simp: scan_long_def Let_def split: if_splits)
    with l show ?thesis by force
  qed
  assume "Opt d a \<in> set (fst (scan_word sp w rest))"
  then show ?thesis
    using long [of "drop 2 w"] scan_shorts_letters [of d a "shorts sp" "tl w" rest]
    by (auto simp: scan_word_def opt_letters_def split: if_splits)
qed

lemma getopt_letters:
  "getopt sp ws = (os, used, operands) \<Longrightarrow> Opt d a \<in> set os \<Longrightarrow> d \<in> opt_letters sp"
proof (induction sp ws arbitrary: os used operands rule: getopt.induct)
  case (2 sp w ws)
  obtain o1 k where s: "scan_word sp w ws = (o1, k)" by (cases "scan_word sp w ws") auto
  obtain o2 u2 p2 where r: "getopt sp (drop k ws) = (o2, u2, p2)"
    by (cases "getopt sp (drop k ws)") auto
  obtain o3 u3 p3 where r3: "getopt sp ws = (o3, u3, p3)" by (cases "getopt sp ws") auto
  have "Opt d a \<in> set o1 \<Longrightarrow> d \<in> opt_letters sp" using scan_word_letters [of d a sp w ws] s by simp
  with 2 s r r3 show ?case by (auto simp: getopt.simps split: if_splits)
qed (simp add: getopt.simps)

lemmas [eval_simps] =
  getopt.simps scan_word_def scan_long_def find_long_def with_arg_def

end
