(* ===== verification/Http_Proxy.thy ===== *)
theory Http_Proxy
  imports Getopt
begin

text \<open>
  What the two web proxies share, as they are written in both: the parsing of the request, the
  rewriting of its first lines, the connection to the server, the relay of the response and
  the log entry.  Each definition is a stretch of code that both programs contain.

  Arrays hold 1024 or 10000 bytes; storing more is a \<open>Fault\<close>.  The code searches the
  1024-byte array of the response with \<open>strstr\<close> without terminating it, so that the search
  goes on into the memory behind the array: \<open>beyond\<close> is what lies there, and is a parameter.
\<close>

section \<open>The request\<close>

text \<open>\<open>sscanf(buffer, "%s %s %s", method, url, version)\<close>: what was stored, if it fitted.\<close>

definition word_at :: "cval list \<Rightarrow> nat \<Rightarrow> string option" where
  "word_at vs i =
     (if i < length vs then (case vs ! i of VStr s \<Rightarrow> Some s | VInt _ \<Rightarrow> None) else None)"

definition parse_request :: "string \<Rightarrow> (string option \<times> string option \<times> string option) option" where
  "parse_request buffer =
     (case sscanf [Str 1024, Ws, Str 1024, Ws, Str 1024] buffer of
        (vs, Overflow) \<Rightarrow> None
      | (vs, _) \<Rightarrow> Some (word_at vs 0, word_at vs 1, word_at vs 2))"

datatype url_parse = Url string int string | Bad_url | Url_too_long

definition requested_port :: "cval list \<Rightarrow> int" where
  "requested_port vs = (case vs of [VStr h, VInt p] \<Rightarrow> p | _ \<Rightarrow> 80)"

definition parse_get_url :: "string \<Rightarrow> url_parse" where
  "parse_get_url url =
     (case sscanf (lits ''http://'' @ [NotIn '':/'' 1024, Lit CHR '':'', Dec, Str 1024]) url of
        (vs, Overflow) \<Rightarrow> Url_too_long
      | ([VStr host, VInt port, VStr resource], _) \<Rightarrow> Url host port resource
      | (us, _) \<Rightarrow>
          (case sscanf (lits ''http://'' @ [NotIn '':/'' 1024, Str 1024]) url of
             (vs, Overflow) \<Rightarrow> Url_too_long
           | ([VStr host, VStr resource], _) \<Rightarrow> Url host (requested_port us) resource
           | _ \<Rightarrow> Bad_url))"

text \<open>The target of \<open>CONNECT\<close> has no scheme and no path.\<close>

definition parse_connect_url :: "string \<Rightarrow> url_parse" where
  "parse_connect_url url =
     (case sscanf [NotIn '':/'' 1024, Lit CHR '':'', Dec] url of
        (vs, Overflow) \<Rightarrow> Url_too_long
      | ([VStr host, VInt port], _) \<Rightarrow> Url host port []
      | _ \<Rightarrow>
          (case sscanf [NotIn '':/'' 1024] url of
             (vs, Overflow) \<Rightarrow> Url_too_long
           | ([VStr host], _) \<Rightarrow> Url host 80 []
           | _ \<Rightarrow> Bad_url))"

text \<open>
  The request sent on: a new first line, and \<open>Connection: keep-alive\<close> replaced by
  \<open>Connection: close\<close>.  When there is no such header the code copies the remaining lines
  over the new first line.
\<close>

definition keep_alive :: string where
  "keep_alive = ''Connection: keep-alive'' @ crlf"

definition conn_close :: string where
  "conn_close = ''Connection: close'' @ crlf"

definition request_line :: "string \<Rightarrow> string \<Rightarrow> string" where
  "request_line resource version = ''GET '' @ resource @ '' '' @ version @ crlf"

definition rewrite_request :: "string \<Rightarrow> string \<Rightarrow> string \<Rightarrow> string + string" where
  "rewrite_request resource version buffer =
     (let request = request_line resource version in
      case strchr buffer LF of
        None \<Rightarrow> Inl ''null pointer: no newline in the request''
      | Some nl \<Rightarrow>
          (let remaining = tl nl in
           case strstr remaining keep_alive of
             Some header \<Rightarrow>
               (let modReqLen = length remaining - length header;
                    request' = request @ take modReqLen remaining @ conn_close
                                 @ drop (length keep_alive) header
                in if length request' < 10000 then Inr request' else Inl ''request overflows'')
           | None \<Rightarrow> Inr remaining))"

section \<open>The server\<close>

text \<open>
  \<open>getaddrinfo\<close>, \<open>socket\<close>, \<open>connect\<close>: \<open>abandon fds\<close> is what the caller does when one of them
  fails, \<open>fds\<close> being the descriptors opened here that it has to close besides its own.
\<close>

definition dial :: "string \<Rightarrow> string \<Rightarrow> (int list \<Rightarrow> 'a io) \<Rightarrow> (int \<Rightarrow> 'a io) \<Rightarrow> 'a io" where
  "dial host service abandon k =
     bnd (call (CGetaddrinfo host service)) (\<lambda>ai.
     if rv ai \<noteq> 0 then thn (act (APerror ''getaddrinfo error: '' (rv ai))) (abandon [])
     else
       bnd (sysi (CSocketAI (dat ai))) (\<lambda>server_fd.
       if server_fd < 0 then thn (c_perror ''server socket failed'') (abandon [])
       else
         bnd (sysi (CConnect server_fd (dat ai))) (\<lambda>rc.
         if rc < 0 then thn (c_perror ''connect failed'') (abandon [server_fd])
         else thn (act AFreeaddrinfo) (k server_fd))))"

text \<open>Rewrite the request and write it to the server.\<close>

definition send_request ::
  "string \<Rightarrow> string option \<Rightarrow> string \<Rightarrow> int \<Rightarrow> (int list \<Rightarrow> 'a io) \<Rightarrow> 'a io \<Rightarrow> 'a io" where
  "send_request resource version buffer server_fd abandon k =
     need version (\<lambda>ver.
     case rewrite_request resource ver buffer of
       Inl why \<Rightarrow> c_fault why
     | Inr request \<Rightarrow>
         bnd (c_write server_fd request (int (length request))) (\<lambda>rc.
         if rc < 0 then thn (c_perror ''send failed'') (abandon [server_fd])
         else thn (c_print ''Request sent successful.'') k))"

section \<open>The response\<close>

text \<open>The loop that copies the rest of a response without a \<open>Content-Length\<close>.\<close>

definition relay_chunk :: "int \<Rightarrow> int \<Rightarrow> int \<Rightarrow> (int + int) io" where
  "relay_chunk server_fd client_fd tot =
     bnd (c_read server_fd 1024) (\<lambda>(received_bytes, response).
     if received_bytes > 0 then
       bnd (c_write client_fd response received_bytes) (\<lambda>_.
       go (to_int32 (tot + received_bytes)))
     else leave tot)"

text \<open>
  The size of the array \<open>remainingContent\<close>: an array of the size of the whole stack, or one
  whose size is not positive, is a \<open>Fault\<close>.
\<close>

definition STACK_SIZE :: int where
  "STACK_SIZE = 8388608"

definition remaining_length :: "string \<Rightarrow> string \<Rightarrow> int option" where
  "remaining_length text cLengthLine =
     (case strstr text (crlf @ crlf) of
        None \<Rightarrow> None
      | Some body \<Rightarrow>
          (let headerSize = int (length text - length body) + 4;
               cLength = (case sscanf (lits ''Content-Length:'' @ [Ws, Dec]) cLengthLine of
                            ([VInt n], _) \<Rightarrow> n | _ \<Rightarrow> 0)
           in Some (to_int32 (cLength + headerSize - 1024))))"

definition relay_rest :: "bytes \<Rightarrow> int \<Rightarrow> int \<Rightarrow> bytes \<Rightarrow> int \<Rightarrow> int io" where
  "relay_rest beyond server_fd client_fd response tot =
     (let text = cstr (response @ beyond) in
      case strstr text ''Content-Length:'' of
        None \<Rightarrow> repeat_io (relay_chunk server_fd client_fd) tot
      | Some cLengthLine \<Rightarrow>
          (case remaining_length text cLengthLine of
             None \<Rightarrow> c_fault ''null pointer: no end of the header''
           | Some remainingLength \<Rightarrow>
               if remainingLength \<le> 0 \<or> remainingLength \<ge> STACK_SIZE
               then c_fault ''size of a variable length array''
               else
                 bnd (c_read server_fd (nat remainingLength)) (\<lambda>(received_bytes, content).
                 bnd (c_write client_fd content received_bytes) (\<lambda>_.
                 ret (to_int32 (tot + received_bytes))))))"

definition relay :: "bytes \<Rightarrow> int \<Rightarrow> int \<Rightarrow> int io" where
  "relay beyond server_fd client_fd =
     bnd (c_read server_fd 1024) (\<lambda>(received_bytes, response).
     bnd (c_write client_fd response received_bytes) (\<lambda>_.
     if received_bytes = 1024
     then relay_rest beyond server_fd client_fd response (to_int32 received_bytes)
     else ret (to_int32 received_bytes)))"

section \<open>The log entry\<close>

text \<open>
  The address of the client: four bytes in network byte order, kept in an \<open>unsigned long\<close>
  after \<open>ntohl\<close>; the four \<open>unsigned char\<close>s of the dotted form.
\<close>

unbundle bit_operations_syntax

definition ntohl :: "bytes \<Rightarrow> nat" where
  "ntohl addr = foldl (\<lambda>h c. h * 256 + of_char c) 0 (take 4 addr)"

definition dotted :: "bytes \<Rightarrow> string" where
  "dotted addr =
     (let host = ntohl addr;
          a = drop_bit 24 host mod 256;
          b = drop_bit 16 host AND 0xff;
          c = drop_bit 8 host AND 0xff;
          d = host AND 0xff
      in show_nat a @ ''.'' @ show_nat b @ ''.'' @ show_nat c @ ''.'' @ show_nat d)"

definition format_log_entry :: "string \<Rightarrow> bytes \<Rightarrow> string \<Rightarrow> int \<Rightarrow> string" where
  "format_log_entry time_str addr uri sz =
     time_str @ '': '' @ dotted addr @ '' '' @ uri @ '' '' @ show_int sz @ [LF]"

text \<open>
  \<open>malloc(1024)\<close> and the entry formatted into it.  The time is what \<open>strftime\<close> stores in
  8192 bytes.
\<close>

definition with_logstring :: "(string \<Rightarrow> string) \<Rightarrow> (string \<Rightarrow> 'a io) \<Rightarrow> 'a io" where
  "with_logstring format k =
     bnd (sysi (CMalloc 1024)) (\<lambda>p.
     if p = 0 then c_fault ''null pointer: malloc''
     else
       bnd (call (CSys ''strftime'' [8192])) (\<lambda>t.
       let logstring = format (cstr (take 8191 (dat t))) in
       if length logstring < 1024 then k logstring else c_fault ''logstring overflows''))"

lemmas [eval_simps] =
  word_at_def parse_request_def requested_port_def parse_get_url_def parse_connect_url_def
  keep_alive_def conn_close_def request_line_def rewrite_request_def
  dial_def send_request_def relay_chunk_def remaining_length_def relay_rest_def relay_def
  STACK_SIZE_def ntohl_def dotted_def format_log_entry_def with_logstring_def

section \<open>Laws of the relay\<close>

text \<open>
  The entries of a trace that concern the log and the end of a tunnel: files opened by their name,
  lines put into a stream, streams closed, and calls of \<open>poll\<close> that timed out.
\<close>

fun log_event :: "entry \<Rightarrow> bool" where
  "log_event (Sys (COpen f m) r) \<longleftrightarrow> True"
| "log_event (Sys (CFopen f m) r) \<longleftrightarrow> True"
| "log_event (Act (AFputs fp l)) \<longleftrightarrow> True"
| "log_event (Act (AFclose fp)) \<longleftrightarrow> True"
| "log_event (Sys (CPoll fds n) r) \<longleftrightarrow> rv r = 0"
| "log_event _ \<longleftrightarrow> False"

definition log_events :: "entry list \<Rightarrow> entry list" where
  "log_events t = filter log_event t"

lemma log_events_simps [simp]:
  "log_events [] = []" "log_events (e # t) = (if log_event e then e # log_events t else log_events t)"
  "log_events (t @ u) = log_events t @ log_events u"
  by (simp_all add: log_events_def)

text \<open>
  Between the traces \<open>t\<close> and \<open>t'\<close> the bytes \<open>x\<close> were read from one descriptor and handed to
  \<open>write\<close> for the other, and no descriptor was opened or closed.
\<close>

definition relayed :: "int \<Rightarrow> int \<Rightarrow> entry list \<Rightarrow> bytes \<Rightarrow> entry list \<Rightarrow> bool" where
  "relayed from_fd to_fd t x t' \<longleftrightarrow>
     bytes_read from_fd t' = bytes_read from_fd t @ x \<and>
     bytes_offered to_fd t' = bytes_offered to_fd t @ x \<and>
     opened t' = opened t \<and> closed t' = closed t \<and> accepted t' = accepted t \<and>
     log_events t' = log_events t"

definition read_failed :: "int \<Rightarrow> entry list \<Rightarrow> bool" where
  "read_failed fd t \<longleftrightarrow> (\<exists>n r. Sys (CRead fd n) r \<in> set t \<and> rv r < 0)"

definition faults_or_blocks :: "stop \<Rightarrow> entry list \<Rightarrow> bool" where
  "faults_or_blocks s t \<longleftrightarrow> (\<exists>k. s = Blocked k) \<or> (\<exists>f. s = Fault f)"

lemma faults_or_blocks_simps [simp]:
  "faults_or_blocks (Blocked k) t" "faults_or_blocks (Fault f) t"
  "\<not> faults_or_blocks (Exited n) t" "\<not> faults_or_blocks Aborted t"
  by (simp_all add: faults_or_blocks_def)

lemma relayed_refl: "relayed s c t [] t"
  by (simp add: relayed_def)

lemma relayed_trans: "relayed s c t x t' \<Longrightarrow> relayed s c t' y t'' \<Longrightarrow> relayed s c t (x @ y) t''"
  by (simp add: relayed_def)

lemma relayed_failed_read:
  "dat r = [] \<Longrightarrow> relayed s c t x (t' @ [Sys (CRead s n) r]) \<longleftrightarrow> relayed s c t x t'"
  by (simp add: relayed_def)

lemma relayed_bad_write: "relayed s c t x (t' @ [Sys (CWriteBad c') r]) \<longleftrightarrow> relayed s c t x t'"
  by (simp add: relayed_def)

lemma relayed_read_write:
  "relayed s c t x t' \<Longrightarrow>
   relayed s c t (x @ dat r) (t' @ [Sys (CRead s n) r, Sys (CWrite c (dat r)) r'])"
  by (simp add: relayed_def)

lemma relay_chunk_calls: "calls_each_round (relay_chunk s c)"
  unfolding calls_each_round_def relay_chunk_def wp_simps
  by (intro allI wp_callI) (auto simp: wp_simps intro!: wp_callI)

text \<open>What holds of the running total: it counts the bytes relayed, in 32 bits.\<close>

definition counted :: "int \<Rightarrow> int \<Rightarrow> entry list \<Rightarrow> int \<Rightarrow> entry list \<Rightarrow> bool" where
  "counted s c t tot t' \<longleftrightarrow> (\<exists>x. relayed s c t x t' \<and> tot = to_int32 (int (length x)))"

lemma countedI: "relayed s c t x t' \<Longrightarrow> tot = to_int32 (int (length x)) \<Longrightarrow> counted s c t tot t'"
  by (auto simp: counted_def)

lemma counted_read_write:
  assumes "counted s c t tot t'"
  shows "counted s c t (to_int32 (tot + int (length (dat r))))
    (t' @ [Sys (CRead s n) r, Sys (CWrite c (dat r)) r'])"
proof -
  from assms obtain x where "relayed s c t x t'" "tot = to_int32 (int (length x))"
    by (auto simp: counted_def)
  then show ?thesis
    by (intro countedI [where x = "x @ dat r"]) (auto simp: to_int32_add_left relayed_read_write)
qed

lemma relay_chunk_law:
  assumes "counted s c t tot t'"
  shows "wpt (relay_chunk s c tot)
      (\<lambda>y t''. case y of Inr tot' \<Rightarrow> counted s c t tot' t'' | Inl tot' \<Rightarrow> counted s c t tot' t'')
      faults_or_blocks t'"
  unfolding relay_chunk_def
  using assms counted_read_write [OF assms]
  by (intro wpt_bnd wpt_read)
    (auto intro!: wpt_intros wpt_write simp: counted_def relayed_failed_read)

text \<open>
  The total at the end: the number of bytes relayed, or one less when the read failed.
\<close>

definition relay_post :: "int \<Rightarrow> int \<Rightarrow> entry list \<Rightarrow> int \<Rightarrow> entry list \<Rightarrow> bool" where
  "relay_post s c t tot t' \<longleftrightarrow> counted s c t tot t' \<or>
     (read_failed s t' \<and> (\<exists>x. relayed s c t x t' \<and> tot = to_int32 (int (length x) - 1)))"

lemma relay_post_counted: "counted s c t tot t' \<Longrightarrow> relay_post s c t tot t'"
  by (simp add: relay_post_def)

lemma read_failed_entry [simp]: "rv r = -1 \<Longrightarrow> read_failed s (t @ Sys (CRead s n) r # u)"
  unfolding read_failed_def by (intro exI [of _ n] exI [of _ r]) simp

lemma counted_failed:
  assumes "counted s c t tot t'" "rv r = -1" "dat r = []"
  shows "relay_post s c t (to_int32 (tot - 1)) (t' @ [Sys (CRead s n) r, Sys (CWriteBad c) r'])"
proof -
  from assms obtain x where x: "relayed s c t x t'" "tot = to_int32 (int (length x))"
    by (auto simp: counted_def)
  with assms(3) have "relayed s c t x (t' @ [Sys (CRead s n) r, Sys (CWriteBad c) r'])"
    by (simp add: relayed_def)
  moreover have "to_int32 (tot - 1) = to_int32 (int (length x) - 1)"
    using to_int32_add_left [of "int (length x)" "-1"] x(2) by simp
  ultimately show ?thesis using assms(2) by (auto simp: relay_post_def)
qed

lemma counted_start: "counted s c t 0 t"
  by (auto simp: counted_def relayed_def to_int32_def)

lemma relay_chunks_law:
  "counted s c t tot t' \<Longrightarrow>
   wpt (repeat_io (relay_chunk s c) tot) (counted s c t) faults_or_blocks t'"
  by (rule wpt_repeat [where I = "counted s c t", OF relay_chunk_calls])
    (auto intro!: wpt_conseq [OF relay_chunk_law] split: sum.splits)

lemma relay_rest_law:
  assumes "counted s c t tot t'"
  shows "wpt (relay_rest beyond s c response tot) (relay_post s c t) faults_or_blocks t'"
  unfolding relay_rest_def Let_def
  by (auto split: option.split intro!: wpt_intros wpt_read wpt_write
      counted_failed [OF assms] relay_post_counted [OF counted_read_write [OF assms]]
      wpt_conseq [OF relay_chunks_law [OF assms] relay_post_counted])

lemma relay_law: "wpt (relay beyond s c) (relay_post s c t) faults_or_blocks t"
  unfolding relay_def
proof (rule wpt_bnd, rule wpt_read)
  fix r :: reply
  assume r: "rv r = -1" "dat r = []"
  with counted_failed [OF counted_start r]
  show "wpt (case (-1, []) of (n, d) \<Rightarrow> bnd (c_write c d n) (\<lambda>_.
      if n = 1024 then relay_rest beyond s c d (to_int32 n) else ret (to_int32 n)))
      (relay_post s c t) faults_or_blocks (t @ [Sys (CRead s 1024) r])"
    by (auto intro!: wpt_intros wpt_write)
next
  fix r :: reply
  let ?n = "int (length (dat r))"
  have start: "counted s c t (to_int32 ?n) (t @ [Sys (CRead s 1024) r, Sys (CWrite c (dat r)) r'])" for r'
    using counted_read_write [OF counted_start, of s c t r] by simp
  show "wpt (case (?n, dat r) of (n, d) \<Rightarrow> bnd (c_write c d n) (\<lambda>_.
      if n = 1024 then relay_rest beyond s c d (to_int32 n) else ret (to_int32 n)))
      (relay_post s c t) faults_or_blocks (t @ [Sys (CRead s 1024) r])"
    unfolding prod.case
    by (rule wpt_bnd, rule wpt_write)
      (use start in \<open>auto simp del: of_nat_eq_iff intro!: wpt_if wpt_prims relay_rest_law relay_post_counted\<close>)
qed simp

section \<open>Laws of the other parts\<close>

text \<open>A stretch of a trace without a close and without data moved on any descriptor.\<close>

definition quiet :: "entry list \<Rightarrow> bool" where
  "quiet u \<longleftrightarrow> closed u = [] \<and> accepted u = [] \<and> (\<forall>fd. bytes_read fd u = [] \<and> bytes_offered fd u = [])"

lemma quietD [simp]:
  "quiet u \<Longrightarrow> closed u = []" "quiet u \<Longrightarrow> accepted u = []" "quiet u \<Longrightarrow> bytes_read fd u = []" "quiet u \<Longrightarrow> bytes_offered fd u = []"
  by (simp_all add: quiet_def)

lemma quiet_append [simp]: "quiet (u @ v) \<longleftrightarrow> quiet u \<and> quiet v"
  by (auto simp: quiet_def simp del: quietD)

lemma quiet_entries [simp]:
  "quiet []" "quiet (Act (AOut m) # u) = quiet u" "quiet (Act (APerror m e) # u) = quiet u"
  "quiet (Act (AErr m) # u) = quiet u" "quiet (Act (ALock m) # u) = quiet u"
  "quiet (Act (AUnlock m) # u) = quiet u" "quiet (Act (AFputs p s) # u) = quiet u"
  "quiet (Act (AFclose p) # u) = quiet u" "quiet (Act AFree # u) = quiet u"
  "quiet (Act AFreeaddrinfo # u) = quiet u" "quiet (Act (AFcntlLock p i) # u) = quiet u"
  "quiet (Act (ALseekEnd p) # u) = quiet u"
  "quiet (Sys (CPoll fds n) r # u) = quiet u" "quiet (Sys (CFopen f m) r # u) = quiet u"
  "quiet (Sys (COpen f i) r # u) = quiet u" "quiet (Sys (CMalloc k) r # u) = quiet u"
  "quiet (Sys (CSys m is) r # u) = quiet u" "quiet (Sys (CGetaddrinfo h s) r # u) = quiet u"
  "quiet (Sys (CSocketAI b) r # u) = quiet u" "quiet (Sys (CConnect p b) r # u) = quiet u"
  by (simp_all add: quiet_def del: quietD)

text \<open>
  The rule for \<open>dial\<close>: either the connection was made on a new socket, or the caller is told
  which socket it has to close.
\<close>

lemma wpt_dial:
  assumes ok: "\<And>u fd. quiet u \<Longrightarrow> opened u = [fd] \<Longrightarrow> log_events u = [] \<Longrightarrow> wpt (k fd) Q E (t @ u)"
    and failed: "\<And>u. quiet u \<Longrightarrow> log_events u = [] \<Longrightarrow> wpt (abandon (opened u)) Q E (t @ u)"
    and blocked: "\<And>c u. E (Blocked c) u"
  shows "wpt (dial host service abandon k) Q E t"
proof -
  have *: "wpt (abandon fds) Q E (t @ u)" if "quiet u" "opened u = fds" "log_events u = []" for u fds
    using failed [OF that(1,3)] that(2) by simp
  show ?thesis
    unfolding dial_def
    by (intro wpt_intros blocked; simp; intro ok * ; simp add: norm_reply_def)
qed

lemma wpt_send_request:
  assumes "\<And>v q r s. version = Some v \<Longrightarrow> rewrite_request resource v buffer = Inr q \<Longrightarrow>
      wpt k Q E (t @ [Sys (CWrite fd q) r, Act (AOut s)])"
    and "\<And>v q r s e. version = Some v \<Longrightarrow> rewrite_request resource v buffer = Inr q \<Longrightarrow>
      wpt (abandon [fd]) Q E (t @ [Sys (CWrite fd q) r, Act (APerror s e)])"
    and "\<And>c u. E (Blocked c) u" "\<And>f u. E (Fault f) u"
  shows "wpt (send_request resource version buffer fd abandon k) Q E t"
  unfolding send_request_def
  by (auto split: sum.split intro!: wpt_intros wpt_write assms)

lemma wpt_with_logstring:
  assumes "\<And>u time_str. quiet u \<Longrightarrow> opened u = [] \<Longrightarrow> log_events u = [] \<Longrightarrow>
      wpt (k (format time_str)) Q E (t @ u)"
    and "\<And>c u. E (Blocked c) u" "\<And>f u. E (Fault f) u"
  shows "wpt (with_logstring format k) Q E t"
  unfolding with_logstring_def Let_def
  by (intro wpt_intros assms(2,3)) (simp, intro assms(1); simp)

text \<open>A word of a request line that fits in its array.\<close>

definition req_word :: "string \<Rightarrow> bool" where
  "req_word s \<longleftrightarrow> s \<noteq> [] \<and> length s < 1024 \<and> (\<forall>c \<in> set s. \<not> is_space c)"

lemma sscanf_words:
  assumes "req_word v" "fs = [] \<or> (\<exists>fs'. fs = Ws # fs')" "r = [] \<or> is_space (hd r)"
  shows "sscanf (Str 1024 # fs) (v @ r) = apfst (Cons (VStr v)) (sscanf fs r)"
  using assms by (intro sscanf_Str_word) (auto simp: req_word_def)

lemma dropWhile_word: "req_word v \<Longrightarrow> dropWhile is_space (v @ r) = v @ r"
  by (cases v) (auto simp: req_word_def)

lemma space_char [simp]: "is_space CHR '' ''" "is_space CR" "is_space LF"
  by (simp_all add: is_space_def)

lemma parse_request_text:
  assumes "req_word m" "req_word u" "req_word v"
  shows "parse_request (m @ '' '' @ u @ '' '' @ v @ crlf @ rest) = Some (Some m, Some u, Some v)"
  using assms
  by (simp add: parse_request_def sscanf_words dropWhile_word word_at_def crlf_def)

lemma not_space_url: "\<not> is_space CHR ''/''" "\<not> is_space CHR '':''"
  by (simp_all add: is_space_def)

text \<open>A host name, without port, and a path.\<close>

definition url_host :: "string \<Rightarrow> bool" where
  "url_host h \<longleftrightarrow> req_word h \<and> (\<forall>c \<in> set h. c \<notin> set '':/'')"

lemma parse_get_url_text:
  assumes "url_host h" "req_word (CHR ''/'' # p)"
  shows "parse_get_url (''http://'' @ h @ CHR ''/'' # p) = Url h 80 (CHR ''/'' # p)"
proof -
  have host: "sscanf (NotIn '':/'' 1024 # fs) (h @ CHR ''/'' # p) =
      apfst (Cons (VStr h)) (sscanf fs (CHR ''/'' # p))" for fs
    using assms(1) by (intro sscanf_NotIn_word) (auto simp: url_host_def req_word_def)
  have path: "sscanf [Str 1024] (CHR ''/'' # p) = ([VStr (CHR ''/'' # p)], Done [])"
    using sscanf_words [OF assms(2), of "[]" "[]"] by simp
  show ?thesis
    unfolding parse_get_url_def sscanf_lits host path
    by (simp add: requested_port_def)
qed

lemma parse_get_url_port_text:
  assumes "url_host h" "req_word (CHR ''/'' # p)" "in_int32 port"
  shows "parse_get_url (''http://'' @ h @ '':'' @ show_int port @ CHR ''/'' # p) = Url h port (CHR ''/'' # p)"
proof -
  have host: "sscanf (NotIn '':/'' 1024 # fs) (h @ '':'' @ show_int port @ CHR ''/'' # p) =
      apfst (Cons (VStr h)) (sscanf fs ('':'' @ show_int port @ CHR ''/'' # p))" for fs
    using assms(1) by (intro sscanf_NotIn_word) (auto simp: url_host_def req_word_def)
  have path: "sscanf [Str 1024] (CHR ''/'' # p) = ([VStr (CHR ''/'' # p)], Done [])"
    using sscanf_words [OF assms(2), of "[]" "[]"] by simp
  have port: "sscanf (Dec # fs) (show_int port @ CHR ''/'' # p) =
      apfst (Cons (VInt port)) (sscanf fs (CHR ''/'' # p))" for fs
    by (rule sscanf_Dec_text) (simp_all add: assms is_digit_def)
  show ?thesis
    unfolding parse_get_url_def sscanf_lits host
    by (simp add: port path)
qed

lemma shrinks_parts:
  "shrinks (relay beyond s c)"
  "(\<And>fds. shrinks (abandon fds)) \<Longrightarrow> (\<And>fd. shrinks (k fd)) \<Longrightarrow> shrinks (dial host service abandon k)"
  "(\<And>fds. shrinks (abandon fds)) \<Longrightarrow> shrinks k' \<Longrightarrow>
   shrinks (send_request resource version buffer fd abandon k')"
  "(\<And>x. shrinks (g x)) \<Longrightarrow> shrinks (with_logstring format g)"
  unfolding relay_def relay_rest_def relay_chunk_def dial_def send_request_def with_logstring_def
    Let_def
  by (auto intro!: shrinks_intros split: option.split sum.split)

lemma and_0xff: "(x :: nat) AND 0xff = x mod 256"
proof -
  have "x AND mask 8 = take_bit 8 x" by (simp add: take_bit_eq_mask)
  then show ?thesis by (simp add: mask_eq_exp_minus_1 take_bit_eq_mod)
qed

section \<open>Properties\<close>

text \<open>
  C9. The request sent to the server is the client's with the first line replaced by
  \<open>GET resource version\<close> and the first \<open>Connection: keep-alive\<close> header replaced by
  \<open>Connection: close\<close>; but when the request has no such header, it is what follows the first
  line of the client's request, without any request line.  A request without a newline, or one
  that no longer fits in 10000 bytes, is undefined behaviour.
\<close>

theorem rewrite_request_spec:
  "case rewrite_request resource version buffer of
     Inl why \<Rightarrow> LF \<notin> set buffer \<or>
       (\<exists>l before after. buffer = l @ [LF] @ before @ keep_alive @ after \<and>
          10000 \<le> length (request_line resource version @ before @ conn_close @ after))
   | Inr q \<Rightarrow> \<exists>l rest. buffer = l @ [LF] @ rest \<and> LF \<notin> set l \<and>
       ((\<exists>before after. rest = before @ keep_alive @ after \<and>
          (\<forall>a b. before = a @ b \<and> b \<noteq> [] \<longrightarrow> \<not> prefix_of keep_alive (b @ keep_alive @ after)) \<and>
          q = request_line resource version @ before @ conn_close @ after \<and> length q < 10000) \<or>
        ((\<forall>a b. rest = a @ b \<longrightarrow> \<not> prefix_of keep_alive b) \<and> q = rest))"
proof (cases "strchr buffer LF")
  case None
  moreover from None have "LF \<notin> set buffer" by (simp add: strchr_None_iff)
  ultimately show ?thesis by (simp add: rewrite_request_def)
next
  case (Some nl)
  then obtain l rest where l: "buffer = l @ [LF] @ rest" "nl = LF # rest" "LF \<notin> set l"
    by (auto dest: strchr_Some)
  show ?thesis
  proof (cases "strstr rest keep_alive")
    case None
    with Some l strstr_None [OF None] show ?thesis
      by (auto simp: rewrite_request_def)
  next
    case h: (Some header)
    then obtain before after where b: "rest = before @ keep_alive @ after" "header = keep_alive @ after"
      by (auto dest: strstr_Some)
    have first: "\<not> prefix_of keep_alive (y @ keep_alive @ after)" if "before = x @ y" "y \<noteq> []" for x y
      using strstr_first [OF h, of x "y @ keep_alive @ after"] b that by simp
    let ?q = "request_line resource version @ before @ conn_close @ after"
    from Some l h b have rw: "rewrite_request resource version buffer =
        (if length ?q < 10000 then Inr ?q else Inl ''request overflows'')"
      by (simp add: rewrite_request_def Let_def)
    show ?thesis
    proof (cases "length ?q < 10000")
      case True
      have "\<exists>before after. rest = before @ keep_alive @ after \<and>
          (\<forall>a b. before = a @ b \<and> b \<noteq> [] \<longrightarrow> \<not> prefix_of keep_alive (b @ keep_alive @ after)) \<and>
          ?q = request_line resource version @ before @ conn_close @ after \<and> length ?q < 10000"
        using b(1) first True by blast
      with True rw l(1,3) show ?thesis by auto
    next
      case False
      with rw have "rewrite_request resource version buffer = Inl ''request overflows''" by simp
      moreover from False l(1) b(1)
      have "\<exists>l before after. buffer = l @ [LF] @ before @ keep_alive @ after \<and>
          10000 \<le> length (request_line resource version @ before @ conn_close @ after)"
        by (intro exI [of _ l] exI [of _ before] exI [of _ after]) simp
      ultimately show ?thesis by simp
    qed
  qed
qed

theorem rewrite_request_spec_witness:
  "rewrite_request ''/'' ''HTTP/1.1'' (''GET http://h/ HTTP/1.1'' @ crlf @ ''Host: h'' @ crlf @ crlf)
     = Inr (''Host: h'' @ crlf @ crlf)"
proof -
  let ?b = "''GET http://h/ HTTP/1.1'' @ crlf @ ''Host: h'' @ crlf @ crlf"
  have "rewrite_request ''/'' ''HTTP/1.1'' ?b = Inr (''Host: h'' @ crlf @ crlf)"
    by (simp add: eval_simps)
  with rewrite_request_spec [of "''/''" "''HTTP/1.1''" ?b] show ?thesis by simp
qed

text \<open>
  C3. The relay hands to the client exactly the bytes it read from the server, in order, and
  opens and closes nothing.  The total it returns is their number in 32 bits, or one less when
  a read failed.  It never ends the process, but it may fault.
\<close>

theorem relay_in_order:
  "case relay beyond server_fd client_fd w of
     Ret tot w' \<Rightarrow> \<exists>t. trace w' = trace w @ t \<and>
       bytes_offered client_fd t = bytes_read server_fd t \<and> opened t = [] \<and> closed t = [] \<and>
       (tot = to_int32 (int (length (bytes_read server_fd t))) \<or>
        (\<exists>n r. Sys (CRead server_fd n) r \<in> set t \<and> rv r < 0 \<and>
           tot = to_int32 (int (length (bytes_read server_fd t)) - 1)))
   | Stop s w' \<Rightarrow> (\<exists>k. s = Blocked k) \<or> (\<exists>f. s = Fault f)"
  using wpt_case [OF relay_law [of beyond server_fd client_fd "[]"], of w]
  by (fastforce simp: relay_post_def counted_def relayed_def read_failed_def
      faults_or_blocks_def split: result.splits)

text \<open>
  A first read that delivers fewer than 1024 bytes is taken for the whole response: the
  relay returns after this one read, whatever the server still has to send.
\<close>

theorem relay_short_first_read:
  assumes "script w = r # a # rest" "0 \<le> rv r" "length (dat r) < 1024"
  shows "\<exists>w'. relay beyond server_fd client_fd w = Ret (int (length (dat r))) w' \<and>
    script w' = rest \<and> bytes_read server_fd (trace w') = bytes_read server_fd (trace w) @ dat r"
  using assms
  by (simp add: relay_def bnd_def c_read_def c_write_def sysi_def call_def Let_def to_int32_id')

theorem relay_short_first_read_witness:
  "\<exists>w'. relay [] 5 4 (world0 [got_bytes ''HTTP/1.1 200 OK'', took 15, got_bytes ''body''])
      = Ret 15 w' \<and> script w' = [got_bytes ''body'']"
  using relay_short_first_read [of "world0 [got_bytes ''HTTP/1.1 200 OK'', took 15, got_bytes ''body'']"
      "got_bytes ''HTTP/1.1 200 OK''" "took 15" "[got_bytes ''body'']" "[]" 5 4]
  by (auto simp: world0_def got_bytes_def)

text \<open>
  The log entry shows the address of the client as its four bytes in decimal, in network
  order, followed by the URI and the size.
\<close>

theorem log_entry_address:
  "format_log_entry time_str [b0, b1, b2, b3] uri sz =
     time_str @ '': '' @ show_nat (of_char b0) @ ''.'' @ show_nat (of_char b1) @ ''.'' @
     show_nat (of_char b2) @ ''.'' @ show_nat (of_char b3) @ '' '' @ uri @ '' '' @ show_int sz @ [LF]"
proof -
  let ?n = "\<lambda>c. of_char c :: nat"
  have lt: "?n c < 256" for c by (rule nat_of_char_less_256)
  let ?h = "((?n b0 * 256 + ?n b1) * 256 + ?n b2) * 256 + ?n b3"
  have step: "(x * 256 + ?n c) div 256 = x" for x c using lt [of c] by simp
  have step_mod: "(x * 256 + ?n c) mod 256 = ?n c" for x c
    by (metis mod_mult_self3 of_char_mod_256)
  have div: "?h div 256 = (?n b0 * 256 + ?n b1) * 256 + ?n b2" by (rule step)
  then have "?h div (256 * 256) = ?n b0 * 256 + ?n b1"
    by (subst div_mult2_eq) (simp only: step)
  moreover from div have "?h div (256 * (256 * 256)) = ?n b0"
    by (subst div_mult2_eq, subst div_mult2_eq) (simp only: step)
  ultimately have div: "?h div 256 = (?n b0 * 256 + ?n b1) * 256 + ?n b2"
    "?h div 65536 = ?n b0 * 256 + ?n b1" "?h div 16777216 = ?n b0"
    using div by simp_all
  have quad: "drop_bit 24 h mod 256 = ?n b0 \<and> drop_bit 16 h AND 0xff = ?n b1 \<and>
      drop_bit 8 h AND 0xff = ?n b2 \<and> h AND 0xff = ?n b3"
    if "h div 256 = (?n b0 * 256 + ?n b1) * 256 + ?n b2" "h div 65536 = ?n b0 * 256 + ?n b1"
      "h div 16777216 = ?n b0" "h mod 256 = ?n b3" for h
    unfolding and_0xff using that by (simp add: drop_bit_eq_div step_mod del: distrib_right_numeral)
  have "?h mod 256 = ?n b3" by (rule step_mod)
  from quad [OF div this] show ?thesis
    by (simp add: format_log_entry_def dotted_def ntohl_def Let_def)
qed

text \<open>
  C1. A well-formed request of a browser is understood and rewritten as intended: method, URL
  and version are the words of the first line, the URL is taken apart into host and path, and
  the request for the server is in origin form, with the connection header replaced; none of
  the arrays overflows.
\<close>

theorem get_request_forwarded:
  assumes "url_host h" "req_word (''http://'' @ h @ CHR ''/'' # p)" "req_word ver"
    and "buffer = ''GET http://'' @ h @ (CHR ''/'' # p) @ '' '' @ ver @ crlf @ before @ keep_alive @ after"
    and "\<And>x y. before = x @ y \<Longrightarrow> y \<noteq> [] \<Longrightarrow> \<not> prefix_of keep_alive (y @ keep_alive @ after)"
    and "length buffer < 10000"
  shows "parse_request buffer = Some (Some ''GET'', Some (''http://'' @ h @ CHR ''/'' # p), Some ver) \<and>
    parse_get_url (''http://'' @ h @ CHR ''/'' # p) = Url h 80 (CHR ''/'' # p) \<and>
    rewrite_request (CHR ''/'' # p) ver buffer =
      Inr (''GET '' @ (CHR ''/'' # p) @ '' '' @ ver @ crlf @ before @ conn_close @ after)"
proof (intro conjI)
  have get: "req_word ''GET''" by (simp add: req_word_def is_space_def)
  have "buffer = ''GET'' @ '' '' @ (''http://'' @ h @ CHR ''/'' # p) @ '' '' @ ver @ crlf
      @ before @ keep_alive @ after"
    by (simp add: assms(4))
  with parse_request_text [OF get assms(2,3)]
  show "parse_request buffer = Some (Some ''GET'', Some (''http://'' @ h @ CHR ''/'' # p), Some ver)"
    by simp
  have path: "req_word (CHR ''/'' # p)" using assms(2) by (auto simp: req_word_def)
  from parse_get_url_text [OF assms(1) path]
  show "parse_get_url (''http://'' @ h @ CHR ''/'' # p) = Url h 80 (CHR ''/'' # p)" .
  let ?line = "''GET http://'' @ h @ (CHR ''/'' # p) @ '' '' @ ver @ [CR]"
  have "LF \<notin> set ?line"
    using assms(2,3) space_char(3) by (force simp: req_word_def)
  from strchr_append [OF this, of "before @ keep_alive @ after"]
  have nl: "strchr buffer LF = Some (LF # before @ keep_alive @ after)"
    by (simp add: assms(4) crlf_def)
  have header: "strstr (before @ keep_alive @ after) keep_alive = Some (keep_alive @ after)"
    by (rule strstr_eq_SomeI) (rule assms(5))
  have "length conn_close \<le> length keep_alive" by (simp add: conn_close_def keep_alive_def)
  with assms(4,6)
  have "length (''GET '' @ (CHR ''/'' # p) @ '' '' @ ver @ crlf @ before @ conn_close @ after) < 10000"
    by simp
  then show "rewrite_request (CHR ''/'' # p) ver buffer =
      Inr (''GET '' @ (CHR ''/'' # p) @ '' '' @ ver @ crlf @ before @ conn_close @ after)"
    unfolding rewrite_request_def nl by (simp add: header request_line_def)
qed

theorem get_request_forwarded_witness:
  "rewrite_request ''/a'' ''HTTP/1.1''
      (''GET http://h/a HTTP/1.1'' @ crlf @ ''Host: h'' @ crlf @ keep_alive @ crlf)
    = Inr (''GET /a HTTP/1.1'' @ crlf @ ''Host: h'' @ crlf @ conn_close @ crlf)"
proof -
  have word: "req_word ''http://h/a''" "req_word ''HTTP/1.1''" "url_host ''h''"
    by (simp_all add: req_word_def url_host_def is_space_def)
  have "\<not> prefix_of keep_alive (y @ keep_alive @ crlf)" if "''Host: h'' @ crlf = x @ y" "y \<noteq> []" for x y
    using that by (auto simp: crlf_def keep_alive_def Cons_eq_append_conv)
  from get_request_forwarded [of "''h''" "''a''" "''HTTP/1.1''"
      "''GET http://h/a HTTP/1.1'' @ crlf @ ''Host: h'' @ crlf @ keep_alive @ crlf"
      "''Host: h'' @ crlf" "crlf"] word this
  show ?thesis by (simp add: crlf_def keep_alive_def)
qed

end
