(* ===== verification/Seq_Proxy.thy ===== *)
theory Seq_Proxy
  imports Http_Proxy
begin

text \<open>
  The sequential proxy, \<^verbatim>\<open>src/Assignment2/jwh139-proxy/proxy.c\<close>: it accepts one connection at
  a time, sends the request on, relays the response and writes a line to \<^verbatim>\<open>logfile.txt\<close>.
  Every failure, also of a single request, ends the process.
\<close>

section \<open>The program\<close>

definition seq_bail :: "int list \<Rightarrow> 'a io" where
  "seq_bail fds = seqs (map c_close fds) (c_exit EXIT_FAILURE)"

definition seq_log :: "int \<Rightarrow> int \<Rightarrow> bytes \<Rightarrow> string \<Rightarrow> int \<Rightarrow> 'a io \<Rightarrow> 'a io" where
  "seq_log proxy_fd client_fd client_address url tot k =
     bnd (sysi (CFopen ''logfile.txt'' ''a+'')) (\<lambda>log_fp.
     if log_fp = 0 then thn (c_perror ''error opening log file'') (seq_bail [client_fd, proxy_fd])
     else
       with_logstring (\<lambda>time_str. format_log_entry time_str client_address url tot) (\<lambda>logstring.
       seqs [act (AFputs log_fp logstring), act (AFclose log_fp), act AFree] k))"

definition seq_forward ::
  "bytes \<Rightarrow> int \<Rightarrow> int \<Rightarrow> bytes \<Rightarrow> string \<Rightarrow> string \<Rightarrow> string option \<Rightarrow> string \<Rightarrow> string \<Rightarrow> (unit + int) io" where
  "seq_forward beyond proxy_fd client_fd client_address buffer url version host resource =
     (let abandon = (\<lambda>fds. seq_bail ([client_fd, proxy_fd] @ fds)) in
      dial host ''http'' abandon (\<lambda>server_fd.
      send_request resource version buffer server_fd abandon (
      bnd (relay beyond server_fd client_fd) (\<lambda>tot.
      seq_log proxy_fd client_fd client_address url tot (
      seqs [c_print ''Response sent back to client.'', c_close client_fd] (go ()))))))"

definition seq_request :: "bytes \<Rightarrow> int \<Rightarrow> int \<Rightarrow> bytes \<Rightarrow> string \<Rightarrow> (unit + int) io" where
  "seq_request beyond proxy_fd client_fd client_address buffer =
     (case parse_request buffer of
        None \<Rightarrow> c_fault ''a word of the request overflows its array''
      | Some (method_word, url_word, version) \<Rightarrow>
          need method_word (\<lambda>method.
          if strncasecmp method ''GET'' 3 \<noteq> 0 then
            thn (c_eprint ''Not a GET request'') (seq_bail [client_fd, proxy_fd])
          else
            need url_word (\<lambda>url.
            case parse_get_url url of
              Url_too_long \<Rightarrow> c_fault ''a part of the url overflows its array''
            | Bad_url \<Rightarrow> thn (c_eprint ''Invalid url format'') (seq_bail [client_fd, proxy_fd])
            | Url host port resource \<Rightarrow>
                seq_forward beyond proxy_fd client_fd client_address buffer url version host resource)))"

definition seq_round :: "bytes \<Rightarrow> int \<Rightarrow> unit \<Rightarrow> (unit + int) io" where
  "seq_round beyond proxy_fd u =
     bnd (call (CAccept proxy_fd)) (\<lambda>acc.
     if rv acc < 0 then thn (c_perror ''accept failed'') (seq_bail [proxy_fd])
     else
       thn (c_print ''Connection established with client.'') (
       bnd (c_read (rv acc) 9999) (\<lambda>(read_bytes, b).
       if read_bytes \<le> 0 then
         thn (c_eprint ''read request from client failure'') (seq_bail [rv acc, proxy_fd])
       else
         thn (c_print ''Read request from client successfully.'')
           (seq_request beyond proxy_fd (rv acc) (dat acc) (cstr b)))))"

definition seq_main :: "bytes \<Rightarrow> string list \<Rightarrow> int io" where
  "seq_main beyond argv =
     (if length argv \<noteq> 2 then
        thn (c_eprint (''Usage: '' @ hd argv @ '' <port number>'')) (c_exit 0)
      else
        (let port = atoi (argv ! 1) in
         bnd (sysi (CSocket AF_INET SOCK_STREAM 0)) (\<lambda>proxy_fd.
         if proxy_fd < 0 then thn (c_perror ''socket failed'') (c_exit EXIT_FAILURE)
         else
           bnd (sysi (CBind proxy_fd (htons port))) (\<lambda>rc.
           if rc < 0 then thn (c_perror ''bind failed'') (seq_bail [proxy_fd])
           else
             bnd (sysi (CListen proxy_fd 1024)) (\<lambda>rc.
             if rc < 0 then thn (c_perror ''listen failed'') (seq_bail [proxy_fd])
             else repeat_io (seq_round beyond proxy_fd) ())))))"

section \<open>Laws\<close>

text \<open>
  How the process ends: with status 1 and the listening socket closed, at undefined behaviour,
  or not at all.
\<close>

definition seq_end :: "int \<Rightarrow> stop \<Rightarrow> entry list \<Rightarrow> bool" where
  "seq_end proxy_fd s t \<longleftrightarrow>
     faults_or_blocks s t \<or> (s = Exited 1 \<and> proxy_fd \<in> set (closed t))"

lemma seq_end_simps [simp]:
  "seq_end p (Blocked k) t" "seq_end p (Fault f) t"
  "seq_end p (Exited n) t \<longleftrightarrow> n = 1 \<and> p \<in> set (closed t)"
  by (auto simp: seq_end_def)

lemma seq_bail_law:
  "p \<in> set fds \<Longrightarrow> wpt (seq_bail fds) Q (seq_end p) t"
  unfolding seq_bail_def EXIT_FAILURE_def by (intro wpt_closes wpt_prims) simp

text \<open>A round that goes on: the client is closed, and the socket to the server is not.\<close>

definition served :: "entry list \<Rightarrow> entry list \<Rightarrow> bool" where
  "served t t' \<longleftrightarrow> (\<exists>client_fd server_fd.
     accepted t' = accepted t @ [client_fd] \<and> opened t' = opened t @ [server_fd] \<and>
     closed t' = closed t @ [client_fd])"

lemma seq_forward_law:
  assumes "accepted t' = accepted t @ [c]" "opened t' = opened t" "closed t' = closed t"
  shows "wpt (seq_forward beyond p c a b url ver host res)
     (\<lambda>x t''. x = Inl () \<and> served t t'') (seq_end p) t'"
proof -
  have log: "wpt (seq_log p c a url tot (thn (c_print m) (thn (c_close c) (go ()))))
      (\<lambda>x t''. x = Inl () \<and> served t t'') (seq_end p) t''"
    if "accepted t'' = accepted t @ [c]" "opened t'' = opened t @ [s]" "closed t'' = closed t"
    for t'' s tot m
    unfolding seq_log_def
    by (auto simp: served_def that intro!: wpt_intros wpt_with_logstring seq_bail_law)
  show ?thesis
    unfolding seq_forward_def Let_def
    by (auto intro!: wpt_dial wpt_send_request wpt_bnd wpt_conseq [OF relay_law] log seq_bail_law
        simp: relay_post_def counted_def relayed_def assms seq_end_def)
qed

lemma shrinks_seq_bail: "shrinks (seq_bail fds)"
  unfolding seq_bail_def by (auto intro!: shrinks_intros)

lemma seq_round_calls: "calls_each_round (seq_round beyond p)"
  unfolding seq_round_def seq_request_def seq_forward_def seq_log_def Let_def
  by (intro calls_first)
    (auto intro!: shrinks_intros shrinks_parts shrinks_seq_bail split: option.split url_parse.split)

lemma seq_round_law:
  "wpt (seq_round beyond p u) (\<lambda>x t'. x = Inl () \<and> served t t') (seq_end p) t"
  unfolding seq_round_def seq_request_def
  by (intro wpt_bnd wpt_call) (auto intro!: wpt_intros wpt_read seq_bail_law seq_forward_law
      split: option.split url_parse.split)

text \<open>The rounds so far: every accepted connection was served.\<close>

definition served_all :: "entry list \<Rightarrow> bool" where
  "served_all t \<longleftrightarrow> closed t = accepted t \<and> length (opened t) = length (accepted t)"

lemma seq_loop_law:
  assumes "served_all t"
  shows "wpt (repeat_io (seq_round beyond p) ()) (\<lambda>_ _. False) (seq_end p) t"
proof (rule wpt_repeat [where I = "\<lambda>_. served_all", OF seq_round_calls])
  fix s t assume "served_all t"
  then show "wpt (seq_round beyond p s) (\<lambda>x t'. case x of Inr b \<Rightarrow> False | Inl s' \<Rightarrow> served_all t')
      (seq_end p) t"
    by (auto intro!: wpt_conseq [OF seq_round_law] simp: served_all_def served_def)
qed (rule assms)

section \<open>Properties\<close>

text \<open>
  C27. A request that is served to the end closes the connection to the client once, and leaves
  the socket to the server open.  Every other request, however harmless its error, ends the
  whole proxy: with status 1 and the listening socket closed, or at undefined behaviour.
\<close>

theorem seq_round_serves_or_exits:
  "case seq_round beyond proxy_fd () w of
     Ret x w' \<Rightarrow> x = Inl () \<and> (\<exists>t client_fd server_fd. trace w' = trace w @ t \<and>
       accepted t = [client_fd] \<and> opened t = [server_fd] \<and> closed t = [client_fd])
   | Stop s w' \<Rightarrow> (\<exists>k. s = Blocked k) \<or> (\<exists>f. s = Fault f) \<or>
       (s = Exited 1 \<and> (\<exists>t. trace w' = trace w @ t \<and> proxy_fd \<in> set (closed t)))"
  using wpt_case [OF seq_round_law [of beyond proxy_fd "()" "[]"], of w]
  by (fastforce simp: served_def seq_end_def faults_or_blocks_def split: result.splits)

text \<open>
  The program never returns.  With a wrong number of arguments it prints the usage and
  exits with status 0, without a system call; otherwise it exits only with status 1.
\<close>

theorem seq_main_ends:
  "case seq_main beyond argv w of
     Ret x w' \<Rightarrow> False
   | Stop s w' \<Rightarrow>
       (if length argv \<noteq> 2 then s = Exited 0 \<and> script w' = script w
        else s = Exited 1 \<or> (\<exists>k. s = Blocked k) \<or> (\<exists>f. s = Fault f))"
proof (cases "length argv = 2")
  case False
  then show ?thesis by (simp add: seq_main_def eval_simps)
next
  case True
  have "wpt (seq_main beyond argv) (\<lambda>_ _. False)
      (\<lambda>s t. s = Exited 1 \<or> (\<exists>k. s = Blocked k) \<or> (\<exists>f. s = Fault f)) []"
    unfolding seq_main_def Let_def
    using True
    by (auto intro!: wpt_intros wpt_conseq [OF seq_loop_law] wpt_conseq [OF seq_bail_law]
        simp: EXIT_FAILURE_def seq_end_def faults_or_blocks_def served_all_def)
  from wpt_case [OF this, of w] True show ?thesis by (auto split: result.splits)
qed

end
