(* ===== verification/Conc_Proxy.thy ===== *)
theory Conc_Proxy
  imports Http_Proxy
begin

text \<open>
  The concurrent proxy, \<^verbatim>\<open>src/Assignment3/jwh139-concurrent-proxy/proxy.c\<close>.  A connection is
  handled by a thread (\<open>thread_handle\<close>) or by a child process (\<open>child_handle\<close>, the code in
  \<open>main\<close> after \<open>fork\<close>); both serve \<open>GET\<close>, like the sequential proxy, and \<open>CONNECT\<close>, which
  copies bytes both ways between client and server.

  The handler of one connection is a program of its own: the other threads and processes act
  on it only through the replies of the kernel.
\<close>

unbundle bit_operations_syntax

record clinfo =
  clifd :: int
  cliaddr :: bytes

section \<open>The tunnel of CONNECT\<close>

text \<open>
  The event bits of \<^verbatim>\<open>poll.h\<close>, and \<open>POLL_HUP\<close>, which is a \<open>si_code\<close> of \<^verbatim>\<open>signal.h\<close> and not an
  event bit.  Byte \<open>i\<close> of the data of the reply of \<open>poll\<close> is \<open>revents\<close> of entry \<open>i\<close>; \<open>poll\<close>
  reports only the events asked for, here \<open>POLLIN\<close>, and errors, hang-ups and invalid
  descriptors.
\<close>

definition POLLIN :: nat where "POLLIN = 0x01"
definition POLLERR :: nat where "POLLERR = 0x08"
definition POLLHUP :: nat where "POLLHUP = 0x10"
definition POLLNVAL :: nat where "POLLNVAL = 0x20"
definition POLL_HUP :: nat where "POLL_HUP = 6"

definition revents :: "reply \<Rightarrow> nat \<Rightarrow> nat" where
  "revents r i =
     (if i < length (dat r) then of_char (dat r ! i) else 0)
       AND (POLLIN OR POLLERR OR POLLHUP OR POLLNVAL)"

datatype side_end = Hung_up | Side_error

datatype tunnel_end = Finished int int | Poll_failed | Peer_error

text \<open>
  The body of the \<open>for\<close> loop: what is done for one of the two descriptors.  The totals are
  \<open>long\<close>s, of 64 bits.
\<close>

definition tunnel_side :: "string \<Rightarrow> nat \<Rightarrow> int \<Rightarrow> int \<Rightarrow> int \<Rightarrow> (int + side_end) io" where
  "tunnel_side peer ev from_fd to_fd tot =
     (if ev AND POLL_HUP \<noteq> 0 then thn (c_print (peer @ '': hung up.'')) (leave Hung_up)
      else if ev AND POLLERR \<noteq> 0 then thn (c_print (peer @ '': hung up.'')) (leave Side_error)
      else if ev AND POLLIN \<noteq> 0 then
        bnd (c_read from_fd 1024) (\<lambda>(sent_bytes, buffer).
        if sent_bytes > 0 then
          bnd (c_write to_fd buffer sent_bytes) (\<lambda>_. go (to_int64 (tot + sent_bytes)))
        else go tot)
      else go tot)"

definition tunnel_round :: "int \<Rightarrow> int \<Rightarrow> int \<times> int \<Rightarrow> (int \<times> int + tunnel_end) io" where
  "tunnel_round client_fd server_fd = (\<lambda>(tot0, tot1).
     bnd (call (CPoll [(client_fd, int POLLIN), (server_fd, int POLLIN)] 5000)) (\<lambda>r.
     if rv r = -1 then thn (c_perror ''poll'') (leave Poll_failed)
     else if rv r = 0 then
       thn (c_print ''Connection timed out, closing connection'') (leave (Finished tot0 tot1))
     else
       bnd (tunnel_side ''Client'' (revents r 0) client_fd server_fd tot0) (\<lambda>x.
       case x of
         Inr Hung_up \<Rightarrow> leave (Finished tot0 tot1)
       | Inr Side_error \<Rightarrow> leave Peer_error
       | Inl tot0' \<Rightarrow>
           bnd (tunnel_side ''Server'' (revents r 1) server_fd client_fd tot1) (\<lambda>y.
           case y of
             Inr Hung_up \<Rightarrow> leave (Finished tot0' tot1)
           | Inr Side_error \<Rightarrow> leave Peer_error
           | Inl tot1' \<Rightarrow> go (tot0', tot1')))))"

definition established :: string where
  "established = ''HTTP/1.1 200 Connection Established'' @ crlf @ crlf"

definition tunnel :: "int \<Rightarrow> int \<Rightarrow> tunnel_end io" where
  "tunnel client_fd server_fd =
     bnd (c_write client_fd established (int (length established))) (\<lambda>_.
     thn (c_print ''Response sent back to client.'')
       (repeat_io (tunnel_round client_fd server_fd) (0, 0)))"

text \<open>The totals are \<open>long\<close>s, and become \<open>int\<close>s as arguments of \<open>format_connect_entry\<close>.\<close>

definition format_connect_entry :: "string \<Rightarrow> bytes \<Rightarrow> string \<Rightarrow> int \<Rightarrow> int \<Rightarrow> string" where
  "format_connect_entry time_str addr uri sent recv =
     time_str @ '' CONNECT from '' @ dotted addr @ '' to '' @ uri @ '', Data Transferred '' @
     show_int sent @ ''/'' @ show_int recv @ [LF]"

section \<open>The thread of a connection\<close>

definition thread_quit :: "int list \<Rightarrow> unit io" where
  "thread_quit fds = seqs (map c_close fds) (ret ())"

text \<open>
  The stream is buffered: \<open>fprintf\<close> fills the buffer, and \<open>fclose\<close>, after the mutex has been
  released, writes it to the file.
\<close>

definition thread_log :: "int \<Rightarrow> (string \<Rightarrow> string) \<Rightarrow> unit io \<Rightarrow> unit io" where
  "thread_log client_fd format k =
     bnd (sysi (CFopen ''proxy.log'' ''a+'')) (\<lambda>log_fp.
     if log_fp = 0 then thn (c_perror ''error opening log file'') (thread_quit [client_fd])
     else
       thn (act (ALock ''log_mutex'')) (
       with_logstring format (\<lambda>logstring.
       seqs [act (AFputs log_fp logstring), act AFree, act (AUnlock ''log_mutex''),
         act (AFclose log_fp)] k)))"

definition thread_get :: "bytes \<Rightarrow> int \<Rightarrow> bytes \<Rightarrow> string \<Rightarrow> string \<Rightarrow> string option \<Rightarrow> unit io" where
  "thread_get beyond client_fd client_address buffer url version =
     (let abandon = (\<lambda>fds. thread_quit ([client_fd] @ fds)) in
      case parse_get_url url of
        Url_too_long \<Rightarrow> c_fault ''a part of the url overflows its array''
      | Bad_url \<Rightarrow> thn (c_eprint ''Invalid url format'') (abandon [])
      | Url host port resource \<Rightarrow>
          dial host ''http'' abandon (\<lambda>server_fd.
          send_request resource version buffer server_fd abandon (
          bnd (relay beyond server_fd client_fd) (\<lambda>tot.
          thread_log client_fd (\<lambda>time_str. format_log_entry time_str client_address url tot) (
          thn (c_print ''Response sent back to client.'') (
          seqs [c_close server_fd, c_close client_fd] (ret ())))))))"

definition thread_connect :: "int \<Rightarrow> bytes \<Rightarrow> string \<Rightarrow> unit io" where
  "thread_connect client_fd client_address url =
     (let abandon = (\<lambda>fds. thread_quit ([client_fd] @ fds)) in
      case parse_connect_url url of
        Url_too_long \<Rightarrow> c_fault ''a part of the url overflows its array''
      | Bad_url \<Rightarrow> thn (c_eprint ''Invalid url format'') (abandon [])
      | Url host port resource \<Rightarrow>
          dial host ''https'' abandon (\<lambda>server_fd.
          bnd (tunnel client_fd server_fd) (\<lambda>e.
          case e of
            Poll_failed \<Rightarrow> thread_quit [client_fd, server_fd]
          | Peer_error \<Rightarrow> thread_quit [server_fd, client_fd]
          | Finished tot0 tot1 \<Rightarrow>
              thread_log client_fd
                (\<lambda>time_str. format_connect_entry time_str client_address url (to_int32 tot0) (to_int32 tot1))
                (seqs [c_close server_fd, c_close client_fd] (ret ())))))"

definition thread_handle :: "bytes \<Rightarrow> clinfo \<Rightarrow> unit io" where
  "thread_handle beyond client =
     (let client_fd = clifd client; client_address = cliaddr client in
      bnd (c_read client_fd 9999) (\<lambda>(read_bytes, b).
      if read_bytes \<le> 0 then
        thn (c_eprint ''Read request from client failure'') (thread_quit [client_fd])
      else
        (let buffer = cstr b in
         seqs [c_print ''Read request from client successfully.'', c_print buffer] (
         case parse_request buffer of
           None \<Rightarrow> c_fault ''a word of the request overflows its array''
         | Some (method_word, url_word, version) \<Rightarrow>
             need method_word (\<lambda>method.
             if strncasecmp method ''GET'' 3 = 0 then
               need url_word (\<lambda>url. thread_get beyond client_fd client_address buffer url version)
             else if strncasecmp method ''CONNECT'' 7 = 0 then
               need url_word (\<lambda>url. thread_connect client_fd client_address url)
             else
               thn (c_eprint ''Not a GET and CONNECT request'') (thread_quit [client_fd]))))))"

section \<open>The child process of a connection\<close>

definition child_quit :: "int list \<Rightarrow> 'a io" where
  "child_quit fds = seqs (map c_close fds) (c_exit EXIT_FAILURE)"

text \<open>
  The log file must exist: it is opened without \<open>O_CREAT\<close>.  The entry is written at the end of
  the file under a lock on the file.
\<close>

definition child_log :: "int \<Rightarrow> int \<Rightarrow> (string \<Rightarrow> string) \<Rightarrow> 'a io \<Rightarrow> 'a io" where
  "child_log proxy_fd client_fd format k =
     bnd (sysi (COpen ''proxy.log'' O_WRONLY)) (\<lambda>log_fd.
     if log_fd < 0 then
       thn (c_perror ''error opening log file'') (child_quit [client_fd, proxy_fd])
     else
       thn (act (AFcntlLock log_fd F_WRLCK)) (
       with_logstring format (\<lambda>logstring.
       thn (act (ALseekEnd log_fd)) (
       bnd (c_write log_fd logstring (int (length logstring))) (\<lambda>_.
       seqs [act AFree, act (AFcntlLock log_fd F_UNLCK), c_close log_fd] k)))))"

text \<open>After a \<open>GET\<close> the child does not exit: it returns to the loop of \<open>main\<close>.\<close>

definition child_get ::
  "bytes \<Rightarrow> int \<Rightarrow> int \<Rightarrow> bytes \<Rightarrow> string \<Rightarrow> string \<Rightarrow> string option \<Rightarrow> unit io" where
  "child_get beyond proxy_fd client_fd client_address buffer url version =
     (let abandon = (\<lambda>fds. child_quit ([client_fd, proxy_fd] @ fds)) in
      case parse_get_url url of
        Url_too_long \<Rightarrow> c_fault ''a part of the url overflows its array''
      | Bad_url \<Rightarrow> thn (c_eprint ''Invalid url format'') (abandon [])
      | Url host port resource \<Rightarrow>
          dial host ''http'' abandon (\<lambda>server_fd.
          send_request resource version buffer server_fd abandon (
          bnd (relay beyond server_fd client_fd) (\<lambda>tot.
          child_log proxy_fd client_fd
            (\<lambda>time_str. format_log_entry time_str client_address url tot)
            (c_print ''Response sent back to client.'')))))"

definition child_connect :: "int \<Rightarrow> int \<Rightarrow> bytes \<Rightarrow> string \<Rightarrow> unit io" where
  "child_connect proxy_fd client_fd client_address url =
     (let abandon = (\<lambda>fds. child_quit ([client_fd, proxy_fd] @ fds)) in
      case parse_connect_url url of
        Url_too_long \<Rightarrow> c_fault ''a part of the url overflows its array''
      | Bad_url \<Rightarrow> thn (c_eprint ''Invalid url format'') (abandon [])
      | Url host port resource \<Rightarrow>
          dial host ''https'' abandon (\<lambda>server_fd.
          bnd (tunnel client_fd server_fd) (\<lambda>e.
          case e of
            Poll_failed \<Rightarrow> child_quit [client_fd, proxy_fd, server_fd]
          | Peer_error \<Rightarrow> child_quit [server_fd, client_fd, proxy_fd]
          | Finished tot0 tot1 \<Rightarrow>
              child_log proxy_fd client_fd
                (\<lambda>time_str. format_connect_entry time_str client_address url (to_int32 tot0) (to_int32 tot1))
                (seqs [c_close server_fd, c_close client_fd, c_close proxy_fd]
                  (c_exit EXIT_SUCCESS)))))"

definition child_handle :: "bytes \<Rightarrow> int \<Rightarrow> int \<Rightarrow> bytes \<Rightarrow> unit io" where
  "child_handle beyond proxy_fd client_fd client_address =
     bnd (c_read client_fd 9999) (\<lambda>(read_bytes, b).
     if read_bytes \<le> 0 then
       thn (c_eprint ''read request from client failure'') (child_quit [client_fd, proxy_fd])
     else
       (let buffer = cstr b in
        seqs [c_print ''Read request from client successfully.'', c_print buffer] (
        case parse_request buffer of
          None \<Rightarrow> c_fault ''a word of the request overflows its array''
        | Some (method_word, url_word, version) \<Rightarrow>
            need method_word (\<lambda>method.
            if strncasecmp method ''GET'' 3 = 0 then
              need url_word (\<lambda>url.
                child_get beyond proxy_fd client_fd client_address buffer url version)
            else if strncasecmp method ''CONNECT'' 7 = 0 then
              need url_word (\<lambda>url. child_connect proxy_fd client_fd client_address url)
            else
              thn (c_eprint ''Not a GET or CONNECT request'')
                (child_quit [client_fd, proxy_fd])))))"

section \<open>The main program\<close>

definition proxy_options :: optspec where
  "proxy_options =
     \<lparr>shorts = [(CHR ''p'', False), (CHR ''t'', False)],
      longs = [(''process'', False, CHR ''p''), (''thread'', False, CHR ''t'')]\<rparr>"

definition proxy_usage :: "string \<Rightarrow> (string \<Rightarrow> unit io) \<Rightarrow> int \<Rightarrow> 'a io" where
  "proxy_usage program_name stream exit_code =
     seqs [stream (''Usage: '' @ program_name
             @ '' [-p | --process | -s | --systemcalls] <port number>'' @ [LF]),
           stream (''  -h --help            Display this usage information.'' @ [LF]
             @ ''  -s --systemcalls     Switch to the system calls implementation.'' @ [LF])]
       (c_exit exit_code)"

fun proxy_read_options :: "string \<Rightarrow> opt list \<Rightarrow> bool \<Rightarrow> bool io" where
  "proxy_read_options program_name [] thread_flag = ret thread_flag"
| "proxy_read_options program_name (Bad_opt # os) thread_flag = proxy_usage program_name c_eprint 1"
| "proxy_read_options program_name (Opt c arg # os) thread_flag =
     (if c = CHR ''p'' then proxy_read_options program_name os thread_flag
      else if c = CHR ''t'' then proxy_read_options program_name os True
      else c_abort)"

text \<open>\<open>while (waitpid(-1, NULL, WNOHANG) > 0);\<close> reaps the children that have terminated.\<close>

definition reap_children :: "unit io" where
  "reap_children =
     repeat_io (\<lambda>u. bnd (sysi (CWaitpid (-1) WNOHANG)) (\<lambda>pid.
       if pid > 0 then go () else leave ())) ()"

text \<open>
  A round of the accept loop.  \<open>pthread_create\<close> starts \<open>thread_handle\<close> (its result is not
  looked at; \<open>er\<close> is the thread identifier it stored).  After \<open>fork\<close> the same code runs in
  the parent, where the reply is positive, and in the child, where it is 0.
\<close>

definition conc_round :: "bytes \<Rightarrow> int \<Rightarrow> bool \<Rightarrow> unit \<Rightarrow> (unit + int) io" where
  "conc_round beyond proxy_fd thread_flag u =
     bnd (call (CAccept proxy_fd)) (\<lambda>acc.
     if rv acc < 0 then
       thn (c_perror ''accept failed'') (thn (c_close proxy_fd) (c_exit EXIT_FAILURE))
     else
       thn reap_children (
       thn (c_print ''Connection established with client.'') (
       if thread_flag then
         bnd (call (CPthreadCreate ''thread_handle'')) (\<lambda>t.
         seqs [c_print (''New thread created from main(): tid = '' @ show_int (er t)),
               act (ADetach (er t))] (go ()))
       else
         bnd (sysi CFork) (\<lambda>pid.
         if pid < 0 then thn (c_perror ''Fork failure'') (c_exit EXIT_FAILURE)
         else
           thn (if pid = 0 then child_handle beyond proxy_fd (rv acc) (dat acc) else ret ())
             (thn (c_close (rv acc)) (go ()))))))"

definition conc_main :: "bytes \<Rightarrow> string list \<Rightarrow> int io" where
  "conc_main beyond argv =
     (let program_name = hd argv;
          (os, used, operands) = getopt proxy_options (tl argv) in
      bnd (proxy_read_options program_name os False) (\<lambda>thread_flag.
      if operands = [] then proxy_usage program_name c_eprint 1
      else
        thn (c_print (''Using '' @ (if thread_flag then ''thread'' else ''process'') @ '' implementation''))
          (let port = atoi (hd operands) in
           bnd (sysi (CSocket AF_INET SOCK_STREAM 0)) (\<lambda>proxy_fd.
           if proxy_fd < 0 then thn (c_perror ''socket failed'') (c_exit EXIT_FAILURE)
           else
             bnd (sysi (CBind proxy_fd (htons port))) (\<lambda>rc.
             if rc < 0 then
               thn (c_perror ''bind failed'') (thn (c_close proxy_fd) (c_exit EXIT_FAILURE))
             else
               bnd (sysi (CListen proxy_fd 1024)) (\<lambda>rc.
               if rc < 0 then
                 thn (c_perror ''listen failed'') (thn (c_close proxy_fd) (c_exit EXIT_FAILURE))
               else repeat_io (conc_round beyond proxy_fd thread_flag) ()))))))"

section \<open>Laws of the tunnel\<close>

text \<open>
  The state of the tunnel: from the trace \<open>t\<close> on, \<open>x\<close> went from the client to the server and
  \<open>y\<close> the other way, and the totals are their lengths; no \<open>poll\<close> has timed out.
\<close>

definition tunnelled :: "int \<Rightarrow> int \<Rightarrow> entry list \<Rightarrow> int \<times> int \<Rightarrow> entry list \<Rightarrow> bool" where
  "tunnelled c s t tots t' \<longleftrightarrow>
     opened t' = opened t \<and> closed t' = closed t \<and> accepted t' = accepted t \<and>
     log_events t' = log_events t \<and>
     (c \<noteq> s \<longrightarrow> (\<exists>x y.
        bytes_read c t' = bytes_read c t @ x \<and> bytes_offered s t' = bytes_offered s t @ x \<and>
        bytes_read s t' = bytes_read s t @ y \<and> bytes_offered c t' = bytes_offered c t @ y \<and>
        tots = (to_int64 (int (length x)), to_int64 (int (length y)))))"

lemma tunnelled_refl: "tunnelled c s t (0, 0) t"
  by (simp add: tunnelled_def to_int64_def)

lemma tunnelled_quiet:
  "tunnelled c s t tots t' \<Longrightarrow> quiet u \<Longrightarrow> opened u = [] \<Longrightarrow> log_events u = [] \<Longrightarrow>
   tunnelled c s t tots (t' @ u)"
  by (simp add: tunnelled_def)

text \<open>What one side does: nothing, or bytes read on one descriptor and offered to the other.\<close>

definition moved :: "int \<Rightarrow> int \<Rightarrow> int \<Rightarrow> int \<Rightarrow> entry list \<Rightarrow> bool" where
  "moved from_fd to_fd tot tot' u \<longleftrightarrow> (quiet u \<and> opened u = [] \<and> log_events u = [] \<and> tot' = tot) \<or>
     (\<exists>r r'. u = [Sys (CRead from_fd 1024) r, Sys (CWrite to_fd (dat r)) r'] \<and>
        tot' = to_int64 (tot + int (length (dat r))))"

lemma tunnelled_moved_client:
  "tunnelled c s t (a, b) t' \<Longrightarrow> moved c s a a' u \<Longrightarrow> tunnelled c s t (a', b) (t' @ u)"
  by (auto simp: moved_def tunnelled_def to_int64_add_left)

lemma tunnelled_moved_server:
  "tunnelled c s t (a, b) t' \<Longrightarrow> moved s c b b' u \<Longrightarrow> tunnelled c s t (a, b') (t' @ u)"
  by (auto simp: moved_def tunnelled_def to_int64_add_left)

lemma tunnel_side_law:
  "wpt (tunnel_side peer ev from_fd to_fd tot)
     (\<lambda>x u. case x of
        Inl tot' \<Rightarrow> moved from_fd to_fd tot tot' u
      | Inr Hung_up \<Rightarrow> quiet u \<and> opened u = [] \<and> log_events u = [] \<and> ev AND POLL_HUP \<noteq> 0
      | Inr Side_error \<Rightarrow> quiet u \<and> opened u = [] \<and> log_events u = [])
     (\<lambda>s u. \<exists>k. s = Blocked k) []"
  unfolding tunnel_side_def
  by (auto intro!: wpt_intros wpt_read wpt_write simp: moved_def quiet_def)

text \<open>\<open>POLL_HUP\<close> has no bit in common with the events that \<open>poll\<close> can report here.\<close>

lemma revents_no_hup: "revents r i AND POLL_HUP = 0"
proof -
  have "(POLLIN OR POLLERR OR POLLHUP OR POLLNVAL) AND POLL_HUP = 0"
    by (simp add: POLLIN_def POLLERR_def POLLHUP_def POLLNVAL_def POLL_HUP_def)
  then show ?thesis by (simp add: revents_def and.assoc)
qed

text \<open>
  How the tunnel ends: regularly only when \<open>poll\<close> has timed out, and otherwise because \<open>poll\<close>
  failed or a descriptor is in error.
\<close>

definition tunnel_done :: "int \<Rightarrow> int \<Rightarrow> entry list \<Rightarrow> tunnel_end \<Rightarrow> entry list \<Rightarrow> bool" where
  "tunnel_done c s t e t' \<longleftrightarrow>
     (case e of
        Finished a b \<Rightarrow>
          (\<exists>t0 fds r m. t' = t0 @ [Sys (CPoll fds 5000) r, Act (AOut m)] \<and> rv r = 0 \<and>
             tunnelled c s t (a, b) t0)
      | _ \<Rightarrow> \<exists>tots. tunnelled c s t tots t')"

definition blocks :: "stop \<Rightarrow> entry list \<Rightarrow> bool" where
  "blocks s t \<longleftrightarrow> (\<exists>k. s = Blocked k)"

lemma blocks_simps [simp]: "blocks (Blocked k) t"
  by (simp add: blocks_def)

lemma blocks_faults: "blocks s t \<Longrightarrow> faults_or_blocks s t'"
  by (auto simp: blocks_def)

lemma tunnel_round_calls: "calls_each_round (tunnel_round c s)"
proof -
  have "shrinks (tunnel_side p ev f g tot)" for p ev f g tot
    unfolding tunnel_side_def by (intro shrinks_intros) (clarsimp, intro conjI impI shrinks_intros)
  then have "calls_each_round (\<lambda>st. tunnel_round c s st)"
    unfolding tunnel_round_def split_def
    by (intro calls_first) (auto intro!: shrinks_intros split: sum.split side_end.split)
  then show ?thesis by simp
qed

lemma tunnel_side_frame:
  assumes "\<And>u tot'. moved f g tot tot' u \<Longrightarrow> wpt (k (Inl tot')) Q blocks (t @ u)"
    and "\<And>u. quiet u \<Longrightarrow> opened u = [] \<Longrightarrow> log_events u = [] \<Longrightarrow>
      wpt (k (Inr Side_error)) Q blocks (t @ u)"
  shows "wpt (bnd (tunnel_side p (revents r i) f g tot) k) Q blocks t"
proof (rule wpt_bnd, rule wpt_frame [OF tunnel_side_law])
  fix x u
  assume "case x of Inl tot' \<Rightarrow> moved f g tot tot' u
      | Inr Hung_up \<Rightarrow> quiet u \<and> opened u = [] \<and> log_events u = [] \<and> revents r i AND POLL_HUP \<noteq> 0
      | Inr Side_error \<Rightarrow> quiet u \<and> opened u = [] \<and> log_events u = []"
  then show "wpt (k x) Q blocks (t @ u)"
    by (auto split: sum.splits side_end.splits simp: revents_no_hup intro: assms)
qed (auto simp: blocks_def)

lemma tunnel_round_law:
  assumes "tunnelled c s t tots t'"
  shows "wpt (tunnel_round c s tots)
      (\<lambda>x t''. case x of Inl tots' \<Rightarrow> tunnelled c s t tots' t'' | Inr e \<Rightarrow> tunnel_done c s t e t'')
      blocks t'"
proof (cases tots)
  case (Pair a b)
  note t = assms [unfolded Pair]
  show ?thesis
    unfolding tunnel_round_def Pair prod.case
  proof (rule wpt_bnd, rule wpt_call)
    fix r
    let ?r = "norm_reply (CPoll [(c, int POLLIN), (s, int POLLIN)] 5000) r"
    let ?t = "t' @ [Sys (CPoll [(c, int POLLIN), (s, int POLLIN)] 5000) ?r]"
    have t1: "tunnelled c s t (a, b) (?t @ u)"
      if "rv ?r \<noteq> 0" "quiet u" "opened u = []" "log_events u = []" for u
      using tunnelled_quiet [OF t, of "Sys (CPoll [(c, int POLLIN), (s, int POLLIN)] 5000) ?r # u"] that
      by simp
    have t2: "tunnelled c s t (a', b) (?t @ u)" if "rv ?r \<noteq> 0" "moved c s a a' u" for a' u
      using tunnelled_moved_client [OF t1 [of "[]"], of a' u] that by simp
    show "wpt (if rv ?r = -1 then thn (c_perror ''poll'') (leave Poll_failed)
       else if rv ?r = 0 then
         thn (c_print ''Connection timed out, closing connection'') (leave (Finished a b))
       else bnd (tunnel_side ''Client'' (revents ?r 0) c s a) (\<lambda>x.
         case x of
           Inl tot0' \<Rightarrow>
             bnd (tunnel_side ''Server'' (revents ?r 1) s c b) (\<lambda>y.
             case y of Inl tot1' \<Rightarrow> go (tot0', tot1') | Inr Hung_up \<Rightarrow> leave (Finished tot0' b)
             | Inr Side_error \<Rightarrow> leave Peer_error)
         | Inr Hung_up \<Rightarrow> leave (Finished a b) | Inr Side_error \<Rightarrow> leave Peer_error))
      (\<lambda>x t''. case x of Inl tots' \<Rightarrow> tunnelled c s t tots' t'' | Inr e \<Rightarrow> tunnel_done c s t e t'')
      blocks ?t"
    proof (intro wpt_if wpt_thn wpt_derived wpt_prims, goal_cases)
      case (1 e)
      then show ?case using t1 [of "[Act (APerror ''poll'' e)]"] by (auto simp: tunnel_done_def)
    next
      case 2
      with t show ?case by (auto simp: tunnel_done_def)
    next
      case 3
      show ?case
      proof (rule tunnel_side_frame)
        fix u a'
        assume m: "moved c s a a' u"
        note t2 = t2 [OF 3(2) m]
        show "wpt (case Inl a' of
           Inl tot0' \<Rightarrow>
             bnd (tunnel_side ''Server'' (revents ?r 1) s c b) (\<lambda>y.
             case y of Inl tot1' \<Rightarrow> go (tot0', tot1') | Inr Hung_up \<Rightarrow> leave (Finished tot0' b)
             | Inr Side_error \<Rightarrow> leave Peer_error)
         | Inr Hung_up \<Rightarrow> leave (Finished a b) | Inr Side_error \<Rightarrow> leave Peer_error)
           (\<lambda>x t''. case x of Inl tots' \<Rightarrow> tunnelled c s t tots' t'' | Inr e \<Rightarrow> tunnel_done c s t e t'')
           blocks (?t @ u)"
          using tunnelled_moved_server [OF t2] tunnelled_quiet [OF t2]
          by (fastforce intro!: tunnel_side_frame wpt_prims simp: tunnel_done_def)
      next
        fix u assume "quiet u" "opened u = []" "log_events u = []"
        from t1 [OF 3(2) this] show "wpt (case Inr Side_error of
           Inl tot0' \<Rightarrow>
             bnd (tunnel_side ''Server'' (revents ?r 1) s c b) (\<lambda>y.
             case y of Inl tot1' \<Rightarrow> go (tot0', tot1') | Inr Hung_up \<Rightarrow> leave (Finished tot0' b)
             | Inr Side_error \<Rightarrow> leave Peer_error)
         | Inr Hung_up \<Rightarrow> leave (Finished a b) | Inr Side_error \<Rightarrow> leave Peer_error)
           (\<lambda>x t''. case x of Inl tots' \<Rightarrow> tunnelled c s t tots' t'' | Inr e \<Rightarrow> tunnel_done c s t e t'')
           blocks (?t @ u)"
          by (fastforce intro!: wpt_prims simp: tunnel_done_def)
      qed
    qed
  qed simp
qed

lemma tunnel_loop_law:
  "tunnelled c s t tots t' \<Longrightarrow>
   wpt (repeat_io (tunnel_round c s) tots) (tunnel_done c s t) blocks t'"
  by (rule wpt_repeat [where I = "tunnelled c s t", OF tunnel_round_calls])
    (auto intro!: wpt_conseq [OF tunnel_round_law] split: sum.splits)

text \<open>Before the loop the client is told that the connection stands.\<close>

lemma tunnel_law:
  "wpt (tunnel c s)
     (\<lambda>e t'. \<exists>r m. tunnel_done c s
        (t @ [Sys (CWrite c established) r, Act (AOut m)]) e t') blocks t"
  unfolding tunnel_def
  by (intro wpt_bnd wpt_write wpt_thn)
    (simp, simp, simp, rule wpt_derived, simp, rule wpt_conseq [OF tunnel_loop_law [OF tunnelled_refl]],
     blast, simp_all)

section \<open>Laws of the handlers\<close>

text \<open>The log file was opened, for a child process.\<close>

definition log_opened :: "entry list \<Rightarrow> bool" where
  "log_opened t \<longleftrightarrow> (\<exists>r. Sys (COpen ''proxy.log'' O_WRONLY) r \<in> set (log_events t) \<and> 0 \<le> rv r)"

lemma log_opened_append [simp]: "log_opened (t @ u) \<longleftrightarrow> log_opened t \<or> log_opened u"
  by (auto simp: log_opened_def)

lemma log_opened_Cons [simp]:
  "log_opened (e # u) \<longleftrightarrow> (\<exists>r. e = Sys (COpen ''proxy.log'' O_WRONLY) r \<and> 0 \<le> rv r) \<or> log_opened u"
  by (auto simp: log_opened_def)

lemma log_opened_none [simp]: "log_events u = [] \<Longrightarrow> \<not> log_opened u"
  by (simp add: log_opened_def)

text \<open>The parts of a handler that open and close nothing.\<close>

definition keeps :: "entry list \<Rightarrow> entry list \<Rightarrow> bool" where
  "keeps t t' \<longleftrightarrow>
     (\<exists>u. t' = t @ u \<and> opened u = [] \<and> closed u = [] \<and> accepted u = [] \<and> \<not> log_opened u)"

lemma tunnel_keeps: "wpt (tunnel c s) (\<lambda>e. keeps t) faults_or_blocks t"
proof (rule wpt_frame [OF tunnel_law [of c s "[]"]])
  fix e u
  assume "\<exists>r m. tunnel_done c s ([] @ [Sys (CWrite c established) r, Act (AOut m)]) e u"
  then show "keeps t (t @ u)"
    by (cases e) (auto simp: tunnel_done_def tunnelled_def keeps_def log_opened_def)
qed (auto simp: blocks_def)

lemma relay_keeps:
  "wpt (relay beyond s c) (\<lambda>tot t'. keeps t t' \<and> log_events t' = log_events t) faults_or_blocks t"
  by (rule wpt_frame [OF relay_law [of beyond s c "[]"]])
    (auto simp: relay_post_def counted_def relayed_def keeps_def faults_or_blocks_def)

text \<open>
  What the thread has released at its end: the connection to the client, and with it every
  socket it opened, unless the log file could not be opened.
\<close>

definition log_failed :: "entry list \<Rightarrow> bool" where
  "log_failed t \<longleftrightarrow> (\<exists>r. Sys (CFopen ''proxy.log'' ''a+'') r \<in> set t \<and> rv r = 0)"

definition released :: "int \<Rightarrow> entry list \<Rightarrow> bool" where
  "released c t \<longleftrightarrow>
     mset (closed t) = mset (c # opened t) \<or> (log_failed t \<and> closed t = [c])"

lemma log_failed_entry [simp]:
  "rv r = 0 \<Longrightarrow> log_failed (t @ Sys (CFopen ''proxy.log'' ''a+'') r # u)"
  by (auto simp: log_failed_def)

lemma thread_quit_law:
  "closed t = [] \<Longrightarrow> mset fds = mset (c # opened t) \<Longrightarrow> wpt (thread_quit fds) (\<lambda>_. released c) E t"
  unfolding thread_quit_def by (intro wpt_closes wpt_prims) (simp add: released_def)

text \<open>The rule for \<open>thread_log\<close>: the file cannot be opened, or one line is put into it.\<close>

lemma wpt_thread_log:
  assumes failed: "\<And>r m e. rv r = 0 \<Longrightarrow>
      wpt (thread_quit [c]) Q E (t @ [Sys (CFopen ''proxy.log'' ''a+'') r, Act (APerror m e)])"
    and ok: "\<And>u r time_str. quiet u \<Longrightarrow> opened u = [] \<Longrightarrow> rv r \<noteq> 0 \<Longrightarrow>
      log_events u = [Sys (CFopen ''proxy.log'' ''a+'') r, Act (AFputs (rv r) (format time_str)),
        Act (AFclose (rv r))] \<Longrightarrow> wpt k Q E (t @ u)"
    and stops: "\<And>c u. E (Blocked c) u" "\<And>f u. E (Fault f) u"
  shows "wpt (thread_log c format k) Q E t"
proof -
  have ok': "wpt k Q E (t @ Sys (CFopen ''proxy.log'' ''a+'') r # Act (ALock l) # u
      @ [Act (AFputs (rv r) (format time_str)), Act AFree, Act (AUnlock l'), Act (AFclose (rv r))])"
    if "quiet u" "opened u = []" "log_events u = []" "rv r \<noteq> 0" for r l l' u time_str
    by (rule ok) (use that in simp_all)
  show ?thesis
    unfolding thread_log_def
    by (auto intro!: wpt_intros wpt_with_logstring failed stops simp: ok')
qed

lemma thread_log_law:
  assumes "closed t = []"
    and "\<And>u. quiet u \<Longrightarrow> opened u = [] \<Longrightarrow> wpt k (\<lambda>_. released c) faults_or_blocks (t @ u)"
  shows "wpt (thread_log c format k) (\<lambda>_. released c) faults_or_blocks t"
proof (rule wpt_thread_log)
  fix r :: reply and m e assume "rv r = 0"
  with assms(1) show "wpt (thread_quit [c]) (\<lambda>_. released c) faults_or_blocks
      (t @ [Sys (CFopen ''proxy.log'' ''a+'') r, Act (APerror m e)])"
    unfolding thread_quit_def by (intro wpt_closes wpt_prims) (simp add: released_def)
qed (use assms(2) in auto)

lemma thread_close_law:
  "closed t = [] \<Longrightarrow> opened t = [s] \<Longrightarrow>
   wpt (seqs [c_close s, c_close c] (ret ())) (\<lambda>_. released c) E t"
  by (auto intro!: wpt_intros simp: released_def)

lemma thread_get_law:
  assumes "closed t = []" "opened t = []"
  shows "wpt (thread_get beyond c addr buffer url version) (\<lambda>_. released c) faults_or_blocks t"
proof -
  have log: "wpt (thread_log c f (thn (c_print m) (seqs [c_close s, c_close c] (ret ()))))
      (\<lambda>_. released c) faults_or_blocks t'"
    if "closed t' = []" "opened t' = [s]" for t' s f m
    using that by (intro thread_log_law wpt_thn wpt_derived thread_close_law) auto
  have fetch: "wpt (send_request res version buffer s (\<lambda>fds. thread_quit ([c] @ fds))
      (bnd (relay beyond s c) (\<lambda>tot. thread_log c (f tot)
        (thn (c_print m) (seqs [c_close s, c_close c] (ret ()))))))
      (\<lambda>_. released c) faults_or_blocks t'"
    if "closed t' = []" "opened t' = [s]" for t' s f m res
  proof (intro wpt_send_request wpt_bnd)
    show "wpt (relay beyond s c) (\<lambda>tot. wpt (thread_log c (f tot)
        (thn (c_print m) (seqs [c_close s, c_close c] (ret ())))) (\<lambda>_. released c) faults_or_blocks)
        faults_or_blocks (t' @ [Sys (CWrite s q) r, Act (AOut x)])" for q r x
      using that by (intro wpt_conseq [OF relay_keeps] log) (auto simp: keeps_def)
  qed (use that in \<open>auto intro!: thread_quit_law\<close>)
  show ?thesis
    unfolding thread_get_def Let_def
    by (cases "parse_get_url url")
      (use assms in \<open>auto simp del: seqs_simps intro!: wpt_thn wpt_derived wpt_prims wpt_dial fetch
         [simplified append.simps] thread_quit_law\<close>)
qed

lemma thread_connect_law:
  assumes "closed t = []" "opened t = []"
  shows "wpt (thread_connect c addr url) (\<lambda>_. released c) faults_or_blocks t"
proof -
  have finish: "wpt (case e of
        Poll_failed \<Rightarrow> thread_quit [c, s]
      | Peer_error \<Rightarrow> thread_quit [s, c]
      | Finished a b \<Rightarrow> thread_log c (f a b) (seqs [c_close s, c_close c] (ret ())))
      (\<lambda>_. released c) faults_or_blocks t'"
    if "closed t' = []" "opened t' = [s]" for t' s f e
    using that by (cases e)
      (auto simp del: seqs_simps intro!: thread_quit_law thread_log_law thread_close_law)
  show ?thesis
    unfolding thread_connect_def Let_def
    by (cases "parse_connect_url url")
      (use assms in \<open>auto simp del: seqs_simps intro!: wpt_thn wpt_bnd wpt_derived wpt_prims wpt_dial
         wpt_conseq [OF tunnel_keeps] finish thread_quit_law simp: keeps_def\<close>)
qed

lemma thread_handle_law:
  "wpt (thread_handle beyond client) (\<lambda>_. released (clifd client)) faults_or_blocks []"
  unfolding thread_handle_def Let_def
  by (auto split: option.split intro!: wpt_intros wpt_read thread_quit_law thread_get_law
      thread_connect_law)

text \<open>
  The entry of the log of a thread that serves \<open>CONNECT\<close>: after the tunnel has timed out the
  numbers of bytes that were read from the two sides, as \<open>int\<close>s; without a regular end of the
  tunnel nothing is logged.
\<close>

definition connect_logged :: "int \<Rightarrow> bytes \<Rightarrow> string \<Rightarrow> entry list \<Rightarrow> bool" where
  "connect_logged c addr url t \<longleftrightarrow>
     log_events t = [] \<or>
     (\<exists>fds p r. rv p = 0 \<and> rv r = 0 \<and>
        log_events t = [Sys (CPoll fds 5000) p, Sys (CFopen ''proxy.log'' ''a+'') r]) \<or>
     (\<exists>fds p r line s. rv p = 0 \<and> rv r \<noteq> 0 \<and> opened t = [s] \<and>
        log_events t = [Sys (CPoll fds 5000) p, Sys (CFopen ''proxy.log'' ''a+'') r,
          Act (AFputs (rv r) line), Act (AFclose (rv r))] \<and>
        (c \<noteq> s \<longrightarrow> (\<exists>time_str. line = format_connect_entry time_str addr url
           (to_int32 (int (length (bytes_read c t)))) (to_int32 (int (length (bytes_read s t)))))))"

lemma connect_not_logged: "log_events t = [] \<Longrightarrow> wpt (thread_quit fds) (\<lambda>_. connect_logged c addr url) E t"
  unfolding thread_quit_def by (intro wpt_closes wpt_prims) (simp add: connect_logged_def log_events_def)

lemma connect_log_finish:
  assumes done': "tunnel_done c s t (Finished a b) t'"
    and t: "opened t = [s]" "log_events t = []" "bytes_read c t = []" "bytes_read s t = []"
  shows "wpt (thread_log c (\<lambda>time_str. format_connect_entry time_str addr url (to_int32 a) (to_int32 b))
      (seqs [c_close s, c_close c] (ret ()))) (\<lambda>_. connect_logged c addr url) faults_or_blocks t'"
proof -
  from done' t obtain fds p where t': "opened t' = [s]" "log_events t' = [Sys (CPoll fds 5000) p]" "rv p = 0"
    and tots: "c \<noteq> s \<Longrightarrow> a = to_int64 (int (length (bytes_read c t'))) \<and>
      b = to_int64 (int (length (bytes_read s t')))"
    by (auto simp: tunnel_done_def tunnelled_def)
  show ?thesis
  proof (rule wpt_thread_log)
    fix r :: reply and m e assume "rv r = 0"
    with t' show "wpt (thread_quit [c]) (\<lambda>_. connect_logged c addr url) faults_or_blocks
        (t' @ [Sys (CFopen ''proxy.log'' ''a+'') r, Act (APerror m e)])"
      unfolding thread_quit_def by (intro wpt_closes wpt_prims) (auto simp: connect_logged_def)
  next
    fix u r time_str
    assume "quiet u" "opened u = []" "rv r \<noteq> 0"
      "log_events u = [Sys (CFopen ''proxy.log'' ''a+'') r, Act (AFputs (rv r)
         (format_connect_entry time_str addr url (to_int32 a) (to_int32 b))), Act (AFclose (rv r))]"
    with t' tots show "wpt (seqs [c_close s, c_close c] (ret ())) (\<lambda>_. connect_logged c addr url)
        faults_or_blocks (t' @ u)"
      by (auto intro!: wpt_intros simp: connect_logged_def)
  qed simp_all
qed

lemma connect_logged_law:
  "wpt (thread_connect c addr url) (\<lambda>_. connect_logged c addr url) faults_or_blocks []"
proof -
  have finish: "wpt (case e of
        Poll_failed \<Rightarrow> thread_quit [c, s]
      | Peer_error \<Rightarrow> thread_quit [s, c]
      | Finished a b \<Rightarrow> thread_log c
          (\<lambda>time_str. format_connect_entry time_str addr url (to_int32 a) (to_int32 b))
          (seqs [c_close s, c_close c] (ret ())))
      (\<lambda>_. connect_logged c addr url) faults_or_blocks t'"
    if "tunnel_done c s (u @ [Sys (CWrite c established) r, Act (AOut m)]) e t'"
      "quiet u" "opened u = [s]" "log_events u = []" for u r m e t' s
  proof (cases e)
    case (Finished a b)
    with that show ?thesis by (auto simp del: seqs_simps intro!: connect_log_finish)
  qed (use that in \<open>auto intro!: connect_not_logged simp: tunnel_done_def tunnelled_def\<close>)
  show ?thesis
    unfolding thread_connect_def Let_def
    by (cases "parse_connect_url url")
      (auto simp del: seqs_simps intro!: wpt_thn wpt_bnd wpt_derived wpt_prims wpt_dial
         wpt_conseq [OF tunnel_law] finish connect_not_logged simp: blocks_def)
qed

text \<open>The request that was read asks for the given method.\<close>

definition asks :: "string \<Rightarrow> int \<Rightarrow> entry list \<Rightarrow> bool" where
  "asks method c t \<longleftrightarrow>
     (\<exists>r u word url version. t = Sys (CRead c 9999) r # u \<and>
        parse_request (cstr (dat r)) = Some (Some word, url, version) \<and>
        strncasecmp word method (length method) = 0)"

lemma asksI:
  "parse_request (cstr (dat r)) = Some (Some word, url, version) \<Longrightarrow> strncasecmp word method n = 0 \<Longrightarrow>
   n = length method \<Longrightarrow> asks method c (Sys (CRead c 9999) r # u)"
  unfolding asks_def by blast

lemma asks_methods:
  assumes "parse_request (cstr (dat r)) = Some (Some word, url, version)"
  shows "strncasecmp word ''GET'' 3 = 0 \<Longrightarrow> asks ''GET'' c (Sys (CRead c 9999) r # u)"
    "strncasecmp word ''CONNECT'' 7 = 0 \<Longrightarrow> asks ''CONNECT'' c (Sys (CRead c 9999) r # u)"
  by (rule asksI [OF assms], assumption, simp)+

lemma asks_append [simp]:
  assumes "asks method c t"
  shows "asks method c (t @ u)"
proof -
  from assms obtain r v word url version where "t = Sys (CRead c 9999) r # v"
    "parse_request (cstr (dat r)) = Some (Some word, url, version)"
    "strncasecmp word method (length method) = 0"
    unfolding asks_def by blast
  then show ?thesis
    unfolding asks_def
    by (intro exI [of _ r] exI [of _ "v @ u"] exI [of _ word] exI [of _ url] exI [of _ version]) simp
qed

text \<open>
  How a child process ends: with the connection and the listening socket closed; with status 1
  without the log file having been opened, and with status 0 after a \<open>CONNECT\<close>, when the socket to
  the server is closed too.
\<close>

definition child_end :: "int \<Rightarrow> int \<Rightarrow> stop \<Rightarrow> entry list \<Rightarrow> bool" where
  "child_end p c s t \<longleftrightarrow> faults_or_blocks s t \<or>
     (\<exists>n. s = Exited n \<and> {p, c} \<subseteq> set (closed t) \<and>
        (n = 1 \<and> \<not> log_opened t \<or>
         n = 0 \<and> log_opened t \<and> asks ''CONNECT'' c t \<and> set (opened t) \<subseteq> set (closed t)))"

lemma child_end_simps [simp]:
  "child_end p c (Blocked k) t" "child_end p c (Fault f) t"
  by (simp_all add: child_end_def)

lemma child_end_faults: "faults_or_blocks s t \<Longrightarrow> child_end p c s t'"
  by (auto simp: child_end_def faults_or_blocks_def)

lemma child_quit_law:
  "{p, c} \<subseteq> set fds \<Longrightarrow> \<not> log_opened t \<Longrightarrow> wpt (child_quit fds) Q (child_end p c) t"
  unfolding child_quit_def EXIT_FAILURE_def
  by (intro wpt_closes wpt_prims) (simp add: child_end_def log_opened_def log_events_def)

text \<open>What follows the writing of the log entry: the log file is closed.\<close>

lemma child_log_law:
  assumes quits: "\<not> log_opened t"
    and k: "\<And>u r. opened u = [] \<Longrightarrow> closed u = [rv r] \<Longrightarrow>
      log_events u = [Sys (COpen ''proxy.log'' O_WRONLY) r] \<Longrightarrow> 0 \<le> rv r \<Longrightarrow>
      wpt k Q (child_end p c) (t @ u)"
  shows "wpt (child_log p c format k) Q (child_end p c) t"
proof -
  have ok: "wpt k Q (child_end p c) (t @ Sys (COpen ''proxy.log'' O_WRONLY) r # Act (AFcntlLock d l) # u @
      [Act (ALseekEnd d), Sys (CWrite d b) r', Act AFree, Act (AFcntlLock d l'), Act (AClose (rv r))])"
    if "quiet u" "opened u = []" "log_events u = []" "\<not> rv r < 0" for r d l u b r' l'
    by (rule k) (use that in \<open>simp_all add: not_less\<close>)
  show ?thesis
    unfolding child_log_def
    by (auto intro!: wpt_intros wpt_write wpt_with_logstring child_quit_law simp: ok quits)
qed

text \<open>A \<open>GET\<close> that is served to the end leaves the socket to the server open.\<close>

definition child_returned :: "int \<Rightarrow> entry list \<Rightarrow> bool" where
  "child_returned c t \<longleftrightarrow> asks ''GET'' c t \<and> (\<exists>s r. opened t = [s] \<and> closed t = [rv r] \<and>
     log_events t = [Sys (COpen ''proxy.log'' O_WRONLY) r] \<and> 0 \<le> rv r)"

lemma child_get_law:
  assumes "closed t = []" "opened t = []" "log_events t = []" "asks ''GET'' c t"
  shows "wpt (child_get beyond p c addr buffer url version) (\<lambda>_. child_returned c) (child_end p c) t"
proof -
  have log: "wpt (child_log p c f (c_print m)) (\<lambda>_. child_returned c) (child_end p c) t'"
    if "closed t' = []" "opened t' = [s]" "log_events t' = []" "asks ''GET'' c t'" for t' s f m
    by (rule child_log_law, use that in simp, rule wpt_derived)
      (use that in \<open>auto simp: child_returned_def\<close>)
  have fetch: "wpt (send_request res version buffer s (\<lambda>fds. child_quit ([c, p] @ fds))
      (bnd (relay beyond s c) (\<lambda>tot. child_log p c (f tot) (c_print m))))
      (\<lambda>_. child_returned c) (child_end p c) t'"
    if "closed t' = []" "opened t' = [s]" "log_events t' = []" "asks ''GET'' c t'" for t' s f m res
  proof (intro wpt_send_request wpt_bnd)
    show "wpt (relay beyond s c) (\<lambda>tot. wpt (child_log p c (f tot) (c_print m))
        (\<lambda>_. child_returned c) (child_end p c)) (child_end p c)
        (t' @ [Sys (CWrite s q) r, Act (AOut x)])" for q r x
      using that by (intro wpt_conseq [OF relay_keeps] log) (auto simp: keeps_def intro: child_end_faults)
  qed (use that in \<open>auto intro!: child_quit_law\<close>)
  show ?thesis
    unfolding child_get_def Let_def
    by (cases "parse_get_url url")
      (use assms in \<open>auto intro!: wpt_thn wpt_derived wpt_prims wpt_dial fetch [simplified append.simps]
         child_quit_law\<close>)
qed

lemma child_connect_law:
  assumes "closed t = []" "opened t = []" "log_events t = []" "asks ''CONNECT'' c t"
  shows "wpt (child_connect p c addr url) (\<lambda>_ _. False) (child_end p c) t"
proof -
  have finish: "wpt (case e of
        Poll_failed \<Rightarrow> child_quit [c, p, s]
      | Peer_error \<Rightarrow> child_quit [s, c, p]
      | Finished a b \<Rightarrow> child_log p c (f a b)
          (seqs [c_close s, c_close c, c_close p] (c_exit EXIT_SUCCESS)))
      (\<lambda>_ _. False) (child_end p c) t'"
    if "closed t' = []" "opened t' = [s]" "\<not> log_opened t'" "asks ''CONNECT'' c t'" for t' s f e
    using that by (cases e)
      (auto intro!: child_quit_law child_log_law wpt_intros
        simp: child_end_def EXIT_SUCCESS_def, auto simp: log_opened_def)
  show ?thesis
    unfolding child_connect_def Let_def
    by (cases "parse_connect_url url")
      (use assms in \<open>auto simp del: seqs_simps intro!: wpt_thn wpt_bnd wpt_derived wpt_prims wpt_dial
         wpt_conseq [OF tunnel_keeps] finish child_quit_law intro: child_end_faults simp: keeps_def\<close>)
qed

lemma child_handle_law:
  "wpt (child_handle beyond p c addr) (\<lambda>_. child_returned c) (child_end p c) []"
  unfolding child_handle_def Let_def
  by (auto split: option.split intro!: wpt_intros wpt_read child_quit_law child_get_law
      wpt_conseq [OF child_connect_law]; rule asks_methods; assumption)

section \<open>Laws of the main program\<close>

definition conc_end :: "stop \<Rightarrow> entry list \<Rightarrow> bool" where
  "conc_end s t \<longleftrightarrow> faults_or_blocks s t \<or> s = Exited 0 \<or> s = Exited 1"

lemma conc_end_simps [simp]:
  "conc_end (Blocked k) t" "conc_end (Fault f) t" "conc_end (Exited 0) t" "conc_end (Exited 1) t"
  "conc_end (Exited EXIT_FAILURE) t"
  by (simp_all add: conc_end_def EXIT_FAILURE_def)

lemma reap_calls:
  "calls_each_round (\<lambda>u :: unit. bnd (sysi c) (\<lambda>pid. if pid > 0 then go () else leave ()))"
  unfolding sysi_def bnd_assoc by (intro calls_first) (auto intro!: shrinks_intros)

lemma reap_law: "wpt reap_children (\<lambda>_ _. True) conc_end t"
  unfolding reap_children_def
  by (rule wpt_repeat [where I = "\<lambda>_ _. True", OF reap_calls]) (auto intro!: wpt_intros)

lemma shrinks_handlers:
  "shrinks reap_children" "shrinks (child_handle beyond p c addr)"
proof -
  have quit: "shrinks (child_quit fds)" for fds :: "int list"
    unfolding child_quit_def by (auto intro!: shrinks_intros)
  have tunnel: "shrinks (tunnel c s)" for s
    unfolding tunnel_def tunnel_round_def tunnel_side_def
    by (auto intro!: shrinks_intros split: sum.split side_end.split)
  have log: "shrinks k \<Longrightarrow> shrinks (child_log p c format k)" for format and k :: "'a io"
    unfolding child_log_def child_quit_def by (auto intro!: shrinks_intros shrinks_parts)
  have get: "shrinks (child_get beyond p c addr buffer url version)" for buffer url version
    unfolding child_get_def Let_def child_log_def
    by (auto intro!: shrinks_intros shrinks_parts quit split: url_parse.split)
  have connect: "shrinks (child_connect p c addr url)" for url
    unfolding child_connect_def Let_def child_log_def
    by (auto intro!: shrinks_intros shrinks_parts quit tunnel split: url_parse.split tunnel_end.split)
  show "shrinks (child_handle beyond p c addr)"
    unfolding child_handle_def Let_def
    by (auto intro!: shrinks_intros quit get connect split: option.split)
  show "shrinks reap_children"
    unfolding reap_children_def by (auto intro!: shrinks_intros)
qed

lemma conc_round_calls: "calls_each_round (conc_round beyond p thread_flag)"
  unfolding conc_round_def
  by (intro calls_first) (auto intro!: shrinks_intros shrinks_handlers)

lemma child_conc_law: "wpt (child_handle beyond p c addr) (\<lambda>_ _. True) conc_end t"
  by (rule wpt_frame [OF child_handle_law]) (auto simp: child_end_def conc_end_def faults_or_blocks_def)

lemma conc_round_law: "wpt (conc_round beyond p thread_flag u) (\<lambda>x _. x = Inl ()) conc_end t"
  unfolding conc_round_def
  by (intro wpt_bnd wpt_call)
    (auto intro!: wpt_intros wpt_conseq [OF reap_law] wpt_conseq [OF child_conc_law])

lemma conc_loop_law: "wpt (repeat_io (conc_round beyond p thread_flag) u) (\<lambda>_ _. False) conc_end t"
  by (rule wpt_repeat [where I = "\<lambda>_ _. True", OF conc_round_calls])
    (auto intro: wpt_conseq [OF conc_round_law])

text \<open>The options: \<open>abort\<close> is never reached, and \<open>-t\<close> wins over \<open>-p\<close>.\<close>

lemma proxy_usage_law: "wpt (proxy_usage prog c_eprint 1) Q conc_end t"
  unfolding proxy_usage_def by (auto intro!: wpt_intros)

lemma proxy_read_options_law:
  assumes "\<And>d a. Opt d a \<in> set os \<Longrightarrow> d = CHR ''p'' \<or> d = CHR ''t''"
  shows "wpt (proxy_read_options prog os thread_flag)
    (\<lambda>b t'. t' = t \<and> Bad_opt \<notin> set os \<and> (b \<longleftrightarrow> thread_flag \<or> (\<exists>a. Opt CHR ''t'' a \<in> set os)))
    conc_end t"
  using assms
proof (induction prog os thread_flag rule: proxy_read_options.induct)
  case (3 prog c a os thread_flag)
  from 3(3) [of c a] consider "c = CHR ''p''" | "c = CHR ''t''" by auto
  then show ?case
  proof cases
    case 1
    with 3(1) 3(3) show ?thesis by (auto intro!: wpt_conseq [OF 3(1)])
  next
    case 2
    with 3(2) 3(3) show ?thesis by (auto intro!: wpt_conseq [OF 3(2)])
  qed
qed (auto intro!: wpt_intros proxy_usage_law)

lemma conc_main_law: "wpt (conc_main beyond argv) (\<lambda>_ _. False) conc_end t"
proof -
  obtain os used operands where g: "getopt proxy_options (tl argv) = (os, used, operands)"
    by (cases "getopt proxy_options (tl argv)") auto
  have "Opt d a \<in> set os \<Longrightarrow> d = CHR ''p'' \<or> d = CHR ''t''" for d a
    using getopt_letters [OF g, of d a] by (auto simp: opt_letters_def proxy_options_def)
  note options = proxy_read_options_law [OF this]
  show ?thesis
    unfolding conc_main_def Let_def g prod.case
    by (rule wpt_bnd, rule wpt_conseq [OF options])
      (auto intro!: wpt_intros wpt_conseq [OF conc_loop_law] proxy_usage_law)
qed

lemmas [eval_simps] =
  POLLIN_def POLLERR_def POLLHUP_def POLLNVAL_def POLL_HUP_def revents_def tunnel_side_def
  tunnel_round_def established_def tunnel_def format_connect_entry_def child_quit_def
  child_log_def child_get_def child_handle_def

section \<open>Properties\<close>

text \<open>
  C2. Whatever the request and however the kernel replies, a thread that returns has closed the
  connection to its client and every socket it had opened, each exactly once; the exception is a
  log file that cannot be opened, in which case the socket to the server stays open.  A thread
  never ends the process by \<open>exit\<close>, but undefined behaviour is possible.
\<close>

theorem thread_handle_releases:
  "case thread_handle beyond client w of
     Ret _ w' \<Rightarrow> \<exists>t. trace w' = trace w @ t \<and>
       (mset (closed t) = mset (clifd client # opened t) \<or>
        (closed t = [clifd client] \<and>
         (\<exists>r. Sys (CFopen ''proxy.log'' ''a+'') r \<in> set t \<and> rv r = 0)))
   | Stop s w' \<Rightarrow> (\<exists>k. s = Blocked k) \<or> (\<exists>f. s = Fault f)"
  using wpt_case [OF thread_handle_law [of beyond client], of w]
  by (fastforce simp: released_def log_failed_def faults_or_blocks_def split: result.splits)

text \<open>
  C4. The tunnel of \<open>CONNECT\<close> copies faithfully in both directions: what it reads from the
  client it hands to the server, what it reads from the server it hands to the client, after
  the line that announces the connection, in order and without loss; its totals are the
  numbers of bytes, in 64 bits.  A thread that serves \<open>CONNECT\<close> puts one line into the log when the
  tunnel has ended by a time-out and the log file can be opened, and none otherwise; the line
  holds the two numbers of bytes cut to 32 bits, and so not the numbers themselves from \<open>2 ^ 31\<close>
  bytes on.
\<close>

theorem tunnel_both_ways:
  assumes "client_fd \<noteq> server_fd"
  shows "(case tunnel client_fd server_fd w of
     Ret e w' \<Rightarrow> \<exists>t. trace w' = trace w @ t \<and>
       bytes_offered server_fd t = bytes_read client_fd t \<and>
       bytes_offered client_fd t =
         ''HTTP/1.1 200 Connection Established'' @ crlf @ crlf @ bytes_read server_fd t \<and>
       (\<forall>a b. e = Finished a b \<longrightarrow>
          a = to_int64 (int (length (bytes_read client_fd t))) \<and>
          b = to_int64 (int (length (bytes_read server_fd t))))
   | Stop s w' \<Rightarrow> (\<exists>k. s = Blocked k)) \<and>
   (case thread_connect client_fd addr url v of
     Ret _ v' \<Rightarrow> \<exists>t. trace v' = trace v @ t \<and>
       (log_events t = [] \<or>
        (\<exists>fds p r. rv p = 0 \<and> rv r = 0 \<and>
           log_events t = [Sys (CPoll fds 5000) p, Sys (CFopen ''proxy.log'' ''a+'') r]) \<or>
        (\<exists>fds p r line s. rv p = 0 \<and> rv r \<noteq> 0 \<and> opened t = [s] \<and>
           log_events t = [Sys (CPoll fds 5000) p, Sys (CFopen ''proxy.log'' ''a+'') r,
             Act (AFputs (rv r) line), Act (AFclose (rv r))] \<and>
           (client_fd \<noteq> s \<longrightarrow> (\<exists>time_str. line = format_connect_entry time_str addr url
              (to_int32 (int (length (bytes_read client_fd t))))
              (to_int32 (int (length (bytes_read s t))))))))
   | Stop s v' \<Rightarrow> (\<exists>k. s = Blocked k) \<or> (\<exists>f. s = Fault f))"
proof
  have post: "bytes_offered server_fd t = bytes_read client_fd t \<and>
       bytes_offered client_fd t =
         ''HTTP/1.1 200 Connection Established'' @ crlf @ crlf @ bytes_read server_fd t \<and>
       (\<forall>a b. e = Finished a b \<longrightarrow>
          a = to_int64 (int (length (bytes_read client_fd t))) \<and>
          b = to_int64 (int (length (bytes_read server_fd t))))"
    if "tunnel_done client_fd server_fd ([] @ [Sys (CWrite client_fd established) r, Act (AOut m)]) e t"
    for e t r m
    using that assms by (cases e) (auto simp: tunnel_done_def tunnelled_def established_def)
  show "case tunnel client_fd server_fd w of
     Ret e w' \<Rightarrow> \<exists>t. trace w' = trace w @ t \<and>
       bytes_offered server_fd t = bytes_read client_fd t \<and>
       bytes_offered client_fd t =
         ''HTTP/1.1 200 Connection Established'' @ crlf @ crlf @ bytes_read server_fd t \<and>
       (\<forall>a b. e = Finished a b \<longrightarrow>
          a = to_int64 (int (length (bytes_read client_fd t))) \<and>
          b = to_int64 (int (length (bytes_read server_fd t))))
   | Stop s w' \<Rightarrow> (\<exists>k. s = Blocked k)"
    using wpt_case [OF tunnel_law [of client_fd server_fd "[]"], of w] post
    by (fastforce simp: blocks_def split: result.splits)
qed (use wpt_case [OF connect_logged_law [of client_fd addr url], of v] in
  \<open>simp add: connect_logged_def faults_or_blocks_def split: result.splits\<close>)

theorem tunnel_both_ways_witness:
  "(\<exists>w'. tunnel 4 5 (world0 [took 39, \<lparr>rv = 1, er = 0, dat = [CHR 0x01, CHR 0x00], src_addr = []\<rparr>, got_bytes ''hi'',
       took 2, took 0]) = Ret (Finished 2 0) w' \<and> bytes_offered 5 (trace w') = ''hi'') \<and>
   (\<exists>v' p r time_str. thread_connect 4 [CHR 0x7F, NUL, NUL, CHR 0x01] ''h:443'' (world0 [took 0, took 5, took 0,
       took 39, \<lparr>rv = 1, er = 0, dat = [CHR 0x01, CHR 0x00], src_addr = []\<rparr>, got_bytes ''hi'', took 2, took 0,
       took 6, took 1000, got_bytes ''now'']) = Ret () v' \<and>
     log_events (trace v') = [Sys (CPoll [(4, 1), (5, 1)] 5000) p, Sys (CFopen ''proxy.log'' ''a+'') r,
       Act (AFputs 6 (format_connect_entry time_str [CHR 0x7F, NUL, NUL, CHR 0x01] ''h:443'' 2 0)), Act (AFclose 6)])"
proof
  let ?w = "world0 [took 39, \<lparr>rv = 1, er = 0, dat = [CHR 0x01, CHR 0x00], src_addr = []\<rparr>, got_bytes ''hi'',
       took 2, took 0]"
  let ?v = "world0 [took 0, took 5, took 0,
       took 39, \<lparr>rv = 1, er = 0, dat = [CHR 0x01, CHR 0x00], src_addr = []\<rparr>, got_bytes ''hi'', took 2, took 0,
       took 6, took 1000, got_bytes ''now'']"
  have "(case tunnel 4 5 ?w of Ret e w' \<Rightarrow> e = Finished 2 0 \<and> bytes_read 4 (trace w') = ''hi''
     | Stop _ _ \<Rightarrow> False)"
    by (simp add: eval_simps to_int64_def)
  then obtain w' where run: "tunnel 4 5 ?w = Ret (Finished 2 0) w'" and t: "bytes_read 4 (trace w') = ''hi''"
    by (auto split: result.splits)
  note applied = tunnel_both_ways [of 4 5, where w = ?w and v = ?v and
      addr = "[CHR 0x7F, NUL, NUL, CHR 0x01]" and url = "''h:443''"]
  from applied run t show "\<exists>w'. tunnel 4 5 ?w = Ret (Finished 2 0) w' \<and> bytes_offered 5 (trace w') = ''hi''"
    by (auto simp: world0_def)
  have "(case thread_connect 4 [CHR 0x7F, NUL, NUL, CHR 0x01] ''h:443'' ?v of
      Ret _ v' \<Rightarrow> (\<exists>p r x. log_events (trace v') = [Sys (CPoll [(4, 1), (5, 1)] 5000) p,
          Sys (CFopen ''proxy.log'' ''a+'') r, Act (AFputs 6 x), Act (AFclose 6)]) \<and> opened (trace v') = [5] \<and>
        bytes_read 4 (trace v') = ''hi'' \<and> bytes_read 5 (trace v') = []
     | Stop _ _ \<Rightarrow> False)"
    by (simp add: eval_simps thread_connect_def thread_log_def to_int64_def)
  then obtain v' p r x where run: "thread_connect 4 [CHR 0x7F, NUL, NUL, CHR 0x01] ''h:443'' ?v = Ret () v'"
    and t: "log_events (trace v') = [Sys (CPoll [(4, 1), (5, 1)] 5000) p,
          Sys (CFopen ''proxy.log'' ''a+'') r, Act (AFputs 6 x), Act (AFclose 6)]"
      "opened (trace v') = [5]" "bytes_read 4 (trace v') = ''hi''" "bytes_read 5 (trace v') = []"
    by (auto split: result.splits)
  from applied run t show "\<exists>v' p r time_str. thread_connect 4 [CHR 0x7F, NUL, NUL, CHR 0x01] ''h:443'' ?v = Ret () v' \<and>
     log_events (trace v') = [Sys (CPoll [(4, 1), (5, 1)] 5000) p, Sys (CFopen ''proxy.log'' ''a+'') r,
       Act (AFputs 6 (format_connect_entry time_str [CHR 0x7F, NUL, NUL, CHR 0x01] ''h:443'' 2 0)), Act (AFclose 6)]"
    by (auto simp: world0_def to_int32_def)
qed

text \<open>
  C26. The tunnel ends regularly only by the timeout of \<open>poll\<close>: the test of \<open>POLL_HUP\<close>, which
  is not an event bit, never succeeds, so that a peer that has hung up is not noticed.
\<close>

theorem tunnel_ends_by_timeout:
  "case tunnel client_fd server_fd w of
     Ret (Finished a b) w' \<Rightarrow>
       (\<exists>t fds r m. trace w' = t @ [Sys (CPoll fds 5000) r, Act (AOut m)] \<and> rv r = 0)
   | _ \<Rightarrow> True"
proof -
  have post: "\<exists>t0 fds r m. trace w @ t = t0 @ [Sys (CPoll fds 5000) r, Act (AOut m)] \<and> rv r = 0"
    if "tunnel_done client_fd server_fd u (Finished a b) t" for u t a b
    using that by (force simp: tunnel_done_def)
  show ?thesis
    using wpt_case [OF tunnel_law [of client_fd server_fd "[]"], of w]
    by (fastforce split: result.splits tunnel_end.splits dest: post)
qed

text \<open>
  C25. A child process exits only with the client and the listening socket closed: with status 1
  before the log file was opened, and with status 0 only when the request was a \<open>CONNECT\<close>, the
  log file had been opened and the socket to the server is closed as well.  A child that has served a \<open>GET\<close>
  does not end: it returns to the accept loop of the parent, having closed the log file but
  neither the client nor the server.  No other request returns.
\<close>

theorem child_handle_outcomes:
  "case child_handle beyond proxy_fd client_fd addr w of
     Ret _ w' \<Rightarrow> \<exists>t server_fd r. trace w' = trace w @ t \<and> asks ''GET'' client_fd t \<and>
       opened t = [server_fd] \<and> closed t = [rv r] \<and> 0 \<le> rv r \<and>
       log_events t = [Sys (COpen ''proxy.log'' O_WRONLY) r]
   | Stop s w' \<Rightarrow> (\<exists>k. s = Blocked k) \<or> (\<exists>f. s = Fault f) \<or>
       (\<exists>n t. s = Exited n \<and> trace w' = trace w @ t \<and> {proxy_fd, client_fd} \<subseteq> set (closed t) \<and>
          (n = 1 \<and> \<not> log_opened t \<or>
           n = 0 \<and> log_opened t \<and> asks ''CONNECT'' client_fd t \<and> set (opened t) \<subseteq> set (closed t)))"
  using wpt_case [OF child_handle_law [of beyond proxy_fd client_fd addr], of w]
  by (fastforce simp: child_returned_def child_end_def faults_or_blocks_def split: result.splits)

text \<open>
  A round of the accept loop returns only to go round again, also in the child: after
  \<open>fork\<close> returned 0 and a \<open>GET\<close> was served, the child accepts connections itself.
\<close>

theorem child_accepts_again:
  assumes "script w = acc # reaped # forked # rest" "0 \<le> rv acc" "rv reaped = 0" "rv forked = 0"
    and "child_handle beyond proxy_fd (rv acc) (dat acc) w1 = Ret () w2"
    and "w1 = log_call CFork forked rest
      (log_act (AOut ''Connection established with client.'')
        (log_call (CWaitpid (-1) WNOHANG) reaped (forked # rest)
          (log_call (CAccept proxy_fd) acc (reaped # forked # rest) w)))"
  shows "conc_round beyond proxy_fd False () w = Ret (Inl ()) (log_act (AClose (rv acc)) w2)"
proof -
  have norm: "norm_reply (CAccept p) r = r" "norm_reply (CWaitpid i o') r = r" "norm_reply CFork r = r"
    for p i o' r
    by (simp_all add: norm_reply_def)
  have reap: "reap_children v = Ret () (log_call (CWaitpid (-1) WNOHANG) reaped vs v)"
    if "script v = reaped # vs" for v vs
    using that assms(3)
    by (simp add: reap_children_def repeat_io_def repeat_var.simps bnd_def sysi_def call_def norm Let_def
        leave_def)
  show ?thesis
    unfolding conc_round_def
    using assms
    by (simp add: bnd_def thn_def call_def norm Let_def reap c_print_def sysi_def c_close_def go_def)
qed

theorem child_accepts_again_witness:
  "\<exists>w'. conc_round [] 3 False () (world0 ([\<lparr>rv = 4, er = 0, dat = [CHR 0x7F, NUL, NUL, CHR 0x01], src_addr = []\<rparr>,
       took 0, took 0] @ [got_bytes (''GET http://h/ HTTP/1.0'' @ crlf @ crlf), took 0, took 5, took 0, took 2,
         got_bytes ''HTTP/1.0 200 OK'', took 15, took 6, took 1000, got_bytes ''now'', took 30]))
     = Ret (Inl ()) w' \<and> script w' = []"
proof -
  let ?acc = "\<lparr>rv = 4, er = 0, dat = [CHR 0x7F, NUL, NUL, CHR 0x01], src_addr = []\<rparr>"
  let ?rest = "[got_bytes (''GET http://h/ HTTP/1.0'' @ crlf @ crlf), took 0, took 5, took 0, took 2,
      got_bytes ''HTTP/1.0 200 OK'', took 15, took 6, took 1000, got_bytes ''now'', took 30]"
  let ?w = "world0 ([?acc, took 0, took 0] @ ?rest)"
  let ?w1 = "log_call CFork (took 0) ?rest
      (log_act (AOut ''Connection established with client.'')
        (log_call (CWaitpid (-1) WNOHANG) (took 0) (took 0 # ?rest)
          (log_call (CAccept 3) ?acc (took 0 # took 0 # ?rest) ?w)))"
  have "(case child_handle [] 3 (rv ?acc) (dat ?acc) ?w1 of Ret _ w' \<Rightarrow> script w' = [] | Stop _ _ \<Rightarrow> False)"
    by (simp add: eval_simps)
  then obtain w2 where run: "child_handle [] 3 (rv ?acc) (dat ?acc) ?w1 = Ret () w2"
    and s: "script w2 = []"
    by (auto split: result.splits)
  have "conc_round [] 3 False () ?w = Ret (Inl ()) (log_act (AClose (rv ?acc)) w2)"
    by (rule child_accepts_again [where acc = ?acc and reaped = "took 0" and forked = "took 0" and
        rest = ?rest and ?w1.0 = ?w1, OF _ _ _ _ run refl])
      (simp_all add: world0_def took_def)
  with s show ?thesis by simp
qed

text \<open>
  The program never returns, and \<open>abort\<close> is never reached: it runs until a failing call of
  its own, or a child's, makes it exit with status 1, or a child's \<open>CONNECT\<close> with status 0.
  Without an operand it exits with status 1 before any system call.
\<close>

theorem conc_main_ends:
  "case conc_main beyond argv w of
     Ret _ w' \<Rightarrow> False
   | Stop s w' \<Rightarrow> s = Exited 0 \<or> s = Exited 1 \<or> (\<exists>k. s = Blocked k) \<or> (\<exists>f. s = Fault f)"
  using wpt_case [OF conc_main_law [of beyond argv "[]"], of w]
  by (auto simp: conc_end_def faults_or_blocks_def split: result.splits)

end
