(* ===== verification/Substring_Count.thy ===== *)
theory Substring_Count
  imports Getopt
begin

text \<open>
  \<^verbatim>\<open>src/Assignment1/jwh139-p01/p01.c\<close>: count the occurrences of strings in a file, ignoring
  case, with system calls (\<^verbatim>\<open>-s\<close>) or with standard I/O.

  The size found by \<open>stat\<close> is the \<open>er\<close> field of a successful reply; the bytes a \<open>read\<close> or an
  \<open>fread\<close> stored are its data.
\<close>

section \<open>Counting\<close>

text \<open>
  The loop compares the substring with the bytes at \<open>ptr\<close>, and moves \<open>ptr\<close> on, a fixed number
  of times.
\<close>

fun count_loop :: "bytes \<Rightarrow> string \<Rightarrow> nat \<Rightarrow> int \<Rightarrow> int" where
  "count_loop ptr substring 0 cnt = cnt"
| "count_loop ptr substring (Suc k) cnt =
     count_loop (tl ptr) substring k
       (if strncasecmp ptr substring (length substring) = 0 then cnt + 1 else cnt)"

definition countSubstrings :: "bytes \<Rightarrow> string \<Rightarrow> int \<Rightarrow> int" where
  "countSubstrings buffer substring sz =
     (let substringLen = int (length substring)
      in count_loop buffer substring (nat (to_int32 (sz - substringLen + 1))) 0)"

text \<open>Where the substring occurs, up to case.\<close>

definition occurs_at :: "bytes \<Rightarrow> string \<Rightarrow> nat \<Rightarrow> bool" where
  "occurs_at buffer substring i \<longleftrightarrow>
     i + length substring \<le> length buffer \<and>
     map to_lower (take (length substring) (drop i buffer)) = map to_lower substring"

lemma count_loop_add: "count_loop ptr s k cnt = cnt + count_loop ptr s k 0"
proof (induction k arbitrary: ptr cnt)
  case (Suc k)
  show ?case
    using Suc [of "tl ptr" "cnt + 1"] Suc [of "tl ptr" cnt] Suc [of "tl ptr" 1] by simp
qed simp

lemma count_loop_snoc:
  "count_loop ptr s (Suc k) 0 =
     count_loop ptr s k 0 + (if strncasecmp (drop k ptr) s (length s) = 0 then 1 else 0)"
proof (induction k arbitrary: ptr)
  case (Suc k)
  have unfold: "count_loop ptr s (Suc j) 0 =
      (if strncasecmp ptr s (length s) = 0 then 1 else 0) + count_loop (tl ptr) s j 0" for j
    using count_loop_add [of "tl ptr" s j 1] by simp
  from Suc [of "tl ptr"] show ?case
    by (simp add: unfold [of "Suc k"] unfold [of k] drop_Suc del: count_loop.simps(2))
qed simp

lemma count_loop_card:
  assumes "NUL \<notin> set s" "k + length s \<le> length b + 1"
  shows "count_loop b s k 0 = int (card {i. i < k \<and> occurs_at b s i})"
  using assms(2)
proof (induction k)
  case (Suc k)
  have match: "strncasecmp (drop k b) s (length s) = 0 \<longleftrightarrow> occurs_at b s k"
    using strncasecmp_eq_0_iff [OF assms(1) refl, of "drop k b"] Suc.prems
    by (auto simp: occurs_at_def)
  have "{i. i < Suc k \<and> occurs_at b s i} =
      (if occurs_at b s k then insert k {i. i < k \<and> occurs_at b s i} else {i. i < k \<and> occurs_at b s i})"
    by (auto simp: less_Suc_eq)
  with Suc match show ?case
    by (simp add: count_loop_snoc del: count_loop.simps(2))
qed simp

lemma countSubstrings_card:
  assumes "NUL \<notin> set s" "int (length b) < INT_MAX" "int (length s) < INT_MAX"
  shows "countSubstrings b s (int (length b)) = int (card {i. occurs_at b s i})"
proof (cases "length s \<le> length b + 1")
  case True
  have "to_int32 (int (length b) - int (length s) + 1) = int (length b + 1 - length s)"
    using assms(2,3) True by (subst to_int32_id) (auto simp: in_int32_def INT_MAX_def INT_MIN_def)
  moreover have "{i. i < length b + 1 - length s \<and> occurs_at b s i} = {i. occurs_at b s i}"
    by (auto simp: occurs_at_def)
  ultimately show ?thesis
    using count_loop_card [OF assms(1), of "length b + 1 - length s" b] True
    by (simp only: countSubstrings_def Let_def nat_int)
next
  case False
  have "to_int32 (int (length b) - int (length s) + 1) = int (length b) - int (length s) + 1"
    using assms(2,3) False by (intro to_int32_id) (auto simp: in_int32_def INT_MAX_def INT_MIN_def)
  moreover have "{i. occurs_at b s i} = {}" using False by (auto simp: occurs_at_def)
  ultimately show ?thesis using False by (simp add: countSubstrings_def)
qed

section \<open>The program\<close>

definition p01_options :: optspec where
  "p01_options =
     \<lparr>shorts = [(CHR ''h'', False), (CHR ''s'', False)],
      longs = [(''help'', False, CHR ''h''), (''systemcalls'', False, CHR ''s'')]\<rparr>"

definition p01_usage :: "string \<Rightarrow> (string \<Rightarrow> unit io) \<Rightarrow> int \<Rightarrow> 'a io" where
  "p01_usage program_name stream exit_code =
     seqs [stream (''Usage: '' @ program_name @ '' [--help | --systemcalls] filename arg1 [...]'' @ [LF]),
           stream (''  -h --help            Display this usage information.'' @ [LF]
             @ ''  -s --systemcalls     Switch to the system calls implementation.'' @ [LF])]
       (c_exit exit_code)"

fun p01_read_options :: "string \<Rightarrow> opt list \<Rightarrow> bool \<Rightarrow> bool io" where
  "p01_read_options program_name [] system_flag = ret system_flag"
| "p01_read_options program_name (Bad_opt # os) system_flag = p01_usage program_name c_eprint 1"
| "p01_read_options program_name (Opt c arg # os) system_flag =
     (if c = CHR ''h'' then p01_usage program_name c_print 0
      else if c = CHR ''s'' then p01_read_options program_name os True
      else c_abort)"

definition p01_fail :: "string \<Rightarrow> 'a io" where
  "p01_fail program_name = thn (c_perror program_name) (c_exit 1)"

text \<open>\<open>stat\<close>, whose result is not looked at: when it fails, the structure is indeterminate.\<close>

definition file_size :: "string \<Rightarrow> (int \<Rightarrow> 'a io) \<Rightarrow> 'a io" where
  "file_size path k =
     bnd (call (CSys (''stat '' @ path) [])) (\<lambda>r. need (if rv r < 0 then None else Some (er r)) k)"

text \<open>One byte is read at a time; a byte that does not come leaves the zero of \<open>calloc\<close>.\<close>

fun read_bytes :: "int \<Rightarrow> nat \<Rightarrow> bytes io" where
  "read_bytes fd 0 = ret []"
| "read_bytes fd (Suc n) =
     bnd (c_read fd 1) (\<lambda>(_, d).
     bnd (read_bytes fd n) (\<lambda>rest. ret ((if d = [] then NUL else hd d) # rest)))"

fun print_counts :: "bytes \<Rightarrow> int \<Rightarrow> string list \<Rightarrow> unit io" where
  "print_counts buffer sz [] = ret ()"
| "print_counts buffer sz (s # args) =
     thn (c_print (show_int (countSubstrings buffer s sz) @ [LF])) (print_counts buffer sz args)"

definition count_with_syscalls :: "string \<Rightarrow> string list \<Rightarrow> int io" where
  "count_with_syscalls program_name operands =
     (if length operands < 2 then p01_usage program_name c_eprint 1
      else
        bnd (sysi (COpen (hd operands) O_RDONLY)) (\<lambda>fd.
        if fd < 0 then p01_fail program_name
        else
          file_size (hd operands) (\<lambda>sz.
          bnd (sysi (CSys ''calloc'' [sz, 1])) (\<lambda>p.
          if p = 0 then p01_fail program_name
          else
            bnd (read_bytes fd (nat sz)) (\<lambda>buffer.
            thn (print_counts buffer (to_int32 sz) (tl operands)) (
            bnd (sysi (CSys ''close'' [fd])) (\<lambda>rc.
            if rc \<noteq> 0 then p01_fail program_name
            else thn (act AFree) (ret 0))))))))"

text \<open>
  Standard I/O: the file is \<open>argv[1]\<close>.  \<open>fread\<close> returns an unsigned count, which the code
  compares with -1.
\<close>

definition count_with_stdio :: "string \<Rightarrow> string list \<Rightarrow> int io" where
  "count_with_stdio program_name args =
     (if length args < 2 then p01_usage program_name c_eprint 1
      else
        file_size (hd args) (\<lambda>sz.
        bnd (sysi (CSys ''calloc'' [sz, 1])) (\<lambda>p.
        if p = 0 then p01_fail program_name
        else
          bnd (sysi (CFopen (hd args) ''r'')) (\<lambda>fp.
          if fp = 0 then p01_fail program_name
          else
            bnd (call (CSys ''fread'' [1, sz, fp])) (\<lambda>r.
            let got = take (nat sz) (dat r);
                buffer = got @ replicate (nat sz - length got) NUL
            in if int (length got) mod 2 ^ 64 = 2 ^ 64 - 1 then p01_fail program_name
               else
                 thn (print_counts buffer (to_int32 sz) (tl args)) (
                 bnd (sysi (CSys ''fclose'' [fp])) (\<lambda>rc.
                 if rc \<noteq> 0 then p01_fail program_name
                 else thn (act AFree) (ret 0))))))))"

definition p01_main :: "string list \<Rightarrow> int io" where
  "p01_main argv =
     (let program_name = hd argv;
          (os, used, operands) = getopt p01_options (tl argv) in
      bnd (p01_read_options program_name os False) (\<lambda>system_flag.
      if system_flag then count_with_syscalls program_name operands
      else count_with_stdio program_name (used @ operands)))"

section \<open>Laws\<close>

lemma printed_reads [simp]: "printed (map (\<lambda>c. Sys (CRead fd n) (f c)) cs) = []"
  by (induction cs) auto

lemma read_bytes_run:
  "script w = map (\<lambda>c. got_bytes [c]) content @ rest \<Longrightarrow>
   \<exists>w'. read_bytes fd (length content) w = Ret content w' \<and> script w' = rest \<and>
     printed (trace w') = printed (trace w)"
proof (induction content arbitrary: w)
  case (Cons c content)
  let ?w = "log_call (CRead fd 1) \<lparr>rv = 1, er = 0, dat = [c], src_addr = []\<rparr> (map (\<lambda>c. got_bytes [c]) content @ rest) w"
  from Cons.IH [of ?w] obtain w' where
    "read_bytes fd (length content) ?w = Ret content w'" "script w' = rest"
    "printed (trace w') = printed (trace w)" by auto
  with Cons.prems show ?case
    by (auto simp: c_read_def bnd_def call_def got_bytes_def norm_reply_def Let_def)
qed simp

lemma print_counts_run:
  "\<exists>w'. print_counts b sz subs w = Ret () w' \<and> script w' = script w \<and>
     printed (trace w') = printed (trace w) @ map (\<lambda>s. show_int (countSubstrings b s sz) @ [LF]) subs"
proof (induction subs arbitrary: w)
  case (Cons s subs)
  let ?w = "log_act (AOut (show_int (countSubstrings b s sz) @ [LF])) w"
  from Cons [of ?w] show ?case by (auto simp: c_print_def)
qed simp

section \<open>Properties\<close>

text \<open>
  C28. \<open>countSubstrings\<close> returns the number of positions of the buffer at which the substring
  occurs, up to the case of letters, overlapping occurrences included; the empty substring
  occurs once more than there are bytes.
\<close>

theorem countSubstrings_counts:
  assumes "NUL \<notin> set substring" "int (length buffer) < INT_MAX" "int (length substring) < INT_MAX"
  shows "countSubstrings buffer substring (int (length buffer)) =
    int (card {i. i + length substring \<le> length buffer \<and>
      map to_lower (take (length substring) (drop i buffer)) = map to_lower substring})"
  using countSubstrings_card [OF assms] by (simp add: occurs_at_def)

theorem countSubstrings_counts_witness:
  "countSubstrings ''aAa'' ''aa'' 3 = 2 \<and>
   card {i. i + 2 \<le> (3::nat) \<and> map to_lower (take 2 (drop i ''aAa'')) = map to_lower ''aa''} = 2"
proof -
  have "countSubstrings ''aAa'' ''aa'' 3 = 2" by code_simp
  with countSubstrings_counts [of "''aa''" "''aAa''"] show ?thesis
    by (simp add: INT_MAX_def numeral_2_eq_2)
qed

text \<open>
  With \<^verbatim>\<open>-s\<close>, for a file that can be opened and read, the program prints for each argument
  after the file name the number of its occurrences in the file, one per line, and returns 0.
\<close>

theorem count_with_syscalls_prints:
  assumes "script w = opened_file # file_stat # allocated # map (\<lambda>c. got_bytes [c]) content @ closed_file # rest"
    and "0 \<le> rv opened_file" "0 \<le> rv file_stat" "er file_stat = int (length content)"
    and "rv allocated \<noteq> 0" "rv closed_file = 0"
    and "int (length content) < INT_MAX" "subs \<noteq> []"
    and "\<forall>s \<in> set subs. NUL \<notin> set s \<and> int (length s) < INT_MAX"
  shows "\<exists>w'. count_with_syscalls program_name (file # subs) w = Ret 0 w' \<and>
    printed (trace w') = printed (trace w) @
      map (\<lambda>s. show_int (int (card {i. occurs_at content s i})) @ [LF]) subs"
proof -
  let ?w1 = "log_call (COpen file O_RDONLY) opened_file (file_stat # allocated #
      map (\<lambda>c. got_bytes [c]) content @ closed_file # rest) w"
  let ?w2 = "log_call (CSys (''stat '' @ file) []) file_stat (allocated #
      map (\<lambda>c. got_bytes [c]) content @ closed_file # rest) ?w1"
  let ?w3 = "log_call (CSys ''calloc'' [int (length content), 1]) allocated (
      map (\<lambda>c. got_bytes [c]) content @ closed_file # rest) ?w2"
  from read_bytes_run [of ?w3 content "closed_file # rest" "rv opened_file"] obtain w4 where
    w4: "read_bytes (rv opened_file) (length content) ?w3 = Ret content w4"
    "script w4 = closed_file # rest" "printed (trace w4) = printed (trace w)" by auto
  have counts: "map (\<lambda>s. show_int (countSubstrings content s (int (length content))) @ [LF]) subs =
      map (\<lambda>s. show_int (int (card {i. occurs_at content s i})) @ [LF]) subs"
    using assms(7,9) by (simp add: countSubstrings_card)
  from print_counts_run [of content "int (length content)" subs w4] obtain w5 where
    w5: "print_counts content (int (length content)) subs w4 = Ret () w5" "script w5 = script w4"
    "printed (trace w5) = printed (trace w) @
      map (\<lambda>s. show_int (int (card {i. occurs_at content s i})) @ [LF]) subs"
    unfolding w4(3) counts by blast
  have sz: "to_int32 (int (length content)) = int (length content)"
    using assms(7) by (intro to_int32_id) (simp add: in_int32_def INT_MAX_def INT_MIN_def)
  have norm: "norm_reply (COpen a i) r = r" "norm_reply (CSys b j) r = r" for a i b j r
    by (simp_all add: norm_reply_def)
  from assms(1-6,8) w4(1,2) w5 sz show ?thesis
    by (cases subs)
      (auto simp: count_with_syscalls_def file_size_def need_def bnd_def thn_def sysi_def call_def
        norm Let_def)
qed

theorem count_with_syscalls_prints_witness:
  "\<exists>w'. count_with_syscalls ''p01'' [''f'', ''a''] (world0 [took 3, \<lparr>rv = 0, er = 2, dat = [], src_addr = []\<rparr>, took 99,
       got_bytes ''a'', got_bytes ''A'', took 0]) = Ret 0 w' \<and> length (printed (trace w')) = 1"
  using count_with_syscalls_prints [of "world0 [took 3, \<lparr>rv = 0, er = 2, dat = [], src_addr = []\<rparr>, took 99,
       got_bytes ''a'', got_bytes ''A'', took 0]" "took 3" "\<lparr>rv = 0, er = 2, dat = [], src_addr = []\<rparr>" "took 99"
       "''aA''" "took 0" "[]" "[''a'']" "''p01''" "''f''"]
  by (auto simp: world0_def took_def INT_MAX_def)

end
