(* ===== verification/Partial_Sums.thy ===== *)
theory Partial_Sums
  imports Posix_IO
begin

text \<open>
  \<^verbatim>\<open>src/Homework1/main.c\<close>: the sum of the numbers from 1 to \<open>n\<close>, computed by child processes,
  each of which sums a part of the range and writes its result, the four bytes of an \<open>int\<close>,
  into a pipe; the parent adds what it reads from the pipe.

  A process is modelled with the replies of \<open>fork\<close>: a child is the run in which the \<open>i\<close>-th
  \<open>fork\<close> returned 0.  The data of the reply of \<open>pipe\<close> are the two descriptors.
\<close>

section \<open>The program\<close>

function partial_sum_loop :: "int \<Rightarrow> int \<Rightarrow> int \<Rightarrow> int" where
  "partial_sum_loop i to pSum =
     (if i \<le> to then partial_sum_loop (i + 1) to (to_int32 (pSum + i)) else pSum)"
  by pat_completeness auto
termination
  by (relation "measure (\<lambda>(i, to, pSum). nat (to + 1 - i))") auto

declare partial_sum_loop.simps [simp del]

definition computePartialSum :: "int \<Rightarrow> int \<Rightarrow> int" where
  "computePartialSum from to = partial_sum_loop from to 0"

text \<open>The part of child (or thread) \<open>i\<close>; the operands of the division are not negative.\<close>

definition part_from :: "int \<Rightarrow> int \<Rightarrow> int \<Rightarrow> int" where
  "part_from n p i = i * n div p + 1"

definition part_to :: "int \<Rightarrow> int \<Rightarrow> int \<Rightarrow> int" where
  "part_to n p i = (i + 1) * n div p"

text \<open>The bytes of an \<open>int\<close> in memory, the least significant first.\<close>

definition int_bytes :: "int \<Rightarrow> bytes" where
  "int_bytes v = map (\<lambda>k. char_of (nat (v div 256 ^ k mod 256))) [0, 1, 2, 3]"

definition bytes_int :: "bytes \<Rightarrow> int" where
  "bytes_int b = to_int32 (\<Sum>k < 4. int (of_char (b ! k)) * 256 ^ k)"

definition hw1_child :: "int \<Rightarrow> int \<Rightarrow> int \<Rightarrow> int \<Rightarrow> int \<Rightarrow> int io" where
  "hw1_child pipe_read pipe_write n p i =
     thn (c_close pipe_read) (
     let pSum = computePartialSum (part_from n p i) (part_to n p i) in
     bnd (sysi (CSys ''getpid'' [])) (\<lambda>pid.
     thn (c_print (''Child with PID '' @ show_int pid @ '' has computed a partial sum of ''
           @ show_int pSum @ ''.'')) (
     bnd (c_write pipe_write (int_bytes pSum) 4) (\<lambda>_.
     thn (c_close pipe_write) (c_exit 0)))))"

fun hw1_fork :: "int \<Rightarrow> int \<Rightarrow> int \<Rightarrow> int \<Rightarrow> int list \<Rightarrow> int io \<Rightarrow> int io" where
  "hw1_fork pipe_read pipe_write n p [] k = k"
| "hw1_fork pipe_read pipe_write n p (i # is) k =
     bnd (sysi CFork) (\<lambda>pid.
     if pid < 0 then thn (c_perror ''Fork error'') (c_exit EXIT_FAILURE)
     else if pid = 0 then hw1_child pipe_read pipe_write n p i
     else hw1_fork pipe_read pipe_write n p is k)"

text \<open>The parent: a read that does not fill \<open>curr\<close> leaves it indeterminate.\<close>

definition wait_all :: "unit io" where
  "wait_all = repeat_io (\<lambda>u. bnd (sysi (CSys ''wait'' [])) (\<lambda>pid. if pid > 0 then go () else leave ())) ()"

fun hw1_collect :: "int \<Rightarrow> nat \<Rightarrow> int \<Rightarrow> int io" where
  "hw1_collect pipe_read 0 acc = ret acc"
| "hw1_collect pipe_read (Suc k) acc =
     bnd (c_read pipe_read 4) (\<lambda>(_, d).
     need (if length d = 4 then Some (bytes_int d) else None) (\<lambda>curr.
     hw1_collect pipe_read k (to_int32 (acc + curr))))"

definition hw1_parent :: "int \<Rightarrow> int \<Rightarrow> int \<Rightarrow> int io" where
  "hw1_parent pipe_read pipe_write p =
     thn wait_all (
     thn (c_close pipe_write) (
     bnd (hw1_collect pipe_read (nat p) 0) (\<lambda>total_sum.
     seqs [c_print (''All children have terminated, the final sum is '' @ show_int total_sum @ ''.''),
       c_close pipe_read] (ret 0))))"

definition hw1_main :: "string list \<Rightarrow> int io" where
  "hw1_main argv =
     (if length argv \<noteq> 3 then
        thn (c_eprint ''Usage: ./main n numProcesses'') (c_exit EXIT_FAILURE)
      else
        (let n = atoi (argv ! 1); numProcesses = atoi (argv ! 2) in
         if n < 10 \<or> n > 1000 then
           thn (c_eprint ''n is not in range (must be between 10 and 1000 inclusive)'')
             (c_exit EXIT_FAILURE)
         else if numProcesses < 2 \<or> numProcesses > n div 2 \<or> numProcesses > 100 then
           thn (c_eprint ''numProcesses is not in range (must be between 2 and n/2 inclusive, with a maximum of 100)'')
             (c_exit EXIT_FAILURE)
         else
           bnd (call (CSys ''pipe'' [])) (\<lambda>r.
           if rv r < 0 then thn (c_perror ''Pipe error'') (c_exit EXIT_FAILURE)
           else
             (let pipe_read = int (of_char (dat r ! 0)); pipe_write = int (of_char (dat r ! 1)) in
              hw1_fork pipe_read pipe_write n numProcesses (map int [0..<nat numProcesses])
                (hw1_parent pipe_read pipe_write numProcesses)))))"

section \<open>The parts\<close>

lemma upto_append: "1 \<le> a + 1 \<Longrightarrow> a \<le> b \<Longrightarrow> [1..a] @ [a + 1..b] = [1..b :: int]"
  using upto_split2 [of 1 a b] upto_split1 [of 1 "a + 1" b]
  by (cases "a = 0") simp_all

text \<open>The parts, one after the other, are the range from 1 to \<open>n\<close>: none overlaps, none is missed.\<close>

lemma parts_prefix:
  assumes "0 \<le> n" "0 < p"
  shows "concat (map (\<lambda>i. [part_from n p (int i)..part_to n p (int i)]) [0..<k]) = [1..int k * n div p]"
proof (induction k)
  case (Suc k)
  have "int k * n div p \<le> (int k + 1) * n div p"
    using assms by (intro zdiv_mono1) (simp_all add: distrib_right)
  moreover have "0 \<le> int k * n div p" using assms by (simp add: pos_imp_zdiv_nonneg_iff)
  ultimately show ?case
    using Suc upto_append [of "int k * n div p" "(int k + 1) * n div p"]
    by (simp add: part_from_def part_to_def add.commute)
qed simp

lemma parts_cover:
  assumes "0 \<le> n" "0 < p"
  shows "concat (map (\<lambda>i. [part_from n p (int i)..part_to n p (int i)]) [0..<nat p]) = [1..n]"
  using parts_prefix [OF assms, of "nat p"] assms by simp

section \<open>The sums\<close>

lemma sum_upto_bound:
  assumes "0 \<le> m" "\<And>k. k \<in> {i..j} \<Longrightarrow> 0 \<le> k \<and> k \<le> m"
  shows "0 \<le> sum_list [i..j] \<and> sum_list [i..j] \<le> m * int (length [i..j])"
proof -
  have "0 \<le> sum_list xs \<and> sum_list xs \<le> m * int (length xs)"
    if "\<forall>x \<in> set xs. 0 \<le> x \<and> x \<le> m" for xs :: "int list"
    using that by (induction xs) (auto simp: algebra_simps)
  from this [of "[i..j]"] assms(2) show ?thesis by (simp del: length_upto)
qed

lemma partial_sum_loop_exact:
  assumes "0 \<le> acc" "0 < i" "\<And>j. i \<le> j \<Longrightarrow> j \<le> to \<Longrightarrow> acc + sum_list [i..j] \<le> INT_MAX"
  shows "partial_sum_loop i to acc = acc + sum_list [i..to]"
  using assms
proof (induction i to acc rule: partial_sum_loop.induct)
  case (1 i to acc)
  show ?case
  proof (cases "i \<le> to")
    case True
    have "acc + i \<le> INT_MAX" using 1(4) [of i] True by simp
    then have step: "to_int32 (acc + i) = acc + i"
      using 1(2,3) by (intro to_int32_id) (simp add: in_int32_def INT_MIN_def)
    have "partial_sum_loop (i + 1) to (to_int32 (acc + i)) = acc + i + sum_list [i + 1..to]"
      unfolding step
    proof (rule 1(1) [OF True, unfolded step])
      fix j assume j: "i + 1 \<le> j" "j \<le> to"
      with 1(4) [of j] show "acc + i + sum_list [i + 1..j] \<le> INT_MAX"
        by (simp add: upto_rec1 [of i j])
    qed (use 1(2,3) in simp_all)
    with True show ?thesis
      by (subst partial_sum_loop.simps) (simp add: upto_rec1 [of i to])
  next
    case False
    then show ?thesis by (simp add: partial_sum_loop.simps)
  qed
qed

lemma computePartialSum_exact:
  assumes "0 < a" "to \<le> 1000"
  shows "computePartialSum a to = sum_list [a..to]"
proof -
  have "sum_list [a..j] \<le> INT_MAX" if "a \<le> j" "j \<le> to" for j
  proof -
    have "sum_list [a..j] \<le> 1000 * int (length [a..j])"
      using sum_upto_bound [of 1000 a j] assms that by auto
    also have "\<dots> \<le> 1000 * 1000" using assms that by simp
    finally show ?thesis by (simp add: INT_MAX_def)
  qed
  then show ?thesis
    unfolding computePartialSum_def using assms
    by (subst partial_sum_loop_exact) simp_all
qed

section \<open>The pipe\<close>

lemma length_int_bytes [simp]: "length (int_bytes v) = 4"
  by (simp add: int_bytes_def)

lemma int_bytes_nth: "k < 4 \<Longrightarrow> int (of_char (int_bytes v ! k)) = v div 256 ^ k mod 256"
proof -
  assume "k < 4"
  then have "k = 0 \<or> k = 1 \<or> k = 2 \<or> k = 3" by auto
  moreover have "int (of_char (char_of (nat (x mod 256)))) = x mod 256" for x :: int
    by (simp add: nat_mod_distrib)
  ultimately show ?thesis unfolding int_bytes_def by (elim disjE) (simp_all del: of_char_of)
qed

lemma base_256: "(\<Sum>k < m. (v div 256 ^ k mod 256) * 256 ^ k) = v mod 256 ^ m" for v :: int
proof (induction m)
  case (Suc m)
  have "v mod 256 ^ Suc m = v mod (256 ^ m * 256)" by (simp add: mult.commute)
  also have "\<dots> = 256 ^ m * (v div 256 ^ m mod 256) + v mod 256 ^ m"
    by (rule zmod_zmult2_eq) simp
  finally show ?case using Suc by simp
qed simp

text \<open>Reading back the bytes of an \<open>int\<close> gives the \<open>int\<close>.\<close>

lemma bytes_int_bytes: "in_int32 v \<Longrightarrow> bytes_int (int_bytes v) = v"
proof -
  assume v: "in_int32 v"
  have "(\<Sum>k < 4. int (of_char (int_bytes v ! k)) * 256 ^ k) = (\<Sum>k < 4. (v div 256 ^ k mod 256) * 256 ^ k)"
    by (intro sum.cong) (simp_all add: int_bytes_nth)
  also have "\<dots> = v mod 2 ^ 32" by (simp add: base_256)
  finally have "bytes_int (int_bytes v) = to_int32 (v mod 2 ^ 32)"
    by (simp add: bytes_int_def)
  also have "\<dots> = to_int32 v"
    by (simp add: to_int32_def mod_simps)
  finally show ?thesis using v by (simp add: to_int32_id)
qed

lemma hw1_collect_run:
  assumes "script w = map (\<lambda>s. got_bytes (int_bytes s)) ss @ rest" "\<forall>s \<in> set ss. 0 \<le> s"
    "0 \<le> acc" "acc + sum_list ss \<le> INT_MAX"
  shows "\<exists>w'. hw1_collect fd (length ss) acc w = Ret (acc + sum_list ss) w' \<and> script w' = rest"
  using assms
proof (induction ss arbitrary: w acc)
  case (Cons s ss)
  have nonneg: "0 \<le> sum_list ss" using Cons.prems(2) by (intro sum_list_nonneg) auto
  from Cons.prems nonneg have range: "in_int32 s" "to_int32 (acc + s) = acc + s"
    by (auto simp: in_int32_def INT_MIN_def intro!: to_int32_id)
  let ?w = "log_call (CRead fd 4) (norm_reply (CRead fd 4) (got_bytes (int_bytes s)))
      (map (\<lambda>s. got_bytes (int_bytes s)) ss @ rest) w"
  from Cons.IH [of ?w "acc + s"] Cons.prems obtain w' where
    "hw1_collect fd (length ss) (acc + s) ?w = Ret (acc + s + sum_list ss) w'" "script w' = rest"
    by auto
  with Cons.prems(1) range show ?case
    by (simp add: c_read_def bnd_def call_def Let_def need_def got_bytes_def bytes_int_bytes
        norm_reply_def)
qed simp

lemma wait_all_run:
  "script w = waits @ [r] @ rest \<Longrightarrow> \<forall>x \<in> set waits. 0 < rv x \<Longrightarrow> rv r \<le> 0 \<Longrightarrow>
   \<exists>w'. wait_all w = Ret () w' \<and> script w' = rest"
proof (induction waits arbitrary: w)
  case Nil
  then show ?case
    by (simp add: wait_all_def repeat_io_def repeat_var.simps sysi_def bnd_def call_def
        norm_reply_def Let_def leave_def)
next
  case (Cons x waits)
  let ?w = "log_call (CSys ''wait'' []) x (waits @ [r] @ rest) w"
  from Cons have "\<exists>w'. wait_all ?w = Ret () w' \<and> script w' = rest" by auto
  moreover from Cons.prems have "wait_all w = wait_all ?w"
    unfolding wait_all_def repeat_io_def
    by (subst repeat_var.simps)
      (simp add: sysi_def bnd_def call_def norm_reply_def Let_def go_def progress_def)
  ultimately show ?case by simp
qed

lemma sum_parts:
  assumes "0 \<le> n" "0 < p"
  shows "(\<Sum>i \<leftarrow> [0..<nat p]. sum_list [part_from n p (int i)..part_to n p (int i)]) = n * (n + 1) div 2"
proof -
  have flat: "(\<Sum>x \<leftarrow> xss. sum_list x) = sum_list (concat xss)" for xss :: "int list list"
    by (induction xss) auto
  have gauss: "2 * sum_list [1..int m] = int m * (int m + 1)" for m
  proof (induction m)
    case (Suc m)
    have "[1..int m + 1] = [1..int m] @ [int m + 1]"
      by (subst upto_rec2) simp_all
    with Suc show ?case by (simp add: algebra_simps)
  qed simp
  have "(\<Sum>i \<leftarrow> [0..<nat p]. sum_list [part_from n p (int i)..part_to n p (int i)]) = sum_list [1..n]"
    using flat [of "map (\<lambda>i. [part_from n p (int i)..part_to n p (int i)]) [0..<nat p]"]
      parts_cover [OF assms] by (simp add: comp_def)
  with gauss [of "nat n"] assms show ?thesis by simp
qed

lemma child_sum:
  assumes "0 \<le> n" "n \<le> 1000" "0 < p" "i < nat p"
  shows "computePartialSum (part_from n p (int i)) (part_to n p (int i)) =
      sum_list [part_from n p (int i)..part_to n p (int i)]"
    "0 < part_from n p (int i)"
proof -
  show "0 < part_from n p (int i)"
    using assms by (simp add: part_from_def pos_imp_zdiv_nonneg_iff add_pos_nonneg)
  have "(int i + 1) * n \<le> p * n" using assms by (intro mult_right_mono) auto
  then have "(int i + 1) * n div p \<le> p * n div p" using assms by (intro zdiv_mono1) auto
  with assms have "part_to n p (int i) \<le> 1000" by (simp add: part_to_def)
  with \<open>0 < part_from n p (int i)\<close>
  show "computePartialSum (part_from n p (int i)) (part_to n p (int i)) =
      sum_list [part_from n p (int i)..part_to n p (int i)]"
    by (rule computePartialSum_exact)
qed

definition child_sums :: "int \<Rightarrow> int \<Rightarrow> int list" where
  "child_sums n p = map (\<lambda>i. computePartialSum (part_from n p (int i)) (part_to n p (int i))) [0..<nat p]"

lemma child_sums_total:
  assumes "0 \<le> n" "n \<le> 1000" "0 < p"
  shows "sum_list (child_sums n p) = n * (n + 1) div 2" "\<forall>s \<in> set (child_sums n p). 0 \<le> s"
proof -
  have "child_sums n p = map (\<lambda>i. sum_list [part_from n p (int i)..part_to n p (int i)]) [0..<nat p]"
    using child_sum [OF assms] by (simp add: child_sums_def)
  with sum_parts [of n p] assms show "sum_list (child_sums n p) = n * (n + 1) div 2" by simp
  show "\<forall>s \<in> set (child_sums n p). 0 \<le> s"
  proof
    fix s assume "s \<in> set (child_sums n p)"
    then obtain i where i: "i < nat p" and
      "s = computePartialSum (part_from n p (int i)) (part_to n p (int i))"
      by (auto simp: child_sums_def)
    with child_sum [OF assms i] have "s = sum_list [part_from n p (int i)..part_to n p (int i)]"
      "0 < part_from n p (int i)" by auto
    then show "0 \<le> s" by (auto intro!: sum_list_nonneg)
  qed
qed

section \<open>Properties\<close>

text \<open>
  The parts given to the children, or threads, are disjoint and cover the range: one after
  the other they are the list of the numbers from 1 to \<open>n\<close>, and the partial sums that the
  children compute, without overflow, add up to n(n+1)/2.
\<close>

theorem parts_partition_range:
  assumes "0 \<le> n" "n \<le> 1000" "0 < p"
  shows "concat (map (\<lambda>i. [part_from n p (int i)..part_to n p (int i)]) [0..<nat p]) = [1..n] \<and>
    (\<Sum>i \<leftarrow> [0..<nat p]. computePartialSum (part_from n p (int i)) (part_to n p (int i))) = n * (n + 1) div 2"
  using parts_cover [of n p] child_sums_total(1) [OF assms] assms by (simp add: child_sums_def)

theorem parts_partition_range_witness:
  "computePartialSum 1 3 + computePartialSum 4 6 + computePartialSum 7 10 = 55"
proof -
  have "(\<Sum>i \<leftarrow> [0..<nat 3]. computePartialSum (part_from 10 3 (int i)) (part_to 10 3 (int i))) = 10 * (10 + 1) div 2"
    using parts_partition_range [of 10 3] by simp
  then show ?thesis by (simp add: part_from_def part_to_def upt_rec)
qed

text \<open>
  C29. Whatever the order in which the children's results arrive in the pipe, the parent prints
  n(n+1)/2 and returns 0.
\<close>

theorem hw1_parent_prints_sum:
  assumes "script w = waits @ [no_child] @ map (\<lambda>s. got_bytes (int_bytes s)) results @ rest"
    and "\<forall>x \<in> set waits. 0 < rv x" "rv no_child \<le> 0"
    and "10 \<le> n" "n \<le> 1000" "2 \<le> p"
    and "mset results = mset (child_sums n p)"
  shows "\<exists>w' pre. hw1_parent pipe_read pipe_write p w = Ret 0 w' \<and>
    trace w' = pre @ [Act (AOut (''All children have terminated, the final sum is '' @
        show_int (n * (n + 1) div 2) @ ''.'')), Act (AClose pipe_read)]"
proof -
  have range: "0 \<le> n" "0 < p" using assms(4,6) by auto
  have results: "sum_list results = n * (n + 1) div 2"
    using arg_cong [OF assms(7), of sum_mset] child_sums_total(1) [OF range(1) assms(5) range(2)]
    by (simp add: sum_mset_sum_list)
  have len: "length results = nat p"
    using arg_cong [OF assms(7), of size] by (simp add: child_sums_def)
  have nonneg: "\<forall>s \<in> set results. 0 \<le> s"
    using child_sums_total(2) [OF range(1) assms(5) range(2)] mset_eq_setD [OF assms(7)] by simp
  have "n * (n + 1) \<le> 1000 * 1001" using assms(4,5) by (intro mult_mono) auto
  then have bound: "sum_list results \<le> INT_MAX" by (simp add: results INT_MAX_def)
  from wait_all_run [OF assms(1-3)] obtain w1 where w1: "wait_all w = Ret () w1"
    "script w1 = map (\<lambda>s. got_bytes (int_bytes s)) results @ rest" by blast
  from hw1_collect_run [of "log_act (AClose pipe_write) w1" results rest 0 pipe_read] w1(2) nonneg bound
  obtain w2 where w2: "hw1_collect pipe_read (nat p) 0 (log_act (AClose pipe_write) w1) =
      Ret (sum_list results) w2" by (auto simp: len)
  with w1(1) show ?thesis
    by (auto simp: hw1_parent_def thn_def bnd_def c_close_def c_print_def results)
qed

theorem hw1_parent_prints_sum_witness:
  "\<exists>w'. hw1_parent 3 4 2 (world0 ([took 100, took 101, failed 10] @
       map (\<lambda>s. got_bytes (int_bytes s)) [40, 15])) = Ret 0 w'"
proof -
  have "child_sums 10 2 = [15, 40]"
    by (simp add: child_sums_def part_from_def part_to_def upt_rec child_sum computePartialSum_exact upto_rec1)
  then show ?thesis
    using hw1_parent_prints_sum [of "world0 ([took 100, took 101, failed 10] @
       map (\<lambda>s. got_bytes (int_bytes s)) [40, 15])" "[took 100, took 101]" "failed 10" "[40, 15]" "[]" 10 2 3 4]
    by (auto simp: world0_def took_def failed_def)
qed

text \<open>
  A child writes exactly the four bytes of its partial sum into the pipe, closes both ends
  and exits with status 0; it does nothing else to the pipe.
\<close>

theorem hw1_child_writes_part:
  assumes "pipe_read \<noteq> pipe_write" "0 \<le> n" "n \<le> 1000" "0 < p" "i < nat p"
  shows "case hw1_child pipe_read pipe_write n p (int i) w of
     Ret x w' \<Rightarrow> False
   | Stop s w' \<Rightarrow> (\<exists>k. s = Blocked k) \<or>
       (s = Exited 0 \<and> (\<exists>t. trace w' = trace w @ t \<and>
          bytes_offered pipe_write t = int_bytes (sum_list [part_from n p (int i)..part_to n p (int i)]) \<and>
          bytes_offered pipe_read t = [] \<and> closed t = [pipe_read, pipe_write]))"
proof -
  have "wpt (hw1_child pipe_read pipe_write n p (int i)) (\<lambda>_ _. False)
     (\<lambda>s t. (\<exists>k. s = Blocked k) \<or> (s = Exited 0 \<and>
          bytes_offered pipe_write t = int_bytes (sum_list [part_from n p (int i)..part_to n p (int i)]) \<and>
          bytes_offered pipe_read t = [] \<and> closed t = [pipe_read, pipe_write])) []"
    unfolding hw1_child_def Let_def
    using assms(1) by (auto intro!: wpt_intros wpt_write simp: child_sum [OF assms(2-5)])
  from wpt_case [OF this, of w] show ?thesis by (auto split: result.splits)
qed

theorem hw1_child_writes_part_witness:
  "\<exists>w'. hw1_child 3 4 10 2 (int 1) (world0 [took 77, took 4]) = Stop (Exited 0) w' \<and>
     bytes_offered 4 (trace w') = int_bytes 40"
proof -
  let ?m = "hw1_child 3 4 10 2 (int 1) (world0 [took 77, took 4])"
  have "stops_as ?m (Exited 0)"
    by (simp add: hw1_child_def eval_simps)
  note run = stops_asD [OF this]
  have "sum_list [part_from 10 2 (int 1)..part_to 10 2 (int 1)] = 40"
    by (simp add: part_from_def part_to_def upto_rec1)
  with hw1_child_writes_part [of 3 4 10 2 1 "world0 [took 77, took 4]"] run
  show ?thesis by (auto simp: world0_def split: result.splits)
qed

end
