(* ===== verification/Transition.thy ===== *)
theory Transition
  imports C_Prelude
begin

text \<open>
  Programs of several threads: a transition system, its reachable states, and the two ways the
  developments of the threaded programs argue about it.  A thread takes one step, a statement
  that reads or writes shared memory or a call of the thread library, at a time, and any thread
  that can take a step may be the next (sequential consistency).
\<close>

inductive reachable :: "('s \<Rightarrow> bool) \<Rightarrow> ('s \<Rightarrow> 's \<Rightarrow> bool) \<Rightarrow> 's \<Rightarrow> bool"
  for init step where
  reach_init: "init s \<Longrightarrow> reachable init step s"
| reach_step: "reachable init step s \<Longrightarrow> step s s' \<Longrightarrow> reachable init step s'"

lemma reachable_run: "step\<^sup>*\<^sup>* s s' \<Longrightarrow> reachable init step s \<Longrightarrow> reachable init step s'"
  by (induction rule: rtranclp_induct) (auto intro: reach_step)

locale inductive_invariant =
  fixes init :: "'s \<Rightarrow> bool" and step :: "'s \<Rightarrow> 's \<Rightarrow> bool" and inv :: "'s \<Rightarrow> bool"
  assumes inv_init: "init s \<Longrightarrow> inv s"
    and inv_step: "inv s \<Longrightarrow> step s s' \<Longrightarrow> inv s'"
begin

lemma inv_reachable: "reachable init step s \<Longrightarrow> inv s"
  by (induction rule: reachable.induct) (auto intro: inv_init inv_step)

end

text \<open>
  When every step makes a measure smaller and a state without a step satisfies \<open>goal\<close>, every
  execution is finite and ends in a state that satisfies \<open>goal\<close>.
\<close>

locale terminating = inductive_invariant +
  fixes \<mu> :: "'s \<Rightarrow> nat" and goal :: "'s \<Rightarrow> bool"
  assumes decreases: "inv s \<Longrightarrow> step s s' \<Longrightarrow> \<mu> s' < \<mu> s"
    and progress_or_goal: "inv s \<Longrightarrow> goal s \<or> (\<exists>s'. step s s')"
begin

lemma no_infinite_run: "\<not> (\<exists>f. init (f 0) \<and> (\<forall>i. step (f i) (f (Suc i))))"
proof
  assume "\<exists>f. init (f 0) \<and> (\<forall>i. step (f i) (f (Suc i)))"
  then obtain f where f: "init (f 0)" "\<And>i. step (f i) (f (Suc i))" by blast
  have inv: "inv (f i)" for i
    by (induction i) (auto intro: inv_init inv_step f)
  have "\<mu> (f i) + i \<le> \<mu> (f 0)" for i
  proof (induction i)
    case (Suc i)
    with decreases [OF inv [of i] f(2) [of i]] show ?case by simp
  qed simp
  from this [of "Suc (\<mu> (f 0))"] show False by simp
qed

lemma reaches_goal:
  assumes "inv s"
  shows "\<exists>s'. step\<^sup>*\<^sup>* s s' \<and> goal s'"
  using assms
proof (induction "\<mu> s" arbitrary: s rule: less_induct)
  case less
  from progress_or_goal [OF less.prems] show ?case
  proof
    assume "\<exists>s'. step s s'"
    then obtain s' where s': "step s s'" ..
    from less.hyps [OF decreases [OF less.prems s'] inv_step [OF less.prems s']]
    show ?thesis using s' by (meson converse_rtranclp_into_rtranclp)
  qed blast
qed

end

text \<open>
  Executions with a schedule: \<open>move t s\<close> is the step thread \<open>t\<close> takes from \<open>s\<close>, if it can take
  one, and \<open>who i\<close> is the thread that takes step \<open>i\<close>.  A schedule is weakly fair when a thread
  that can take a step from some moment on takes one after that moment.
\<close>

definition execution :: "('t \<Rightarrow> 's \<Rightarrow> 's option) \<Rightarrow> (nat \<Rightarrow> 't) \<Rightarrow> (nat \<Rightarrow> 's) \<Rightarrow> bool" where
  "execution move who f \<longleftrightarrow> (\<forall>i. move (who i) (f i) = Some (f (Suc i)))"

definition weakly_fair :: "('t \<Rightarrow> 's \<Rightarrow> 's option) \<Rightarrow> (nat \<Rightarrow> 't) \<Rightarrow> (nat \<Rightarrow> 's) \<Rightarrow> bool" where
  "weakly_fair move who f \<longleftrightarrow>
     (\<forall>t i. (\<forall>j \<ge> i. move t (f j) \<noteq> None) \<longrightarrow> (\<exists>j \<ge> i. who j = t))"

text \<open>
  Programs with a busy wait: a step makes the measure smaller or leaves the state as it is (the
  thread spins), and while the goal is not reached some thread can do more than spin.  Then an
  infinite execution spins for ever from some moment on, and is not fair.
\<close>

locale busy_waiting = inductive_invariant +
  fixes move :: "'t \<Rightarrow> 's \<Rightarrow> 's option" and \<mu> :: "'s \<Rightarrow> nat" and goal :: "'s \<Rightarrow> bool"
  assumes step_iff: "step s s' \<longleftrightarrow> (\<exists>t. move t s = Some s')"
    and decreases_or_spins: "inv s \<Longrightarrow> move t s = Some s' \<Longrightarrow> s' = s \<or> \<mu> s' < \<mu> s"
    and goal_stops: "goal s \<Longrightarrow> move t s = None"
    and moves_or_goal: "inv s \<Longrightarrow> goal s \<or> (\<exists>t s'. move t s = Some s' \<and> s' \<noteq> s)"
begin

sublocale moving: terminating init "\<lambda>s s'. step s s' \<and> s' \<noteq> s" inv \<mu> goal
proof (unfold_locales, goal_cases)
  case (3 s s')
  then show ?case using decreases_or_spins [of s _ s'] by (auto simp: step_iff)
next
  case (4 s)
  then show ?case using moves_or_goal [of s] by (auto simp: step_iff)
qed (use inv_init inv_step in \<open>auto simp: step_iff\<close>)

lemma reaches_goal: "inv s \<Longrightarrow> \<exists>s'. step\<^sup>*\<^sup>* s s' \<and> goal s'"
  using moving.reaches_goal [of s] rtranclp_mono [of "\<lambda>s s'. step s s' \<and> s' \<noteq> s" step] by blast

lemma inv_execution: "init (f 0) \<Longrightarrow> execution move who f \<Longrightarrow> inv (f i)"
  by (induction i) (auto simp: execution_def intro: inv_init inv_step step_iff [THEN iffD2])

lemma spins_for_ever:
  assumes "init (f 0)" and run: "execution move who f"
  shows "\<exists>i. \<forall>j \<ge> i. f j = f i"
proof -
  obtain i where least: "\<And>j. \<mu> (f i) \<le> \<mu> (f j)"
    using ex_has_least_nat [of "\<lambda>_. True" _ "\<lambda>i. \<mu> (f i)"] by auto
  have "f j = f i" if "i \<le> j" for j
    using that
  proof (induction rule: dec_induct)
    case (step j)
    have "f (Suc j) = f j \<or> \<mu> (f (Suc j)) < \<mu> (f j)"
      using decreases_or_spins [OF inv_execution [OF assms, of j], of "who j"] run by (simp add: execution_def)
    with step.IH least [of "Suc j"] show ?case by auto
  qed simp
  then show ?thesis by blast
qed

lemma not_fair:
  assumes "init (f 0)" and run: "execution move who f"
  shows "\<not> weakly_fair move who f"
proof
  assume fair: "weakly_fair move who f"
  from spins_for_ever [OF assms] obtain i where i: "\<And>j. i \<le> j \<Longrightarrow> f j = f i" by blast
  have "\<not> goal (f i)" using goal_stops [of "f i" "who i"] run by (auto simp: execution_def)
  with moves_or_goal [OF inv_execution [OF assms, of i]]
  obtain t s' where t: "move t (f i) = Some s'" "s' \<noteq> f i" by blast
  with i fair obtain j where "i \<le> j" "who j = t" unfolding weakly_fair_def
    by (metis option.distinct(1))
  with run i [of j] i [of "Suc j"] t show False by (simp add: execution_def) (metis option.inject)
qed

end

text \<open>A state that is reached, and that a thread can leave as it is, is where an execution spins.\<close>

lemma execution_to_spin:
  assumes "reachable init step s" and "move t s = Some s" and "\<And>s s'. step s s' \<Longrightarrow> \<exists>t. move t s = Some s'"
  shows "\<exists>who f i. init (f 0) \<and> execution move who f \<and> (\<forall>j \<ge> i. f j = s)"
proof -
  have "\<exists>who f i. init (f 0) \<and> f i = s \<and> (\<forall>j < i. move (who j) (f j) = Some (f (Suc j)))"
    using assms(1)
  proof induction
    case (reach_init s)
    then show ?case by (intro exI [of _ undefined] exI [of _ "\<lambda>_. s"] exI [of _ 0]) simp
  next
    case (reach_step s s')
    then obtain who f i where f: "init (f 0)" "f i = s" "\<forall>j < i. move (who j) (f j) = Some (f (Suc j))" by blast
    from assms(3) [OF reach_step.hyps(2)] obtain t where "move t s = Some s'" by blast
    with f have "init ((f(Suc i := s')) 0) \<and> (f(Suc i := s')) (Suc i) = s' \<and>
        (\<forall>j < Suc i. move ((who(i := t)) j) ((f(Suc i := s')) j) = Some ((f(Suc i := s')) (Suc j)))"
      by (auto simp: less_Suc_eq)
    then show ?case by blast
  qed
  then obtain who f i where f: "init (f 0)" "f i = s" "\<forall>j < i. move (who j) (f j) = Some (f (Suc j))" by blast
  let ?f = "\<lambda>j. if j < i then f j else s" and ?who = "\<lambda>j. if j < i then who j else t"
  have "move (?who j) (?f j) = Some (?f (Suc j))" for j
  proof (cases "j < i")
    case True
    with f(3) have "move (who j) (f j) = Some (f (Suc j))" by blast
    with True f(2) show ?thesis by (cases "Suc j = i") auto
  qed (use assms(2) in auto)
  then have "execution move ?who ?f" by (simp add: execution_def)
  moreover have "init (?f 0)" using f by (cases "i = 0") auto
  ultimately show ?thesis by (intro exI [of _ ?who] exI [of _ ?f] exI [of _ i]) auto
qed

text \<open>A finite execution given by its schedule.\<close>

fun run_schedule :: "('t \<Rightarrow> 's \<Rightarrow> 's option) \<Rightarrow> 't list \<Rightarrow> 's \<Rightarrow> 's option" where
  "run_schedule move [] s = Some s"
| "run_schedule move (t # ts) s = (case move t s of None \<Rightarrow> None | Some s' \<Rightarrow> run_schedule move ts s')"

lemma run_schedule_reachable:
  assumes "\<And>t s s'. move t s = Some s' \<Longrightarrow> step s s'"
    and "run_schedule move ts s = Some s'" "reachable init step s"
  shows "reachable init step s'"
  using assms(2,3)
proof (induction ts arbitrary: s)
  case (Cons t ts)
  then show ?case by (auto split: option.splits intro: reach_step [OF Cons.prems(2) assms(1)])
qed simp

section \<open>Queues\<close>

text \<open>The specification: a queue of at most \<open>cap\<close> items.\<close>

datatype 'a queue_event = Idle | Put 'a | Get 'a

fun queue_step :: "nat \<Rightarrow> 'a list \<Rightarrow> 'a queue_event \<Rightarrow> 'a list \<Rightarrow> bool" where
  "queue_step cap q Idle q' \<longleftrightarrow> q' = q"
| "queue_step cap q (Put x) q' \<longleftrightarrow> length q < cap \<and> q' = q @ [x]"
| "queue_step cap q (Get x) q' \<longleftrightarrow> q = x # q'"

section \<open>Lists of threads\<close>

lemma nth_updated: "j < length xs \<Longrightarrow> xs[i := x] ! j = (if j = i then x else xs ! j)"
  by auto

text \<open>A sum over the threads, after one of them took a step.\<close>

lemma sum_list_update:
  "k < length xs \<Longrightarrow> sum_list (map f (xs[k := y])) + f (xs ! k) = sum_list (map f xs) + (f y :: 'b :: comm_monoid_add)"
proof (induction xs arbitrary: k)
  case (Cons x xs)
  show ?case
  proof (cases k)
    case (Suc j)
    with Cons show ?thesis by (simp add: add.assoc)
  qed (simp add: ac_simps)
qed simp

lemma sum_list_update_int:
  "k < length xs \<Longrightarrow> sum_list (map f (xs[k := y])) = sum_list (map f xs) - f (xs ! k) + (f y :: int)"
proof (induction xs arbitrary: k)
  case (Cons x xs)
  then show ?case by (cases k) auto
qed simp

lemma sum_list_elem_le: "k < length xs \<Longrightarrow> f (xs ! k) \<le> (sum_list (map f xs) :: nat)"
  by (simp add: member_le_sum_list)

lemma sum_list_two_le:
  assumes "i < length xs" "j < length xs" "i \<noteq> j"
  shows "f (xs ! i) + f (xs ! j) \<le> (sum_list (map f xs) :: nat)"
proof -
  have "f (xs ! i) + f (xs ! j) = (\<Sum>k \<in> {i, j}. f (xs ! k))" using assms(3) by simp
  also have "\<dots> \<le> (\<Sum>k < length xs. f (xs ! k))"
    by (rule sum_mono2) (use assms in auto)
  also have "\<dots> = sum_list (map f xs)"
    by (simp add: sum_list_sum_nth atLeast0LessThan)
  finally show ?thesis .
qed

lemma length_filter_sum: "length (filter P xs) = (\<Sum>x \<leftarrow> xs. if P x then 1 else 0)"
  by (induction xs) auto

end
