(* ===== verification/Sum_Threads.thy ===== *)
theory Sum_Threads
  imports Transition Partial_Sums
begin

text \<open>
  \<^verbatim>\<open>src/Homework2/main.c\<close>: the sum of the squares of the numbers from 1 to \<open>n\<close>, computed by
  \<open>numThreads\<close> threads that add to a global variable under a mutex.

  The state has the globals, the threads created so far and the control point of \<open>main\<close>.  A
  thread is at a control point of \<open>computePartialSum\<close>; \<open>totalSum += i * i\<close> is a load and a
  store.  The parameters of the system are the arguments \<open>n\<close> and \<open>numThreads\<close>, after the tests
  at the start of \<open>main\<close> (\<open>hw2_args\<close>).  \<open>pthread_create\<close> and \<open>pthread_join\<close> succeed.
\<close>

datatype tpc = Test | Acquire | Load | Store | Report | Release | Finished

record thread =
  tpc :: tpc
  ival :: int
  upto_val :: int
  tmp :: int

datatype mpc = Create nat | Join nat | Print_total | Main_done

record sums =
  totalSum :: int
  mutex :: "nat option"
  threads :: "thread list"
  main_at :: mpc
  printed_total :: "int option"

text \<open>One step of thread \<open>k\<close>; \<open>None\<close> when it has to wait, or has ended.\<close>

definition thread_step :: "nat \<Rightarrow> sums \<Rightarrow> sums option" where
  "thread_step k s =
     (let t = threads s ! k;
          move = (\<lambda>t'. s\<lparr>threads := (threads s)[k := t']\<rparr>)
      in case tpc t of
           Test \<Rightarrow> Some (move (t\<lparr>tpc := (if ival t \<le> upto_val t then Acquire else Finished)\<rparr>))
         | Acquire \<Rightarrow>
             (if mutex s = None then Some ((move (t\<lparr>tpc := Load\<rparr>))\<lparr>mutex := Some k\<rparr>) else None)
         | Load \<Rightarrow> Some (move (t\<lparr>tpc := Store, tmp := totalSum s\<rparr>))
         | Store \<Rightarrow>
             Some ((move (t\<lparr>tpc := Report\<rparr>))\<lparr>totalSum := to_int32 (tmp t + to_int32 (ival t * ival t))\<rparr>)
         | Report \<Rightarrow> Some (move (t\<lparr>tpc := Release\<rparr>))
         | Release \<Rightarrow>
             Some ((move (t\<lparr>tpc := Test, ival := to_int32 (ival t + 1)\<rparr>))\<lparr>mutex := None\<rparr>)
         | Finished \<Rightarrow> None)"

text \<open>The thread \<open>main\<close> creates with the bounds of part \<open>k\<close>.\<close>

definition new_thread :: "int \<Rightarrow> int \<Rightarrow> nat \<Rightarrow> thread" where
  "new_thread n p k =
     \<lparr>tpc = Test, ival = part_from n p (int k), upto_val = part_to n p (int k), tmp = 0\<rparr>"

definition main_step :: "int \<Rightarrow> int \<Rightarrow> sums \<Rightarrow> sums option" where
  "main_step n p s =
     (case main_at s of
        Create k \<Rightarrow>
          (if int k < p
           then Some (s\<lparr>threads := threads s @ [new_thread n p k], main_at := Create (Suc k)\<rparr>)
           else Some (s\<lparr>main_at := Join 0\<rparr>))
      | Join k \<Rightarrow>
          (if int k < p
           then (if tpc (threads s ! k) = Finished then Some (s\<lparr>main_at := Join (Suc k)\<rparr>) else None)
           else Some (s\<lparr>main_at := Print_total\<rparr>))
      | Print_total \<Rightarrow> Some (s\<lparr>printed_total := Some (totalSum s), main_at := Main_done\<rparr>)
      | Main_done \<Rightarrow> None)"

inductive sums_step :: "int \<Rightarrow> int \<Rightarrow> sums \<Rightarrow> sums \<Rightarrow> bool" for n p where
  by_thread: "k < length (threads s) \<Longrightarrow> thread_step k s = Some s' \<Longrightarrow> sums_step n p s s'"
| by_main: "main_step n p s = Some s' \<Longrightarrow> sums_step n p s s'"

definition hw2_args :: "int \<Rightarrow> int \<Rightarrow> bool" where
  "hw2_args n p \<longleftrightarrow> \<not> (n < 10 \<or> n > 1000) \<and> \<not> (p < 2 \<or> p > n div 2 \<or> p > 100)"

text \<open>The tests at the start of \<open>main\<close>, which \<open>level3.c\<close> repeats word for word.\<close>

definition hw2_check_args :: "string list \<Rightarrow> (int \<times> int) io" where
  "hw2_check_args argv =
     (if length argv \<noteq> 3 then
        thn (c_eprint ''Usage: ./main n numThreads'') (c_exit EXIT_FAILURE)
      else
        (let n = atoi (argv ! 1); numThreads = atoi (argv ! 2) in
         if n < 10 \<or> n > 1000 then
           thn (c_eprint ''n is not in range (must be between 10 and 1000 inclusive)'')
             (c_exit EXIT_FAILURE)
         else if numThreads < 2 \<or> numThreads > n div 2 \<or> numThreads > 100 then
           thn (c_eprint ''numThreads is not in range (must be between 2 and n/2 inclusive, with a maximum of 100)'')
             (c_exit EXIT_FAILURE)
         else ret (n, numThreads)))"

lemma hw2_check_args_ret:
  "hw2_check_args argv w = Ret (n, p) w' \<longleftrightarrow>
     length argv = 3 \<and> n = atoi (argv ! 1) \<and> p = atoi (argv ! 2) \<and> hw2_args n p \<and> w' = w"
  by (auto simp: hw2_check_args_def hw2_args_def Let_def c_eprint_def)

definition sums_init :: "int \<Rightarrow> int \<Rightarrow> sums \<Rightarrow> bool" where
  "sums_init n p s \<longleftrightarrow> hw2_args n p \<and>
     s = \<lparr>totalSum = 0, mutex = None, threads = [], main_at = Create 0, printed_total = None\<rparr>"

section \<open>The invariant\<close>

definition squares :: "int \<Rightarrow> int \<Rightarrow> int" where
  "squares a b = (\<Sum>i \<leftarrow> [a..b]. i * i)"

definition in_critical :: "thread \<Rightarrow> bool" where
  "in_critical t \<longleftrightarrow> tpc t \<in> {Load, Store, Report, Release}"

text \<open>What a thread still has to add.\<close>

definition todo :: "thread \<Rightarrow> int" where
  "todo t = squares (if tpc t \<in> {Report, Release} then ival t + 1 else ival t) (upto_val t)"

definition thread_ok :: "int \<Rightarrow> sums \<Rightarrow> nat \<Rightarrow> thread \<Rightarrow> bool" where
  "thread_ok n s k t \<longleftrightarrow>
     0 < ival t \<and> upto_val t \<le> n \<and> ival t \<le> n + 1 \<and>
     (tpc t \<notin> {Test, Finished} \<longrightarrow> ival t \<le> upto_val t) \<and>
     (tpc t = Finished \<longrightarrow> upto_val t < ival t) \<and>
     (in_critical t \<longleftrightarrow> mutex s = Some k) \<and>
     (tpc t = Store \<longrightarrow> tmp t = totalSum s)"

text \<open>The number of threads created, from the control point of \<open>main\<close>.\<close>

definition created :: "int \<Rightarrow> mpc \<Rightarrow> nat" where
  "created p m = (case m of Create k \<Rightarrow> k | _ \<Rightarrow> nat p)"

definition sums_inv :: "int \<Rightarrow> int \<Rightarrow> sums \<Rightarrow> bool" where
  "sums_inv n p s \<longleftrightarrow>
     length (threads s) = created p (main_at s) \<and> created p (main_at s) \<le> nat p \<and>
     (\<forall>k < length (threads s). thread_ok n s k (threads s ! k)) \<and>
     (\<forall>k. mutex s = Some k \<longrightarrow> k < length (threads s)) \<and>
     0 \<le> totalSum s \<and>
     totalSum s + (\<Sum>t \<leftarrow> threads s. todo t) +
       squares (part_from n p (int (length (threads s)))) n = squares 1 n \<and>
     (case main_at s of
        Create k \<Rightarrow> True
      | Join k \<Rightarrow> k \<le> nat p \<and> (\<forall>j < k. tpc (threads s ! j) = Finished)
      | _ \<Rightarrow> \<forall>t \<in> set (threads s). tpc t = Finished) \<and>
     printed_total s = (if main_at s = Main_done then Some (totalSum s) else None)"

lemma squares_rec: "squares a b = (if a \<le> b then a * a + squares (a + 1) b else 0)"
  by (simp add: squares_def upto_rec1)

lemma squares_nonneg: "0 \<le> squares a b"
  unfolding squares_def by (intro sum_list_nonneg) auto

lemma squares_split: "a \<le> b + 1 \<Longrightarrow> b \<le> c \<Longrightarrow> squares a c = squares a b + squares (b + 1) c"
proof (cases "a = b + 1")
  case False
  assume "a \<le> b + 1" "b \<le> c"
  with False have "[a..c] = [a..b] @ [b + 1..c]" by (intro upto_split2 [of a b c]) auto
  then show ?thesis by (simp add: squares_def)
qed (simp add: squares_def)

lemma squares_bound: "n \<le> 1000 \<Longrightarrow> squares 1 n \<le> 1000000000"
proof -
  assume n: "n \<le> 1000"
  have "(\<Sum>i \<leftarrow> xs. i * i) \<le> 1000000 * int (length xs)" if "\<forall>i \<in> set xs. 0 \<le> i \<and> i \<le> 1000" for xs :: "int list"
    using that
  proof (induction xs)
    case (Cons x xs)
    have "x * x \<le> 1000 * 1000" using Cons.prems by (intro mult_mono) auto
    with Cons show ?case by simp
  qed simp
  from this [of "[1..n]"] n have "squares 1 n \<le> 1000000 * int (length [1..n])" by (simp add: squares_def)
  also have "\<dots> \<le> 1000000 * 1000" using n by simp
  finally show ?thesis by simp
qed

section \<open>The steps keep the invariant\<close>

lemma sums_inv_init: "sums_init n p s \<Longrightarrow> sums_inv n p s"
  by (simp add: sums_init_def sums_inv_def created_def part_from_def hw2_args_def)

lemma todo_nonneg: "0 \<le> todo t"
  by (simp add: todo_def squares_nonneg)

lemma todo_le:
  assumes "sums_inv n p s" "k < length (threads s)"
  shows "totalSum s + todo (threads s ! k) \<le> squares 1 n"
proof -
  have "todo (threads s ! k) \<le> (\<Sum>t \<leftarrow> threads s. todo t)"
    using assms(2) todo_nonneg
    by (metis (no_types, lifting) image_eqI length_map list.set_map member_le_sum_list nth_map nth_mem imageE)
  with assms(1) squares_nonneg show ?thesis by (smt (verit) sums_inv_def)
qed

text \<open>A step of one thread, seen from the others.\<close>

lemma sums_inv_move:
  assumes inv: "sums_inv n p s" and k: "k < length (threads s)"
    and running: "tpc (threads s ! k) \<noteq> Finished"
    and s': "threads s' = (threads s)[k := t']" "main_at s' = main_at s"
      "printed_total s' = printed_total s"
    and ok: "thread_ok n s' k t'"
    and own: "\<And>j. j \<noteq> k \<Longrightarrow> mutex s' = Some j \<longleftrightarrow> mutex s = Some j"
    and total: "totalSum s' = totalSum s \<or> mutex s = Some k" "0 \<le> totalSum s'"
      "totalSum s' + todo t' = totalSum s + todo (threads s ! k)"
  shows "sums_inv n p s'"
proof -
  have threads: "thread_ok n s' j (threads s' ! j)" if "j < length (threads s')" for j
  proof (cases "j = k")
    case True
    with ok k show ?thesis by (simp add: s')
  next
    case False
    with inv that have old: "thread_ok n s j (threads s ! j)" by (simp add: sums_inv_def s')
    then have "totalSum s' = totalSum s \<or> \<not> in_critical (threads s ! j)"
      using total(1) False by (auto simp: thread_ok_def)
    with old False own [of j] show ?thesis by (auto simp: thread_ok_def in_critical_def s')
  qed
  have held: "j < length (threads s)" if "mutex s' = Some j" for j
    using that own [of j] inv k by (cases "j = k") (auto simp: sums_inv_def)
  have sums: "(\<Sum>t \<leftarrow> (threads s)[k := t']. todo t) =
      (\<Sum>t \<leftarrow> threads s. todo t) - todo (threads s ! k) + todo t'"
    by (rule sum_list_update_int [OF k])
  have main: "case main_at s of
        Create k \<Rightarrow> True
      | Join j \<Rightarrow> j \<le> nat p \<and> (\<forall>i < j. tpc ((threads s)[k := t'] ! i) = Finished)
      | _ \<Rightarrow> False"
  proof (cases "main_at s")
    case (Join j)
    with inv running have "\<not> k < j" by (auto simp: sums_inv_def)
    with Join inv show ?thesis by (auto simp: sums_inv_def nth_list_update)
  qed (use inv running k in \<open>auto simp: sums_inv_def\<close>)
  then have "printed_total s = None" using inv by (auto simp: sums_inv_def split: mpc.splits)
  with inv threads held sums main total show ?thesis
    by (auto simp: sums_inv_def s' split: mpc.splits)
qed

lemma thread_step_inv:
  assumes args: "hw2_args n p" and inv: "sums_inv n p s" and k: "k < length (threads s)"
    and step: "thread_step k s = Some s'"
  shows "sums_inv n p s'"
proof -
  let ?t = "threads s ! k"
  have ok: "thread_ok n s k ?t" using inv k by (simp add: sums_inv_def)
  have n: "n \<le> 1000" using args by (simp add: hw2_args_def)
  have small: "to_int32 (ival ?t + 1) = ival ?t + 1"
    using ok n by (intro to_int32_id') (auto simp: thread_ok_def)
  have nonneg: "0 \<le> totalSum s" using inv by (simp add: sums_inv_def)
  show ?thesis
  proof (cases "tpc ?t")
    case Store
    have todo: "todo ?t = ival ?t * ival ?t + squares (ival ?t + 1) (upto_val ?t)"
      using ok Store by (simp add: todo_def thread_ok_def squares_rec [of "ival ?t"])
    have bound: "ival ?t * ival ?t \<le> 1000000000" "totalSum s + ival ?t * ival ?t \<le> 1000000000"
      using todo_le [OF inv k] squares_bound [OF n] squares_nonneg [of "ival ?t + 1" "upto_val ?t"]
        todo nonneg by linarith+
    have sq: "0 \<le> ival ?t * ival ?t" by simp
    have wrap: "to_int32 (tmp ?t + to_int32 (ival ?t * ival ?t)) = totalSum s + ival ?t * ival ?t"
    proof -
      have "to_int32 (ival ?t * ival ?t) = ival ?t * ival ?t"
        using bound sq by (intro to_int32_id') linarith+
      moreover have "tmp ?t = totalSum s" using ok Store by (simp add: thread_ok_def)
      moreover have "to_int32 (totalSum s + ival ?t * ival ?t) = totalSum s + ival ?t * ival ?t"
        using bound sq nonneg by (intro to_int32_id') linarith+
      ultimately show ?thesis by simp
    qed
    from step Store have s': "s' = s\<lparr>threads := (threads s)[k := ?t\<lparr>tpc := Report\<rparr>],
        totalSum := totalSum s + ival ?t * ival ?t\<rparr>"
      by (simp add: thread_step_def Let_def wrap)
    show ?thesis
      by (rule sums_inv_move [OF inv k])
        (use ok Store todo nonneg sq in \<open>auto simp: s' thread_ok_def in_critical_def todo_def\<close>)
  next
    case Release
    from step Release have s': "s' = s\<lparr>threads := (threads s)[k := ?t\<lparr>tpc := Test, ival := ival ?t + 1\<rparr>],
        mutex := None\<rparr>"
      by (simp add: thread_step_def Let_def small)
    show ?thesis
      by (rule sums_inv_move [OF inv k])
        (use ok Release nonneg in \<open>auto simp: s' thread_ok_def in_critical_def todo_def\<close>)
  next
    case Test
    from step Test have s': "s' = s\<lparr>threads := (threads s)[k :=
        ?t\<lparr>tpc := (if ival ?t \<le> upto_val ?t then Acquire else Finished)\<rparr>]\<rparr>"
      by (simp add: thread_step_def Let_def)
    show ?thesis
      by (rule sums_inv_move [OF inv k])
        (use ok Test nonneg in \<open>auto simp: s' thread_ok_def in_critical_def todo_def split: if_splits\<close>)
  next
    case Acquire
    from step Acquire have s': "s' = s\<lparr>threads := (threads s)[k := ?t\<lparr>tpc := Load\<rparr>], mutex := Some k\<rparr>"
      "mutex s = None"
      by (simp_all add: thread_step_def Let_def split: if_splits)
    show ?thesis
      by (rule sums_inv_move [OF inv k])
        (use ok Acquire nonneg s'(2) in \<open>auto simp: s'(1) thread_ok_def in_critical_def todo_def\<close>)
  next
    case Load
    from step Load have s': "s' = s\<lparr>threads := (threads s)[k := ?t\<lparr>tpc := Store, tmp := totalSum s\<rparr>]\<rparr>"
      by (simp add: thread_step_def Let_def)
    show ?thesis
      by (rule sums_inv_move [OF inv k])
        (use ok Load nonneg in \<open>auto simp: s' thread_ok_def in_critical_def todo_def\<close>)
  next
    case Report
    from step Report have s': "s' = s\<lparr>threads := (threads s)[k := ?t\<lparr>tpc := Release\<rparr>]\<rparr>"
      by (simp add: thread_step_def Let_def)
    show ?thesis
      by (rule sums_inv_move [OF inv k])
        (use ok Report nonneg in \<open>auto simp: s' thread_ok_def in_critical_def todo_def\<close>)
  qed (use step in \<open>simp add: thread_step_def Let_def\<close>)
qed

lemma new_thread_ok:
  assumes "hw2_args n p" "int k < p" "mutex s \<noteq> Some k"
  shows "thread_ok n s k (new_thread n p k)"
    "todo (new_thread n p k) + squares (part_from n p (int (Suc k))) n = squares (part_from n p (int k)) n"
proof -
  have args: "0 \<le> n" "0 < p" using assms(1) by (auto simp: hw2_args_def)
  have mono: "int k * n div p \<le> (int k + 1) * n div p" "(int k + 1) * n div p \<le> p * n div p"
    using args assms(2) by (intro zdiv_mono1 mult_right_mono; simp)+
  have nonneg: "0 \<le> int k * n div p" using args by (simp add: pos_imp_zdiv_nonneg_iff)
  show "thread_ok n s k (new_thread n p k)"
    using assms(3) args mono nonneg
    by (simp add: thread_ok_def new_thread_def part_from_def part_to_def in_critical_def)
  show "todo (new_thread n p k) + squares (part_from n p (int (Suc k))) n = squares (part_from n p (int k)) n"
    using mono args squares_split [of "part_from n p (int k)" "part_to n p (int k)" n]
    by (simp add: todo_def new_thread_def part_from_def part_to_def add.commute)
qed

lemma main_step_inv:
  assumes args: "hw2_args n p" and inv: "sums_inv n p s" and step: "main_step n p s = Some s'"
  shows "sums_inv n p s'"
proof (cases "main_at s")
  case (Create k)
  show ?thesis
  proof (cases "int k < p")
    case True
    from step Create True have s': "s' = s\<lparr>threads := threads s @ [new_thread n p k], main_at := Create (Suc k)\<rparr>"
      by (simp add: main_step_def)
    have len: "length (threads s) = k" using inv Create by (simp add: sums_inv_def created_def)
    with inv have "mutex s \<noteq> Some k" by (auto simp: sums_inv_def)
    note new = new_thread_ok [OF args True this]
    have "thread_ok n s' k (new_thread n p k)" using new(1) by (simp add: s' thread_ok_def)
    moreover have "thread_ok n s' j (threads s ! j)" if "j < k" for j
      using inv that len by (auto simp: s' sums_inv_def thread_ok_def)
    ultimately have "\<forall>j < length (threads s'). thread_ok n s' j (threads s' ! j)"
      by (auto simp: s' len nth_append less_Suc_eq)
    moreover have "\<forall>j. mutex s' = Some j \<longrightarrow> j < length (threads s')"
      using inv by (auto simp: s' sums_inv_def less_Suc_eq)
    ultimately show ?thesis
      using inv new(2) True len Create by (auto simp: s' sums_inv_def created_def)
  next
    case False
    from step Create False have "s' = s\<lparr>main_at := Join 0\<rparr>" by (simp add: main_step_def)
    with inv Create False show ?thesis
      by (auto simp: sums_inv_def created_def thread_ok_def)
  qed
next
  case (Join k)
  show ?thesis
  proof (cases "int k < p")
    case True
    with step Join have "s' = s\<lparr>main_at := Join (Suc k)\<rparr>" "tpc (threads s ! k) = Finished"
      by (simp_all add: main_step_def split: if_splits)
    with inv Join True show ?thesis
      by (auto simp: sums_inv_def created_def thread_ok_def less_Suc_eq)
  next
    case False
    with step Join have s': "s' = s\<lparr>main_at := Print_total\<rparr>" by (simp add: main_step_def)
    have "\<forall>j < length (threads s). tpc (threads s ! j) = Finished"
      using inv Join False by (auto simp: sums_inv_def created_def)
    then have "\<forall>t \<in> set (threads s). tpc t = Finished" by (metis in_set_conv_nth)
    with inv Join show ?thesis by (auto simp: s' sums_inv_def created_def thread_ok_def)
  qed
next
  case Print_total
  with step have "s' = s\<lparr>printed_total := Some (totalSum s), main_at := Main_done\<rparr>"
    by (simp add: main_step_def)
  with inv Print_total show ?thesis by (auto simp: sums_inv_def created_def thread_ok_def)
qed (use step in \<open>simp add: main_step_def\<close>)

section \<open>Every execution ends\<close>

text \<open>The number of steps a thread has left, and \<open>main\<close>.\<close>

definition thread_left :: "thread \<Rightarrow> nat" where
  "thread_left t =
     (let r = nat (upto_val t - ival t + 1) in
      case tpc t of
        Test \<Rightarrow> 6 * r + 1 | Acquire \<Rightarrow> 6 * r | Load \<Rightarrow> 6 * r - 1 | Store \<Rightarrow> 6 * r - 2
      | Report \<Rightarrow> 6 * r - 3 | Release \<Rightarrow> 6 * r - 4 | Finished \<Rightarrow> 0)"

definition main_left :: "int \<Rightarrow> int \<Rightarrow> mpc \<Rightarrow> nat" where
  "main_left n p m =
     (case m of
        Create k \<Rightarrow> (\<Sum>j \<leftarrow> [k..<nat p]. thread_left (new_thread n p j) + 1) + nat p + 3
      | Join k \<Rightarrow> nat p - k + 2
      | Print_total \<Rightarrow> 1
      | Main_done \<Rightarrow> 0)"

definition sums_left :: "int \<Rightarrow> int \<Rightarrow> sums \<Rightarrow> nat" where
  "sums_left n p s = (\<Sum>t \<leftarrow> threads s. thread_left t) + main_left n p (main_at s)"

lemma thread_step_left:
  assumes args: "hw2_args n p" and inv: "sums_inv n p s" and k: "k < length (threads s)"
    and step: "thread_step k s = Some s'"
  shows "sums_left n p s' < sums_left n p s"
proof -
  let ?t = "threads s ! k"
  have ok: "thread_ok n s k ?t" using inv k by (simp add: sums_inv_def)
  have n: "n \<le> 1000" using args by (simp add: hw2_args_def)
  have small: "to_int32 (ival ?t + 1) = ival ?t + 1"
    using ok n by (intro to_int32_id') (auto simp: thread_ok_def)
  obtain t' where t': "threads s' = (threads s)[k := t']" "main_at s' = main_at s"
    "thread_left t' < thread_left ?t"
    using step ok
    by (cases "tpc ?t")
      (force simp: thread_step_def Let_def thread_left_def thread_ok_def small split: if_splits)+
  from sum_list_update [OF k, of thread_left t'] t' show ?thesis
    by (simp add: sums_left_def)
qed

lemma main_step_left:
  assumes inv: "sums_inv n p s" and step: "main_step n p s = Some s'"
  shows "sums_left n p s' < sums_left n p s"
  using step inv
  by (cases "main_at s")
    (auto simp: main_step_def sums_left_def main_left_def upt_conv_Cons split: if_splits)

text \<open>As long as \<open>main\<close> has not ended, some thread can take a step: there is no deadlock.\<close>

lemma sums_progress:
  assumes inv: "sums_inv n p s"
  shows "main_at s = Main_done \<or> (\<exists>s'. sums_step n p s s')"
proof (cases "\<exists>k < length (threads s). tpc (threads s ! k) \<noteq> Finished")
  case True
  then obtain k where k: "k < length (threads s)" "tpc (threads s ! k) \<noteq> Finished" by blast
  obtain j where j: "j < length (threads s)" "tpc (threads s ! j) \<noteq> Finished"
    "tpc (threads s ! j) = Acquire \<longrightarrow> mutex s = None"
  proof (cases "mutex s")
    case None
    with k that show ?thesis by blast
  next
    case (Some j)
    with inv have "j < length (threads s)" "in_critical (threads s ! j)"
      by (auto simp: sums_inv_def thread_ok_def)
    then show ?thesis using that [of j] by (auto simp: in_critical_def)
  qed
  then have "\<exists>s'. thread_step j s = Some s'"
    by (cases "tpc (threads s ! j)") (auto simp: thread_step_def Let_def)
  with j show ?thesis by (blast intro: by_thread)
next
  case False
  then have "main_at s = Main_done \<or> (\<exists>s'. main_step n p s = Some s')"
    using inv by (cases "main_at s") (auto simp: main_step_def sums_inv_def created_def)
  then show ?thesis by (blast intro: by_main)
qed

interpretation sums: terminating "sums_init n p" "sums_step n p" "\<lambda>s. hw2_args n p \<and> sums_inv n p s"
    "sums_left n p" "\<lambda>s. main_at s = Main_done"
  for n p
proof (unfold_locales, goal_cases)
  case (1 s)
  then show ?case by (simp add: sums_inv_init) (simp add: sums_init_def)
next
  case (2 s s')
  then show ?case by (auto elim!: sums_step.cases intro: thread_step_inv main_step_inv)
next
  case (3 s s')
  then show ?case by (auto elim!: sums_step.cases intro: thread_step_left main_step_left)
next
  case (4 s)
  then show ?case using sums_progress by blast
qed

lemma squares_closed: "6 * squares 1 (int m) = int m * (int m + 1) * (2 * int m + 1)"
proof (induction m)
  case (Suc m)
  have "squares 1 (int m + 1) = squares 1 (int m) + (int m + 1) * (int m + 1)"
    using squares_split [of 1 "int m" "int m + 1"] by (simp add: squares_def)
  with Suc show ?case by (simp add: algebra_simps)
qed (simp add: squares_def)

lemma final_total:
  assumes "sums_inv n p s" "hw2_args n p" "main_at s = Main_done"
  shows "printed_total s = Some (n * (n + 1) * (2 * n + 1) div 6)"
proof -
  have args: "0 \<le> n" "0 < p" using assms(2) by (auto simp: hw2_args_def)
  have "todo t = 0" if "t \<in> set (threads s)" for t
  proof -
    from that obtain k where "k < length (threads s)" "t = threads s ! k" by (metis in_set_conv_nth)
    with assms(1,3) that show ?thesis
      by (auto simp: sums_inv_def thread_ok_def todo_def squares_def)
  qed
  then have "(\<Sum>t \<leftarrow> threads s. todo t) = 0" by (simp add: sum_list_nonneg_eq_0_iff cong: map_cong)
  moreover have "squares (part_from n p (int (length (threads s)))) n = 0"
    using assms args by (simp add: sums_inv_def created_def part_from_def squares_def)
  ultimately have "totalSum s = squares 1 n" using assms(1) by (simp add: sums_inv_def)
  with squares_closed [of "nat n"] args have "6 * totalSum s = n * (n + 1) * (2 * n + 1)" by simp
  then have "totalSum s = n * (n + 1) * (2 * n + 1) div 6" by linarith
  with assms(1,3) show ?thesis by (simp add: sums_inv_def)
qed

text \<open>The start of a run for concrete arguments.\<close>

definition sums_start :: sums where
  "sums_start = \<lparr>totalSum = 0, mutex = None, threads = [], main_at = Create 0, printed_total = None\<rparr>"

lemma sums_start_reachable: "hw2_args n p \<Longrightarrow> reachable (sums_init n p) (sums_step n p) sums_start"
  by (rule reach_init) (simp add: sums_init_def sums_start_def)

lemma hw2_args_10_2: "hw2_args 10 2"
  by (simp add: hw2_args_def)

section \<open>Properties\<close>

text \<open>
  C21. Whatever the interleaving of the threads, the total that \<open>main\<close> prints is the sum of the
  squares from 1 to \<open>n\<close>: no update is lost, and none overflows.
\<close>

theorem hw2_prints_sum_of_squares:
  assumes "reachable (sums_init n p) (sums_step n p) s" "main_at s = Main_done"
  shows "printed_total s = Some (n * (n + 1) * (2 * n + 1) div 6)"
  using sums.inv_reachable [OF assms(1)] assms(2) by (auto intro: final_total)

theorem hw2_prints_sum_of_squares_witness:
  "\<exists>s. reachable (sums_init 10 2) (sums_step 10 2) s \<and> main_at s = Main_done \<and> printed_total s = Some 385"
proof -
  note start = sums_start_reachable [OF hw2_args_10_2]
  from sums.reaches_goal [OF sums.inv_reachable [OF start]] obtain s
    where s: "(sums_step 10 2)\<^sup>*\<^sup>* sums_start s" "main_at s = Main_done" by blast
  from s(1) start have "reachable (sums_init 10 2) (sums_step 10 2) s"
    by (induction rule: rtranclp_induct) (auto intro: reach_step)
  with hw2_prints_sum_of_squares [OF this s(2)] s(2) show ?thesis by auto
qed

text \<open>
  C22. Mutual exclusion: at most one thread is between the lock and the unlock, and it is the
  holder of the mutex; so the value a thread has loaded is still the current one when it stores
  the sum.
\<close>

theorem hw2_mutual_exclusion:
  assumes "reachable (sums_init n p) (sums_step n p) s"
    and "j < length (threads s)" "k < length (threads s)"
    and "in_critical (threads s ! j)" "in_critical (threads s ! k)"
  shows "j = k \<and> mutex s = Some k \<and> (tpc (threads s ! k) = Store \<longrightarrow> tmp (threads s ! k) = totalSum s)"
  using sums.inv_reachable [OF assms(1)] assms(2-5) by (auto simp: sums_inv_def thread_ok_def)

theorem hw2_mutual_exclusion_witness:
  "\<exists>s. reachable (sums_init 10 2) (sums_step 10 2) s \<and> in_critical (threads s ! 0) \<and> mutex s = Some 0"
proof -
  let ?t = "new_thread 10 2 0"
  let ?s1 = "sums_start\<lparr>threads := [?t], main_at := Create 1\<rparr>"
  let ?s2 = "?s1\<lparr>threads := [?t\<lparr>tpc := Acquire\<rparr>]\<rparr>"
  let ?s3 = "?s1\<lparr>threads := [?t\<lparr>tpc := Load\<rparr>], mutex := Some 0\<rparr>"
  have "sums_step 10 2 sums_start ?s1"
    by (rule by_main) (simp add: main_step_def sums_start_def)
  with sums_start_reachable [OF hw2_args_10_2] have "reachable (sums_init 10 2) (sums_step 10 2) ?s1"
    by (rule reach_step)
  moreover have "sums_step 10 2 ?s1 ?s2"
    by (rule by_thread [of 0]) (simp_all add: thread_step_def Let_def new_thread_def part_from_def part_to_def sums_start_def)
  ultimately have "reachable (sums_init 10 2) (sums_step 10 2) ?s2" by (rule reach_step)
  moreover have "sums_step 10 2 ?s2 ?s3"
    by (rule by_thread [of 0]) (simp_all add: thread_step_def Let_def new_thread_def sums_start_def)
  ultimately have r: "reachable (sums_init 10 2) (sums_step 10 2) ?s3" by (rule reach_step)
  have c: "in_critical (threads ?s3 ! 0)" by (simp add: in_critical_def)
  from hw2_mutual_exclusion [OF r _ _ c c] have "mutex ?s3 = Some 0" by simp
  with r c show ?thesis by blast
qed

text \<open>
  The program ends: there is no infinite execution and no deadlock, and from every reachable
  state an execution leads to the end of \<open>main\<close> with the right total printed.
\<close>

theorem hw2_terminates:
  "\<not> (\<exists>f. sums_init n p (f 0) \<and> (\<forall>i. sums_step n p (f i) (f (Suc i)))) \<and>
   (\<forall>s. reachable (sums_init n p) (sums_step n p) s \<longrightarrow>
      (\<exists>s'. (sums_step n p)\<^sup>*\<^sup>* s s' \<and> main_at s' = Main_done \<and>
         printed_total s' = Some (n * (n + 1) * (2 * n + 1) div 6)))"
proof (intro conjI allI impI)
  show "\<not> (\<exists>f. sums_init n p (f 0) \<and> (\<forall>i. sums_step n p (f i) (f (Suc i))))"
    by (rule sums.no_infinite_run)
  fix s assume s: "reachable (sums_init n p) (sums_step n p) s"
  from sums.reaches_goal [OF sums.inv_reachable [OF s]] obtain s'
    where s': "(sums_step n p)\<^sup>*\<^sup>* s s'" "main_at s' = Main_done" by blast
  from s'(1) s have "reachable (sums_init n p) (sums_step n p) s'"
    by (induction rule: rtranclp_induct) (auto intro: reach_step)
  from final_total [of n p s'] sums.inv_reachable [OF this] s'
  show "\<exists>s'. (sums_step n p)\<^sup>*\<^sup>* s s' \<and> main_at s' = Main_done \<and>
         printed_total s' = Some (n * (n + 1) * (2 * n + 1) div 6)" by blast
qed

theorem hw2_terminates_witness:
  "\<exists>s'. (sums_step 10 2)\<^sup>*\<^sup>* sums_start s' \<and> main_at s' = Main_done \<and> printed_total s' = Some 385"
proof -
  from hw2_terminates [of 10 2] sums_start_reachable [OF hw2_args_10_2]
  have "\<exists>s'. (sums_step 10 2)\<^sup>*\<^sup>* sums_start s' \<and> main_at s' = Main_done \<and>
      printed_total s' = Some (10 * (10 + 1) * (2 * 10 + 1) div 6)" by blast
  then show ?thesis by simp
qed

end
