(* ===== verification/Ring_Queue.thy ===== *)
theory Ring_Queue
  imports Sum_Threads
begin

text \<open>
  \<^verbatim>\<open>src/Homework2/level3.c\<close>: one producer puts the numbers from 1 to \<open>n\<close> into a circular
  buffer of 8 places; \<open>numThreads\<close> consumers take them out, and add their squares to a global
  total under a mutex; two semaphores count the available items and the remaining space.

  A step is a statement of a thread.  \<open>sem_wait\<close> and \<open>pthread_mutex_lock\<close> are enabled when they
  do not block; while its condition is true the busy wait \<open>while (processed < n)\<close> is a step that
  changes nothing, so that \<open>main\<close> may spin for ever.  The library calls succeed.  When \<open>main\<close> returns, the process ends and
  with it every thread.  The indices, counters and semaphores are never negative and are
  natural numbers.
\<close>

definition BUFFER_SIZE :: nat where "BUFFER_SIZE = 8"

datatype ppc = P_test | P_wait | P_store | P_advance | P_post | P_done

record producer =
  ppc :: ppc
  pi :: nat

datatype cpc = C_wait | C_lock | C_read | C_advance | C_add | C_print | C_count | C_unlock | C_post

record consumer =
  cpc :: cpc
  cval :: int

datatype rpc = R_producer | R_create nat | R_join | R_spin | R_detach nat | R_report | R_done

record ring =
  buffer :: "int list"
  head :: nat
  tail :: nat
  availableItems :: nat
  remainingSpace :: nat
  ring_total :: int
  processed :: nat
  ring_mutex :: "nat option"
  producer :: producer
  consumers :: "consumer list"
  ring_main :: rpc
  ring_printed :: "int option"

text \<open>A step of \<open>addToQueue\<close>.\<close>

definition producer_step :: "nat \<Rightarrow> ring \<Rightarrow> ring option" where
  "producer_step n s =
     (let p = producer s; at = (\<lambda>pc. p\<lparr>ppc := pc\<rparr>) in
      case ppc p of
        P_test \<Rightarrow> Some (s\<lparr>producer := at (if pi p \<le> n then P_wait else P_done)\<rparr>)
      | P_wait \<Rightarrow>
          (if 0 < remainingSpace s
           then Some (s\<lparr>remainingSpace := remainingSpace s - 1, producer := at P_store\<rparr>) else None)
      | P_store \<Rightarrow> Some (s\<lparr>buffer := (buffer s)[tail s := int (pi p)], producer := at P_advance\<rparr>)
      | P_advance \<Rightarrow> Some (s\<lparr>tail := (tail s + 1) mod BUFFER_SIZE, producer := at P_post\<rparr>)
      | P_post \<Rightarrow>
          Some (s\<lparr>availableItems := availableItems s + 1, producer := \<lparr>ppc = P_test, pi = pi p + 1\<rparr>\<rparr>)
      | P_done \<Rightarrow> None)"

text \<open>A step of \<open>computeSquares\<close> in consumer \<open>k\<close>.\<close>

definition consumer_step :: "nat \<Rightarrow> ring \<Rightarrow> ring option" where
  "consumer_step k s =
     (let c = consumers s ! k;
          move = (\<lambda>c'. (consumers s)[k := c']);
          at = (\<lambda>pc. move (c\<lparr>cpc := pc\<rparr>)) in
      case cpc c of
        C_wait \<Rightarrow>
          (if 0 < availableItems s
           then Some (s\<lparr>availableItems := availableItems s - 1, consumers := at C_lock\<rparr>) else None)
      | C_lock \<Rightarrow>
          (if ring_mutex s = None then Some (s\<lparr>ring_mutex := Some k, consumers := at C_read\<rparr>) else None)
      | C_read \<Rightarrow> Some (s\<lparr>consumers := move (c\<lparr>cpc := C_advance, cval := buffer s ! head s\<rparr>)\<rparr>)
      | C_advance \<Rightarrow> Some (s\<lparr>head := (head s + 1) mod BUFFER_SIZE, consumers := at C_add\<rparr>)
      | C_add \<Rightarrow>
          Some (s\<lparr>ring_total := to_int32 (ring_total s + to_int32 (cval c * cval c)), consumers := at C_print\<rparr>)
      | C_print \<Rightarrow> Some (s\<lparr>consumers := at C_count\<rparr>)
      | C_count \<Rightarrow> Some (s\<lparr>processed := processed s + 1, consumers := at C_unlock\<rparr>)
      | C_unlock \<Rightarrow> Some (s\<lparr>ring_mutex := None, consumers := at C_post\<rparr>)
      | C_post \<Rightarrow> Some (s\<lparr>remainingSpace := remainingSpace s + 1, consumers := at C_wait\<rparr>))"

definition ring_main_step :: "nat \<Rightarrow> nat \<Rightarrow> ring \<Rightarrow> ring option" where
  "ring_main_step n p s =
     (case ring_main s of
        R_producer \<Rightarrow> Some (s\<lparr>producer := \<lparr>ppc = P_test, pi = 1\<rparr>, ring_main := R_create 0\<rparr>)
      | R_create k \<Rightarrow>
          (if k < p
           then Some (s\<lparr>consumers := consumers s @ [\<lparr>cpc = C_wait, cval = 0\<rparr>], ring_main := R_create (Suc k)\<rparr>)
           else Some (s\<lparr>ring_main := R_join\<rparr>))
      | R_join \<Rightarrow> (if ppc (producer s) = P_done then Some (s\<lparr>ring_main := R_spin\<rparr>) else None)
      | R_spin \<Rightarrow> (if processed s < n then Some s else Some (s\<lparr>ring_main := R_detach 0\<rparr>))
      | R_detach k \<Rightarrow>
          (if k < p then Some (s\<lparr>ring_main := R_detach (Suc k)\<rparr>) else Some (s\<lparr>ring_main := R_report\<rparr>))
      | R_report \<Rightarrow> Some (s\<lparr>ring_printed := Some (ring_total s), ring_main := R_done\<rparr>)
      | R_done \<Rightarrow> None)"

inductive ring_step :: "nat \<Rightarrow> nat \<Rightarrow> ring \<Rightarrow> ring \<Rightarrow> bool" for n p where
  produces: "ring_main s \<noteq> R_done \<Longrightarrow> ring_main s \<noteq> R_producer \<Longrightarrow> producer_step n s = Some s' \<Longrightarrow>
    ring_step n p s s'"
| consumes: "ring_main s \<noteq> R_done \<Longrightarrow> k < length (consumers s) \<Longrightarrow> consumer_step k s = Some s' \<Longrightarrow>
    ring_step n p s s'"
| main_moves: "ring_main_step n p s = Some s' \<Longrightarrow> ring_step n p s s'"

text \<open>The steps by the thread that takes them.\<close>

datatype ring_thread = Main_thread | Producer_thread | Consumer_thread nat

fun ring_move :: "nat \<Rightarrow> nat \<Rightarrow> ring_thread \<Rightarrow> ring \<Rightarrow> ring option" where
  "ring_move n p Main_thread s = ring_main_step n p s"
| "ring_move n p Producer_thread s =
     (if ring_main s = R_done \<or> ring_main s = R_producer then None else producer_step n s)"
| "ring_move n p (Consumer_thread k) s =
     (if ring_main s \<noteq> R_done \<and> k < length (consumers s) then consumer_step k s else None)"

lemma ring_step_iff: "ring_step n p s s' \<longleftrightarrow> (\<exists>t. ring_move n p t s = Some s')"
proof
  assume "ring_step n p s s'"
  then show "\<exists>t. ring_move n p t s = Some s'"
  proof cases
    case produces
    then show ?thesis by (intro exI [of _ Producer_thread]) simp
  next
    case (consumes k)
    then show ?thesis by (intro exI [of _ "Consumer_thread k"]) simp
  next
    case main_moves
    then show ?thesis by (intro exI [of _ Main_thread]) simp
  qed
next
  assume "\<exists>t. ring_move n p t s = Some s'"
  then obtain t where "ring_move n p t s = Some s'" ..
  then show "ring_step n p s s'"
    by (cases t) (auto intro: ring_step.intros split: if_splits)
qed

text \<open>Before the first thread is created; the producer has its place in the state from the start.\<close>

definition ring_start :: ring where
  "ring_start =
     \<lparr>buffer = replicate BUFFER_SIZE 0, head = 0, tail = 0, availableItems = 0,
      remainingSpace = BUFFER_SIZE, ring_total = 0, processed = 0, ring_mutex = None,
      producer = \<lparr>ppc = P_test, pi = 1\<rparr>, consumers = [], ring_main = R_producer, ring_printed = None\<rparr>"

text \<open>The first part of \<open>main\<close>: the arguments and the two semaphores.\<close>

definition level3_setup :: "string list \<Rightarrow> (int \<times> int) io" where
  "level3_setup argv =
     bnd (hw2_check_args argv) (\<lambda>(n, numThreads).
     bnd (sysi (CSys ''sem_init availableItems'' [0])) (\<lambda>rc.
     if rc < 0 then thn (c_perror ''availableItems sem_init'') (c_exit EXIT_FAILURE)
     else
       bnd (sysi (CSys ''sem_init remainingSpace'' [int BUFFER_SIZE])) (\<lambda>rc.
       if rc \<noteq> 0 then thn (c_perror ''remainingSpace sem_init'') (c_exit EXIT_FAILURE)
       else ret (n, numThreads))))"

definition ring_init :: "nat \<Rightarrow> nat \<Rightarrow> ring \<Rightarrow> bool" where
  "ring_init n p s \<longleftrightarrow> hw2_args (int n) (int p) \<and> s = ring_start"

section \<open>The invariant\<close>

text \<open>How many consumers are at one of the given control points.\<close>

definition at_points :: "cpc set \<Rightarrow> consumer list \<Rightarrow> nat" where
  "at_points P cs = (\<Sum>c \<leftarrow> cs. if cpc c \<in> P then 1 else 0)"

text \<open>
  Consumers that hold an item they have not taken out of the buffer yet, that have taken one out
  and not given its place back, that have not counted it, that have added but not counted it;
  and those that hold the mutex.
\<close>

abbreviation reserving :: "cpc set" where "reserving \<equiv> {C_lock, C_read, C_advance}"
abbreviation emptying :: "cpc set" where "emptying \<equiv> {C_add, C_print, C_count, C_unlock, C_post}"
abbreviation uncounted :: "cpc set" where "uncounted \<equiv> {C_add, C_print, C_count}"
abbreviation added :: "cpc set" where "added \<equiv> {C_print, C_count}"
abbreviation holding :: "cpc set" where
  "holding \<equiv> {C_read, C_advance, C_add, C_print, C_count, C_unlock}"

text \<open>Items posted, stored, and behind the tail; places claimed; items taken out, and added.\<close>

definition posted :: "ring \<Rightarrow> nat" where
  "posted s = pi (producer s) - 1"

definition stored :: "ring \<Rightarrow> nat" where
  "stored s = (if ppc (producer s) \<in> {P_advance, P_post} then pi (producer s) else pi (producer s) - 1)"

definition tail_count :: "ring \<Rightarrow> nat" where
  "tail_count s = (if ppc (producer s) = P_post then pi (producer s) else pi (producer s) - 1)"

definition claimed :: "ring \<Rightarrow> nat" where
  "claimed s =
     (if ppc (producer s) \<in> {P_store, P_advance, P_post} then pi (producer s) else pi (producer s) - 1)"

definition taken :: "ring \<Rightarrow> nat" where
  "taken s = processed s + at_points uncounted (consumers s)"

definition summed :: "ring \<Rightarrow> nat" where
  "summed s = processed s + at_points added (consumers s)"

definition producer_ok :: "nat \<Rightarrow> producer \<Rightarrow> bool" where
  "producer_ok n p \<longleftrightarrow>
     1 \<le> pi p \<and> pi p \<le> n + 1 \<and> (ppc p \<notin> {P_test, P_done} \<longrightarrow> pi p \<le> n) \<and>
     (ppc p = P_done \<longrightarrow> pi p = n + 1)"

definition consumer_ok :: "ring \<Rightarrow> nat \<Rightarrow> consumer \<Rightarrow> bool" where
  "consumer_ok s k c \<longleftrightarrow>
     (cpc c \<in> holding \<longleftrightarrow> ring_mutex s = Some k) \<and>
     (cpc c = C_advance \<longrightarrow> cval c = int (taken s) + 1) \<and>
     (cpc c = C_add \<longrightarrow> cval c = int (taken s))"

definition buffer_ok :: "ring \<Rightarrow> bool" where
  "buffer_ok s \<longleftrightarrow>
     length (buffer s) = 8 \<and> head s = taken s mod 8 \<and> tail s = tail_count s mod 8 \<and>
     (\<forall>j. taken s \<le> j \<and> j < stored s \<longrightarrow> buffer s ! (j mod 8) = int (j + 1))"

definition counts_ok :: "ring \<Rightarrow> bool" where
  "counts_ok s \<longleftrightarrow>
     availableItems s + at_points reserving (consumers s) + taken s = posted s \<and>
     remainingSpace s + claimed s + at_points emptying (consumers s) = 8 + taken s"

definition main_ok :: "nat \<Rightarrow> nat \<Rightarrow> ring \<Rightarrow> bool" where
  "main_ok n p s \<longleftrightarrow>
     (case ring_main s of
        R_producer \<Rightarrow> consumers s = [] \<and> producer s = \<lparr>ppc = P_test, pi = 1\<rparr>
      | R_create k \<Rightarrow> length (consumers s) = k \<and> k \<le> p
      | R_join \<Rightarrow> length (consumers s) = p
      | R_spin \<Rightarrow> length (consumers s) = p \<and> ppc (producer s) = P_done
      | _ \<Rightarrow> length (consumers s) = p \<and> ppc (producer s) = P_done \<and> n \<le> processed s) \<and>
     ring_printed s = (if ring_main s = R_done then Some (ring_total s) else None)"

definition ring_inv :: "nat \<Rightarrow> nat \<Rightarrow> ring \<Rightarrow> bool" where
  "ring_inv n p s \<longleftrightarrow>
     producer_ok n (producer s) \<and> counts_ok s \<and> buffer_ok s \<and> main_ok n p s \<and>
     (\<forall>k < length (consumers s). consumer_ok s k (consumers s ! k)) \<and>
     (\<forall>k. ring_mutex s = Some k \<longrightarrow> k < length (consumers s)) \<and>
     ring_total s = squares 1 (int (summed s))"

lemma ring_inv_init: "ring_init n p s \<Longrightarrow> ring_inv n p s"
  by (auto simp: ring_init_def ring_start_def ring_inv_def producer_ok_def counts_ok_def buffer_ok_def
      main_ok_def at_points_def posted_def stored_def tail_count_def claimed_def taken_def summed_def
      squares_def BUFFER_SIZE_def)

section \<open>Counting consumers\<close>

lemma at_points_update:
  "k < length cs \<Longrightarrow> at_points P (cs[k := c]) + (if cpc (cs ! k) \<in> P then 1 else 0) =
     at_points P cs + (if cpc c \<in> P then 1 else 0)"
  unfolding at_points_def by (rule sum_list_update)

lemma at_points_append [simp]: "at_points P (cs @ [c]) = at_points P cs + (if cpc c \<in> P then 1 else 0)"
  by (simp add: at_points_def)

lemma at_points_member: "k < length cs \<Longrightarrow> cpc (cs ! k) \<in> P \<Longrightarrow> 0 < at_points P cs"
  using sum_list_elem_le [of k cs "\<lambda>c. if cpc c \<in> P then 1 else 0"] by (simp add: at_points_def)

lemma at_points_positive: "0 < at_points P cs \<Longrightarrow> \<exists>k < length cs. cpc (cs ! k) \<in> P"
proof (rule ccontr)
  assume "\<not> (\<exists>k < length cs. cpc (cs ! k) \<in> P)"
  then have "\<forall>c \<in> set cs. cpc c \<notin> P" by (metis in_set_conv_nth)
  then have "at_points P cs = 0" by (simp add: at_points_def sum_list_nonneg_eq_0_iff)
  moreover assume "0 < at_points P cs"
  ultimately show False by simp
qed

lemma at_points_Un: "P \<inter> Q = {} \<Longrightarrow> at_points (P \<union> Q) cs = at_points P cs + at_points Q cs"
  by (induction cs) (auto simp: at_points_def)

text \<open>The points held under the mutex have at most one consumer, its owner.\<close>

lemma at_points_owner:
  assumes "k < length cs" "\<And>j. j < length cs \<Longrightarrow> j \<noteq> k \<Longrightarrow> cpc (cs ! j) \<notin> P"
  shows "at_points P cs = (if cpc (cs ! k) \<in> P then 1 else 0)"
  using assms
proof (induction cs arbitrary: k)
  case (Cons c cs)
  show ?case
  proof (cases k)
    case 0
    with Cons.prems(2) have "\<forall>j < length cs. cpc (cs ! j) \<notin> P" by fastforce
    then have "at_points P cs = 0" using at_points_positive [of P cs] by blast
    with 0 show ?thesis by (simp add: at_points_def)
  next
    case (Suc j)
    with Cons.prems have "cpc c \<notin> P" by force
    moreover have "at_points P cs = (if cpc (cs ! j) \<in> P then 1 else 0)"
      using Cons.prems Suc by (intro Cons.IH) fastforce+
    ultimately show ?thesis using Suc by (simp add: at_points_def)
  qed
qed simp

section \<open>The steps keep the invariant\<close>

lemmas ring_counts =
  posted_def stored_def tail_count_def claimed_def taken_def summed_def BUFFER_SIZE_def

lemma mod_8_neq: "i < j \<Longrightarrow> j < i + 8 \<Longrightarrow> i mod 8 \<noteq> j mod (8::nat)"
  using mod_eq_dvd_iff_nat [of i j 8] dvd_imp_le [of 8 "j - i"] by auto

lemma squares_single: "squares a a = a * a"
  by (simp add: squares_rec [of a a] squares_rec [of "a + 1" a])

lemma squares_Suc: "squares 1 (int (Suc m)) = squares 1 (int m) + int (Suc m) * int (Suc m)"
  using squares_split [of 1 "int m" "int (Suc m)"] by (simp add: squares_single add.commute)

text \<open>What a step of the producer leaves alone.\<close>

lemma ring_inv_producer:
  assumes inv: "ring_inv n p s" and active: "ring_main s \<noteq> R_producer" "ppc (producer s) \<noteq> P_done"
    and s': "consumers s' = consumers s" "ring_main s' = ring_main s" "ring_printed s' = ring_printed s"
      "ring_mutex s' = ring_mutex s" "ring_total s' = ring_total s" "processed s' = processed s" "head s' = head s"
    and ok: "producer_ok n (producer s')" "counts_ok s'" "buffer_ok s'"
  shows "ring_inv n p s'"
proof -
  have [simp]: "taken s' = taken s" "summed s' = summed s" by (simp_all add: taken_def summed_def s')
  have "consumer_ok s' k c = consumer_ok s k c" for k c by (simp add: consumer_ok_def s')
  moreover have "main_ok n p s'"
    using inv active by (auto simp: ring_inv_def main_ok_def s' split: rpc.splits)
  ultimately show ?thesis using inv ok by (simp add: ring_inv_def s')
qed

lemma producer_step_inv:
  assumes inv: "ring_inv n p s" and active: "ring_main s \<noteq> R_producer"
    and step: "producer_step n s = Some s'"
  shows "ring_inv n p s'"
proof -
  have running: "ppc (producer s) \<noteq> P_done" using step by (auto simp: producer_step_def Let_def)
  have p: "producer_ok n (producer s)" and c: "counts_ok s" and b: "buffer_ok s"
    using inv by (auto simp: ring_inv_def)
  note move = ring_inv_producer [OF inv active running]
  show ?thesis
  proof (cases "ppc (producer s)")
    case P_store
    with step have s': "s' = s\<lparr>buffer := (buffer s)[tail s := int (pi (producer s))],
        producer := (producer s)\<lparr>ppc := P_advance\<rparr>\<rparr>"
      by (simp add: producer_step_def Let_def)
    have room: "pi (producer s) \<le> 8 + taken s" and pos: "1 \<le> pi (producer s)"
      using p c P_store by (auto simp: producer_ok_def counts_ok_def claimed_def)
    have tl: "tail s = (pi (producer s) - 1) mod 8" using b P_store by (simp add: buffer_ok_def tail_count_def)
    have "buffer s' ! (j mod 8) = int (j + 1)" if "taken s \<le> j" "j < pi (producer s)" for j
    proof (cases "j = pi (producer s) - 1")
      case True
      with b pos show ?thesis by (simp add: s' tl buffer_ok_def)
    next
      case False
      with that pos room have "j mod 8 \<noteq> (pi (producer s) - 1) mod 8" by (intro mod_8_neq) auto
      with b that False P_store show ?thesis by (auto simp: s' tl buffer_ok_def stored_def)
    qed
    with b P_store p c show ?thesis
      by (intro move) (auto simp: s' buffer_ok_def producer_ok_def counts_ok_def ring_counts)
  next
    case P_advance
    with step have s': "s' = s\<lparr>tail := (tail s + 1) mod 8, producer := (producer s)\<lparr>ppc := P_post\<rparr>\<rparr>"
      by (simp add: producer_step_def Let_def BUFFER_SIZE_def)
    have "1 \<le> pi (producer s)" using p by (simp add: producer_ok_def)
    then have "((pi (producer s) - 1) mod 8 + 1) mod 8 = pi (producer s) mod 8"
      by (simp add: mod_Suc_eq)
    with b P_advance p c show ?thesis
      by (intro move) (auto simp: s' buffer_ok_def producer_ok_def counts_ok_def ring_counts)
  qed (use step p c b in \<open>auto intro!: move simp: producer_step_def Let_def buffer_ok_def producer_ok_def
      counts_ok_def ring_counts split: if_splits\<close>)
qed

text \<open>A step of one consumer, seen from the others.\<close>

lemma ring_inv_consumer:
  assumes inv: "ring_inv n p s" and k: "k < length (consumers s)" and running: "ring_main s \<noteq> R_done"
    and s': "consumers s' = (consumers s)[k := c']" "producer s' = producer s" "ring_main s' = ring_main s"
      "ring_printed s' = ring_printed s" "buffer s' = buffer s" "tail s' = tail s"
    and ok: "consumer_ok s' k c'" "counts_ok s'" "head s' = taken s' mod 8"
      "ring_total s' = squares 1 (int (summed s'))"
    and own: "\<And>j. j \<noteq> k \<Longrightarrow> ring_mutex s' = Some j \<longleftrightarrow> ring_mutex s = Some j"
    and grow: "taken s \<le> taken s'" "taken s' = taken s \<or> ring_mutex s = Some k" "processed s \<le> processed s'"
  shows "ring_inv n p s'"
proof -
  have others: "consumer_ok s' j (consumers s' ! j)" if "j < length (consumers s')" for j
  proof (cases "j = k")
    case True
    with ok(1) k show ?thesis by (simp add: s')
  next
    case False
    with inv that have old: "consumer_ok s j (consumers s ! j)" by (simp add: ring_inv_def s')
    then have "taken s' = taken s \<or> cpc (consumers s ! j) \<notin> holding"
      using grow(2) False by (auto simp: consumer_ok_def)
    with old False own [of j] show ?thesis by (auto simp: consumer_ok_def s')
  qed
  have "k' < length (consumers s')" if "ring_mutex s' = Some k'" for k'
    using that own [of k'] inv k by (cases "k' = k") (auto simp: ring_inv_def s')
  moreover have "buffer_ok s'"
    using inv ok(3) grow(1) by (auto simp: ring_inv_def buffer_ok_def s' ring_counts)
  moreover have "main_ok n p s'"
    using inv running grow(3) k by (auto simp: ring_inv_def main_ok_def s' split: rpc.splits)
  ultimately show ?thesis using inv others ok(2,4) by (simp add: ring_inv_def s')
qed

text \<open>What the owner of the mutex knows: the other consumers are at none of the guarded points.\<close>

lemma owner_counts:
  assumes "ring_inv n p s" "k < length (consumers s)" "ring_mutex s = Some k" "P \<subseteq> holding"
  shows "at_points P (consumers s) = (if cpc (consumers s ! k) \<in> P then 1 else 0)"
  using assms by (intro at_points_owner) (auto simp: ring_inv_def consumer_ok_def)

lemma taken_le_n: "ring_inv n p s \<Longrightarrow> taken s + at_points reserving (consumers s) \<le> n"
  by (auto simp: ring_inv_def producer_ok_def counts_ok_def posted_def)

text \<open>The counts after consumer \<open>k\<close> has moved to another point.\<close>

lemma counts_after:
  assumes "k < length cs" "cpc (cs ! k) = pc" "cpc c = pc'"
  shows "at_points P (cs[k := c]) + (if pc \<in> P then 1 else 0) = at_points P cs + (if pc' \<in> P then 1 else 0)"
  using at_points_update [OF assms(1), of P c] assms(2,3) by simp

text \<open>A step that neither takes an item out nor adds it: only the semaphores and the mutex matter.\<close>

lemma consumer_quiet_step:
  assumes inv: "ring_inv n p s" and k: "k < length (consumers s)" and running: "ring_main s \<noteq> R_done"
    and at: "cpc (consumers s ! k) = pc" "pc' \<notin> {C_advance, C_add}"
    and s': "consumers s' = (consumers s)[k := (consumers s ! k)\<lparr>cpc := pc'\<rparr>]" "producer s' = producer s"
      "ring_main s' = ring_main s" "ring_printed s' = ring_printed s" "buffer s' = buffer s"
      "tail s' = tail s" "head s' = head s" "ring_total s' = ring_total s" "processed s \<le> processed s'"
    and counted: "processed s' + (if pc' \<in> uncounted then 1 else 0) = processed s + (if pc \<in> uncounted then 1 else 0)"
      "processed s' + (if pc' \<in> added then 1 else 0) = processed s + (if pc \<in> added then 1 else 0)"
    and semaphores: "availableItems s' + (if pc' \<in> reserving then 1 else 0) =
        availableItems s + (if pc \<in> reserving then 1 else 0)"
      "remainingSpace s' + (if pc' \<in> emptying then 1 else 0) =
        remainingSpace s + (if pc \<in> emptying then 1 else 0)"
    and mutex: "pc' \<in> holding \<longleftrightarrow> ring_mutex s' = Some k"
      "\<And>j. j \<noteq> k \<Longrightarrow> ring_mutex s' = Some j \<longleftrightarrow> ring_mutex s = Some j"
  shows "ring_inv n p s'"
proof -
  note a = counts_after [OF k at(1), of "(consumers s ! k)\<lparr>cpc := pc'\<rparr>" pc', simplified]
  have u: "taken s' = taken s" "summed s' = summed s"
    using a [of uncounted] a [of added] counted by (simp_all add: s' taken_def summed_def)
  have "posted s' = posted s" "claimed s' = claimed s" by (simp_all add: posted_def claimed_def s')
  moreover have "counts_ok s" using inv by (simp add: ring_inv_def)
  ultimately have "counts_ok s'"
    using a [of reserving] a [of emptying] semaphores u
    by (simp add: counts_ok_def s'(1) split del: if_split)
  moreover have "consumer_ok s' k ((consumers s ! k)\<lparr>cpc := pc'\<rparr>)"
    using at(2) mutex(1) by (auto simp: consumer_ok_def)
  ultimately show ?thesis
    using inv s'(9) mutex(2) by (intro ring_inv_consumer [OF inv k running]) (auto simp: s' u ring_inv_def buffer_ok_def)
qed

text \<open>The addition under the mutex: the item just taken out is the next one to be added.\<close>

lemma add_exact:
  assumes args: "hw2_args (int n) (int p)" and inv: "ring_inv n p s" and k: "k < length (consumers s)"
    and at: "cpc (consumers s ! k) = C_add"
  shows "taken s = Suc (summed s)"
    "to_int32 (ring_total s + to_int32 (cval (consumers s ! k) * cval (consumers s ! k))) =
       squares 1 (int (taken s))"
proof -
  let ?c = "consumers s ! k"
  have c: "consumer_ok s k ?c" and t: "ring_total s = squares 1 (int (summed s))"
    using inv k by (auto simp: ring_inv_def)
  with at have lock: "ring_mutex s = Some k" and val: "cval ?c = int (taken s)"
    by (simp_all add: consumer_ok_def)
  show one: "taken s = Suc (summed s)"
    using owner_counts [OF inv k lock, of uncounted] owner_counts [OF inv k lock, of added] at
    by (simp add: taken_def summed_def)
  have le: "taken s \<le> 1000" using taken_le_n [OF inv] args by (simp add: hw2_args_def)
  have sq: "0 \<le> int (taken s) * int (taken s)" "int (taken s) * int (taken s) \<le> 1000 * 1000"
    using le by (simp, intro mult_mono) auto
  then have "to_int32 (int (taken s) * int (taken s)) = int (taken s) * int (taken s)"
    by (intro to_int32_id') linarith+
  moreover have "ring_total s + int (taken s) * int (taken s) = squares 1 (int (taken s))"
    using t one squares_Suc [of "summed s"] by simp
  moreover have "squares 1 (int (taken s)) \<le> 1000000000" using le by (intro squares_bound) simp
  ultimately show "to_int32 (ring_total s + to_int32 (cval ?c * cval ?c)) = squares 1 (int (taken s))"
    using squares_nonneg [of 1 "int (taken s)"] by (simp add: val to_int32_id')
qed

lemma consumer_step_inv:
  assumes args: "hw2_args (int n) (int p)" and inv: "ring_inv n p s"
    and running: "ring_main s \<noteq> R_done" and k: "k < length (consumers s)"
    and step: "consumer_step k s = Some s'"
  shows "ring_inv n p s'"
proof -
  let ?c = "consumers s ! k"
  have c: "consumer_ok s k ?c" using inv k by (simp add: ring_inv_def)
  have b: "buffer_ok s" and cs: "counts_ok s" and t: "ring_total s = squares 1 (int (summed s))"
    using inv by (auto simp: ring_inv_def)
  note move = ring_inv_consumer [OF inv k running]
  note after = counts_after [OF k]
  note quiet = consumer_quiet_step [OF inv k running]
  note defs = consumer_step_def Let_def consumer_ok_def counts_ok_def buffer_ok_def posted_def claimed_def
  show ?thesis
  proof (cases "cpc ?c")
    case C_read
    let ?c' = "?c\<lparr>cpc := C_advance, cval := buffer s ! head s\<rparr>"
    note a = after [OF C_read, of ?c' C_advance, simplified]
    from step C_read have s': "s' = s\<lparr>consumers := (consumers s)[k := ?c']\<rparr>" by (simp add: defs)
    have u: "taken s' = taken s" "summed s' = summed s"
      using a [of uncounted] a [of added] by (simp_all add: s' taken_def summed_def)
    have "taken s < stored s"
      using at_points_member [OF k, of reserving] C_read cs by (auto simp: counts_ok_def posted_def stored_def)
    with b have "buffer s ! head s = int (taken s) + 1" by (auto simp: buffer_ok_def)
    then show ?thesis
      by (intro move) (use c b cs t C_read u a [of reserving] a [of emptying] in \<open>auto simp: defs s'\<close>)
  next
    case C_advance
    note a = after [OF C_advance, of "?c\<lparr>cpc := C_add\<rparr>" C_add, simplified]
    from step C_advance have s': "s' = s\<lparr>head := (head s + 1) mod 8, consumers := (consumers s)[k := ?c\<lparr>cpc := C_add\<rparr>]\<rparr>"
      by (simp add: defs BUFFER_SIZE_def)
    have u: "taken s' = taken s + 1" "summed s' = summed s"
      using a [of uncounted] a [of added] by (simp_all add: s' taken_def summed_def)
    show ?thesis
      by (rule move)
        (use c b cs t C_advance u a [of reserving] a [of emptying] in \<open>auto simp: defs s' mod_Suc_eq\<close>)
  next
    case C_add
    note a = after [OF C_add, of "?c\<lparr>cpc := C_print\<rparr>" C_print, simplified]
    from c C_add have lock: "ring_mutex s = Some k" by (simp add: consumer_ok_def)
    note add = add_exact [OF args inv k C_add]
    from step C_add have s': "s' = s\<lparr>ring_total := squares 1 (int (taken s)),
        consumers := (consumers s)[k := ?c\<lparr>cpc := C_print\<rparr>]\<rparr>"
      by (simp add: consumer_step_def Let_def add(2))
    have u: "taken s' = taken s" "summed s' = taken s"
      using a [of uncounted] a [of added] add(1) by (simp_all add: s' taken_def summed_def)
    show ?thesis
      by (rule move) (use c b cs C_add u a [of reserving] a [of emptying] in \<open>auto simp: defs s'\<close>)
  next
    case C_wait
    show ?thesis by (rule quiet [OF C_wait, of C_lock]) (use step c C_wait in \<open>auto simp: defs split: if_splits\<close>)
  next
    case C_lock
    show ?thesis by (rule quiet [OF C_lock, of C_read]) (use step c C_lock in \<open>auto simp: defs split: if_splits\<close>)
  next
    case C_print
    show ?thesis by (rule quiet [OF C_print, of C_count]) (use step c C_print in \<open>auto simp: defs split: if_splits\<close>)
  next
    case C_count
    show ?thesis by (rule quiet [OF C_count, of C_unlock]) (use step c C_count in \<open>auto simp: defs split: if_splits\<close>)
  next
    case C_unlock
    show ?thesis by (rule quiet [OF C_unlock, of C_post]) (use step c C_unlock in \<open>auto simp: defs split: if_splits\<close>)
  next
    case C_post
    show ?thesis by (rule quiet [OF C_post, of C_wait]) (use step c C_post in \<open>auto simp: defs split: if_splits\<close>)
  qed
qed

text \<open>A step that changes the control point of \<open>main\<close> only.\<close>

lemma ring_inv_main:
  assumes inv: "ring_inv n p s"
    and s': "s' = s\<lparr>ring_main := m, ring_printed := r\<rparr>" and ok: "main_ok n p s'"
  shows "ring_inv n p s'"
proof -
  have "taken s' = taken s" "summed s' = summed s" "posted s' = posted s" "claimed s' = claimed s"
    "stored s' = stored s" "tail_count s' = tail_count s"
    by (simp_all add: ring_counts s')
  with inv ok show ?thesis
    by (simp add: ring_inv_def counts_ok_def buffer_ok_def consumer_ok_def s')
qed

lemma ring_main_step_inv:
  assumes inv: "ring_inv n p s" and step: "ring_main_step n p s = Some s'"
  shows "ring_inv n p s'"
proof -
  note main = ring_inv_main [OF inv]
  have ok: "main_ok n p s" using inv by (simp add: ring_inv_def)
  note defs = ring_main_step_def main_ok_def
  show ?thesis
  proof (cases "ring_main s")
    case R_producer
    with step ok have s': "s' = s\<lparr>ring_main := R_create 0\<rparr>"
      by (cases s) (auto simp: defs)
    show ?thesis by (rule main [of _ "ring_printed s" "R_create 0"]) (use ok R_producer in \<open>simp_all add: s' defs\<close>)
  next
    case (R_create k)
    show ?thesis
    proof (cases "k < p")
      case True
      with step R_create have s': "s' = s\<lparr>consumers := consumers s @ [\<lparr>cpc = C_wait, cval = 0\<rparr>],
          ring_main := R_create (Suc k)\<rparr>" by (simp add: ring_main_step_def)
      have len: "length (consumers s) = k" using ok R_create by (simp add: main_ok_def)
      have u: "taken s' = taken s" "summed s' = summed s" by (simp_all add: s' taken_def summed_def)
      have "consumer_ok s' j (consumers s' ! j)" if "j < length (consumers s')" for j
        using inv that len u by (auto simp: ring_inv_def consumer_ok_def s' nth_append less_Suc_eq)
      moreover have "counts_ok s'" "buffer_ok s'"
        using inv u by (auto simp: ring_inv_def counts_ok_def buffer_ok_def posted_def claimed_def stored_def tail_count_def s')
      ultimately show ?thesis
        using inv R_create True len u by (auto simp: ring_inv_def main_ok_def s' less_Suc_eq)
    next
      case False
      show ?thesis by (rule main [of _ "ring_printed s" R_join])
          (use step ok R_create False in \<open>auto simp: defs\<close>)
    qed
  next
    case R_join
    show ?thesis by (rule main [of _ "ring_printed s" R_spin])
        (use step ok R_join in \<open>auto simp: defs split: if_splits\<close>)
  next
    case R_spin
    show ?thesis
    proof (cases "processed s < n")
      case True
      with step R_spin inv show ?thesis by (simp add: ring_main_step_def)
    next
      case False
      show ?thesis by (rule main [of _ "ring_printed s" "R_detach 0"])
          (use step ok R_spin False in \<open>auto simp: defs\<close>)
    qed
  next
    case (R_detach k)
    show ?thesis by (rule main [of _ "ring_printed s" "if k < p then R_detach (Suc k) else R_report"])
        (use step ok R_detach in \<open>auto simp: defs split: if_splits\<close>)
  next
    case R_report
    show ?thesis by (rule main [of _ "Some (ring_total s)" R_done])
        (use step ok R_report in \<open>auto simp: defs\<close>)
  qed (use step in \<open>simp add: ring_main_step_def\<close>)
qed

section \<open>Every execution ends\<close>

definition producer_left :: "nat \<Rightarrow> producer \<Rightarrow> nat" where
  "producer_left n p =
     (let r = n + 1 - pi p in
      case ppc p of
        P_test \<Rightarrow> 6 * r + 1 | P_wait \<Rightarrow> 6 * r | P_store \<Rightarrow> 6 * r - 1 | P_advance \<Rightarrow> 6 * r - 2
      | P_post \<Rightarrow> 6 * r - 3 | P_done \<Rightarrow> 0)"

definition consumer_left :: "consumer \<Rightarrow> nat" where
  "consumer_left c =
     (case cpc c of
        C_wait \<Rightarrow> 0 | C_lock \<Rightarrow> 8 | C_read \<Rightarrow> 7 | C_advance \<Rightarrow> 6 | C_add \<Rightarrow> 5 | C_print \<Rightarrow> 4
      | C_count \<Rightarrow> 3 | C_unlock \<Rightarrow> 2 | C_post \<Rightarrow> 1)"

definition ring_main_left :: "nat \<Rightarrow> rpc \<Rightarrow> nat" where
  "ring_main_left p m =
     (case m of
        R_producer \<Rightarrow> 2 * p + 9 | R_create k \<Rightarrow> (p - k) + p + 8 | R_join \<Rightarrow> p + 6 | R_spin \<Rightarrow> p + 5
      | R_detach k \<Rightarrow> (p - k) + 3 | R_report \<Rightarrow> 1 | R_done \<Rightarrow> 0)"

text \<open>Items that consumers have still to wait for count ten, more than the steps they cause.\<close>

definition ring_left :: "nat \<Rightarrow> nat \<Rightarrow> ring \<Rightarrow> nat" where
  "ring_left n p s =
     producer_left n (producer s) + 10 * (n + availableItems s - posted s) +
     (\<Sum>c \<leftarrow> consumers s. consumer_left c) + ring_main_left p (ring_main s)"

lemma producer_step_left:
  assumes "ring_inv n p s" "producer_step n s = Some s'"
  shows "ring_left n p s' < ring_left n p s"
  using assms
  by (cases "ppc (producer s)")
    (auto simp: producer_step_def Let_def ring_left_def producer_left_def posted_def ring_inv_def
      producer_ok_def split: if_splits)

lemma consumer_step_left:
  assumes inv: "ring_inv n p s" and k: "k < length (consumers s)" and step: "consumer_step k s = Some s'"
  shows "ring_left n p s' < ring_left n p s"
proof -
  have posted: "posted s \<le> n" using inv by (auto simp: ring_inv_def producer_ok_def posted_def)
  obtain c' where c': "consumers s' = (consumers s)[k := c']" "producer s' = producer s"
    "ring_main s' = ring_main s"
    "consumer_left c' + 10 * (n + availableItems s' - posted s) <
       consumer_left (consumers s ! k) + 10 * (n + availableItems s - posted s)"
    using step posted
    by (cases "cpc (consumers s ! k)")
      (force simp: consumer_step_def Let_def consumer_left_def split: if_splits)+
  from sum_list_update [OF k, of consumer_left c'] c' show ?thesis
    by (simp add: ring_left_def posted_def)
qed

lemma ring_main_step_left:
  assumes "ring_inv n p s" "ring_main_step n p s = Some s'" "\<not> (ring_main s = R_spin \<and> processed s < n)"
  shows "ring_left n p s' < ring_left n p s"
  using assms
  by (cases "ring_main s")
    (auto simp: ring_main_step_def ring_left_def ring_main_left_def consumer_left_def posted_def
      ring_inv_def main_ok_def split: if_splits)

text \<open>The only step that does not bring the end nearer is the busy wait of \<open>main\<close>.\<close>

lemma ring_move_left:
  assumes "ring_inv n p s" "ring_move n p t s = Some s'"
  shows "ring_left n p s' < ring_left n p s \<or>
    s' = s \<and> t = Main_thread \<and> ring_main s = R_spin \<and> processed s < n"
proof (cases t)
  case Main_thread
  show ?thesis
  proof (cases "ring_main s = R_spin \<and> processed s < n")
    case True
    with assms Main_thread show ?thesis by (simp add: ring_main_step_def)
  next
    case False
    with assms Main_thread show ?thesis by (auto intro: ring_main_step_left)
  qed
qed (use assms producer_step_left consumer_step_left in \<open>auto split: if_splits\<close>)

section \<open>No deadlock\<close>

text \<open>A consumer that is not waiting for an item can go on, or the owner of the mutex can.\<close>

lemma consumer_progress:
  assumes inv: "ring_inv n p s" and running: "ring_main s \<noteq> R_done"
    and j: "j < length (consumers s)" "cpc (consumers s ! j) \<noteq> C_wait \<or> 0 < availableItems s"
  shows "\<exists>t s'. ring_move n p t s = Some s' \<and> s' \<noteq> s"
proof -
  obtain k where k: "k < length (consumers s)" "cpc (consumers s ! k) \<noteq> C_wait \<or> 0 < availableItems s"
    "cpc (consumers s ! k) = C_lock \<longrightarrow> ring_mutex s = None"
  proof (cases "ring_mutex s")
    case None
    with j that show ?thesis by blast
  next
    case (Some k)
    with inv have "k < length (consumers s)" "cpc (consumers s ! k) \<in> holding"
      by (auto simp: ring_inv_def consumer_ok_def)
    then show ?thesis using that [of k] by auto
  qed
  then obtain s' where s': "consumer_step k s = Some s'"
    by (cases "cpc (consumers s ! k)") (auto simp: consumer_step_def Let_def)
  with running k(1) consumer_step_left [OF inv k(1) s'] show ?thesis
    by (intro exI [of _ "Consumer_thread k"]) auto
qed

lemma waiting_counts:
  assumes "\<And>j. j < length (consumers s) \<Longrightarrow> cpc (consumers s ! j) = C_wait" "C_wait \<notin> P"
  shows "at_points P (consumers s) = 0"
  using at_points_positive [of P "consumers s"] assms by fastforce

lemma ring_progress:
  assumes args: "hw2_args (int n) (int p)" and inv: "ring_inv n p s"
  shows "ring_main s = R_done \<or> (\<exists>t s'. ring_move n p t s = Some s' \<and> s' \<noteq> s)"
proof (rule ccontr)
  assume stuck: "\<not> (ring_main s = R_done \<or> (\<exists>t s'. ring_move n p t s = Some s' \<and> s' \<noteq> s))"
  have no_main: "ring_main_step n p s = None \<or> ring_main s = R_spin \<and> processed s < n"
    using stuck ring_main_step_left [OF inv] by (metis less_irrefl not_Some_eq ring_move.simps(1))
  have no_producer: "producer_step n s = None" if "ring_main s \<noteq> R_producer"
    using stuck that producer_step_left [OF inv] by (metis less_irrefl not_Some_eq ring_move.simps(2))
  from no_main have at: "ring_main s = R_join \<or> ring_main s = R_spin"
    using stuck by (auto simp: ring_main_step_def split: rpc.splits if_splits)
  have all_wait: "cpc (consumers s ! j) = C_wait \<and> availableItems s = 0" if "j < length (consumers s)" for j
    using consumer_progress [OF inv _ that] stuck by blast
  have zero: "at_points P (consumers s) = 0" if "C_wait \<notin> P" for P
    using waiting_counts all_wait that by blast
  have some: "0 < length (consumers s)"
    using at inv args by (auto simp: ring_inv_def main_ok_def hw2_args_def)
  then have empty: "availableItems s = 0" using all_wait by blast
  have counts: "taken s = posted s" "remainingSpace s + claimed s = 8 + taken s"
    using inv zero empty by (auto simp: ring_inv_def counts_ok_def)
  have blocked: "ppc (producer s) = P_done \<or> (ppc (producer s) = P_wait \<and> remainingSpace s = 0)"
    using no_producer at by (cases "ppc (producer s)") (auto simp: producer_step_def Let_def split: if_splits)
  with counts have fin: "ppc (producer s) = P_done" by (auto simp: claimed_def posted_def)
  with inv have "posted s = n" by (simp add: ring_inv_def producer_ok_def posted_def)
  with counts zero [of uncounted] have "processed s = n" by (simp add: taken_def)
  with at fin no_main show False by (auto simp: ring_main_step_def)
qed

interpretation ring: busy_waiting "ring_init n p" "ring_step n p"
    "\<lambda>s. hw2_args (int n) (int p) \<and> ring_inv n p s" "ring_move n p" "ring_left n p" "\<lambda>s. ring_main s = R_done"
  for n p
proof (unfold_locales, goal_cases)
  case (1 s)
  then show ?case by (simp add: ring_inv_init) (simp add: ring_init_def)
next
  case (2 s s')
  then show ?case
    by (auto elim!: ring_step.cases intro: producer_step_inv consumer_step_inv ring_main_step_inv)
next
  case (3 s s')
  show ?case by (rule ring_step_iff)
next
  case (4 s t s')
  then show ?case using ring_move_left by blast
next
  case (5 s t)
  then show ?case by (cases t) (simp_all add: ring_main_step_def)
next
  case (6 s)
  then show ?case using ring_progress by blast
qed

section \<open>The total and the abstract queue\<close>

lemma ring_final:
  assumes inv: "ring_inv n p s" and fin: "ring_main s = R_done"
  shows "ring_printed s = Some (int n * (int n + 1) * (2 * int n + 1) div 6)"
proof -
  have "taken s \<le> n" using taken_le_n [OF inv] by simp
  moreover have "n \<le> processed s" "ring_printed s = Some (ring_total s)"
    using inv fin by (auto simp: ring_inv_def main_ok_def)
  moreover have "summed s \<le> taken s"
    using at_points_Un [of "{C_add}" added "consumers s"] by (simp add: taken_def summed_def insert_commute)
  ultimately have "summed s = n" by (simp add: summed_def taken_def)
  with inv have "6 * ring_total s = int n * (int n + 1) * (2 * int n + 1)"
    by (simp only: ring_inv_def squares_closed)
  then have "ring_total s = int n * (int n + 1) * (2 * int n + 1) div 6" by linarith
  with \<open>ring_printed s = Some (ring_total s)\<close> show ?thesis by simp
qed

text \<open>
  The abstract queue: the items from the head on that the producer has stored, oldest first, read
  from the circular buffer.
\<close>

definition ring_items :: "ring \<Rightarrow> int list" where
  "ring_items s = map (\<lambda>j. buffer s ! ((head s + j) mod BUFFER_SIZE)) [0..<stored s - taken s]"

lemma ring_items_inv:
  assumes "ring_inv n p s"
  shows "ring_items s = map (\<lambda>j. int (j + 1)) [taken s..<stored s]"
proof (rule nth_equalityI)
  fix j assume "j < length (ring_items s)"
  then have j: "j < stored s - taken s" by (simp add: ring_items_def)
  then have "taken s \<le> taken s + j" "taken s + j < stored s" by auto
  moreover have b: "buffer_ok s" using assms by (simp add: ring_inv_def)
  ultimately have "buffer s ! ((taken s + j) mod 8) = int (taken s + j + 1)"
    unfolding buffer_ok_def by blast
  moreover have "(head s + j) mod 8 = (taken s + j) mod 8"
    using b by (simp add: buffer_ok_def mod_add_left_eq)
  ultimately show "ring_items s ! j = map (\<lambda>j. int (j + 1)) [taken s..<stored s] ! j"
    using j by (simp add: ring_items_def BUFFER_SIZE_def)
qed (simp add: ring_items_def)

lemma stored_bounds:
  assumes "ring_inv n p s"
  shows "taken s \<le> stored s" "stored s \<le> taken s + 8"
proof -
  have "counts_ok s" "producer_ok n (producer s)" using assms by (auto simp: ring_inv_def)
  then show "taken s \<le> stored s" "stored s \<le> taken s + 8"
    by (auto simp: counts_ok_def posted_def claimed_def stored_def producer_ok_def split: if_splits)
qed

text \<open>What a step does to the queue: the producer stores its number, a consumer moves the head.\<close>

definition ring_event :: "ring \<Rightarrow> ring \<Rightarrow> int queue_event" where
  "ring_event s s' =
     (if stored s < stored s' then Put (int (pi (producer s)))
      else if taken s < taken s'
      then Get (case ring_mutex s of Some k \<Rightarrow> cval (consumers s ! k) | None \<Rightarrow> 0)
      else Idle)"

lemma producer_step_event:
  assumes "producer_ok n (producer s)" "producer_step n s = Some s'"
  shows "taken s' = taken s"
    "stored s' = (if ppc (producer s) = P_store then Suc (stored s) else stored s)"
    "stored s < stored s' \<Longrightarrow> pi (producer s) = Suc (stored s)"
  using assms
  by (cases "ppc (producer s)";
      auto simp: producer_step_def Let_def taken_def stored_def producer_ok_def split: if_splits)+

lemma consumer_step_event:
  assumes inv: "ring_inv n p s" and k: "k < length (consumers s)" and step: "consumer_step k s = Some s'"
  shows "stored s' = stored s"
    "taken s' = (if cpc (consumers s ! k) = C_advance then Suc (taken s) else taken s)"
    "taken s < taken s' \<Longrightarrow> ring_mutex s = Some k \<and> cval (consumers s ! k) = int (taken s) + 1"
proof -
  show "stored s' = stored s"
    using step by (cases "cpc (consumers s ! k)") (auto simp: consumer_step_def Let_def stored_def split: if_splits)
  obtain c' where c': "consumers s' = (consumers s)[k := c']" and
    "processed s' + (if cpc c' \<in> uncounted then 1 else 0) =
       processed s + (if cpc (consumers s ! k) \<in> uncounted \<or> cpc (consumers s ! k) = C_advance then 1 else 0)"
    using step by (cases "cpc (consumers s ! k)") (auto simp: consumer_step_def Let_def split: if_splits)
  with counts_after [OF k refl refl, of uncounted c']
  show t: "taken s' = (if cpc (consumers s ! k) = C_advance then Suc (taken s) else taken s)"
    by (auto simp: taken_def split: if_splits)
  have ok: "consumer_ok s k (consumers s ! k)" using inv k by (simp add: ring_inv_def)
  assume "taken s < taken s'"
  with t have "cpc (consumers s ! k) = C_advance" by (simp split: if_splits)
  with ok show "ring_mutex s = Some k \<and> cval (consumers s ! k) = int (taken s) + 1"
    by (simp add: consumer_ok_def)
qed

lemma ring_main_step_event:
  "ring_inv n p s \<Longrightarrow> ring_main_step n p s = Some s' \<Longrightarrow> stored s' = stored s \<and> taken s' = taken s"
  by (cases "ring_main s")
    (auto simp: ring_main_step_def ring_inv_def main_ok_def stored_def taken_def split: if_splits)

lemma ring_refines:
  assumes args: "hw2_args (int n) (int p)" and inv: "ring_inv n p s" and step: "ring_step n p s s'"
  shows "queue_step BUFFER_SIZE (ring_items s) (ring_event s s') (ring_items s')"
proof -
  have inv': "ring_inv n p s'"
    using step args inv
    by (auto elim!: ring_step.cases intro: producer_step_inv consumer_step_inv ring_main_step_inv)
  note items = ring_items_inv [OF inv] ring_items_inv [OF inv']
  note bounds = stored_bounds [OF inv] stored_bounds [OF inv']
  have ok: "producer_ok n (producer s)" using inv by (simp add: ring_inv_def)
  have "taken s' = taken s \<and> stored s' = stored s \<or>
    taken s' = taken s \<and> stored s' = Suc (stored s) \<and> pi (producer s) = Suc (stored s) \<or>
    stored s' = stored s \<and> taken s' = Suc (taken s) \<and>
      (\<exists>k. ring_mutex s = Some k \<and> cval (consumers s ! k) = int (taken s) + 1)"
    using step
  proof cases
    case produces
    from producer_step_event [OF ok this(3)] show ?thesis by (auto split: if_splits)
  next
    case (consumes k)
    from consumer_step_event [OF inv this(2,3)] show ?thesis by (auto split: if_splits)
  next
    case main_moves
    from ring_main_step_event [OF inv this] show ?thesis by blast
  qed
  then show ?thesis
    using bounds by (elim disjE conjE exE) (auto simp: items ring_event_def BUFFER_SIZE_def upt_conv_Cons)
qed

lemma ring_start_reachable: "hw2_args (int n) (int p) \<Longrightarrow> reachable (ring_init n p) (ring_step n p) ring_start"
  by (rule reach_init) (simp add: ring_init_def)

section \<open>Properties\<close>

text \<open>
  C11. Whatever the interleaving of producer and consumers, the total printed at the end is the sum
  of the squares from 1 to \<open>n\<close>: every number passes the circular buffer exactly once.
\<close>

theorem level3_prints_sum_of_squares:
  assumes "reachable (ring_init n p) (ring_step n p) s" "ring_main s = R_done"
  shows "ring_printed s = Some (int n * (int n + 1) * (2 * int n + 1) div 6)"
  using ring.inv_reachable [OF assms(1)] assms(2) by (auto intro: ring_final)

theorem level3_prints_sum_of_squares_witness:
  "\<exists>s. reachable (ring_init 10 2) (ring_step 10 2) s \<and> ring_main s = R_done \<and> ring_printed s = Some 385"
proof -
  have start: "reachable (ring_init 10 2) (ring_step 10 2) ring_start"
    by (rule ring_start_reachable) (simp add: hw2_args_def)
  from ring.reaches_goal [OF ring.inv_reachable [OF start]] obtain s
    where s: "(ring_step 10 2)\<^sup>*\<^sup>* ring_start s" "ring_main s = R_done" by blast
  from s(1) start have "reachable (ring_init 10 2) (ring_step 10 2) s"
    by (induction rule: rtranclp_induct) (auto intro: reach_step)
  with level3_prints_sum_of_squares [OF this s(2)] s(2) show ?thesis by auto
qed

text \<open>
  C10. The circular buffer with its two semaphores refines a queue of at most 8 items: a step of
  the program leaves the queue alone, or appends the producer's number to a queue that has room,
  or takes the oldest item out, which is the value the consumer holding the mutex has read.
\<close>

theorem level3_refines_bounded_queue:
  assumes "reachable (ring_init n p) (ring_step n p) s" "ring_step n p s s'"
  shows "queue_step BUFFER_SIZE (ring_items s) (ring_event s s') (ring_items s')"
  using ring.inv_reachable [OF assms(1)] assms(2) by (auto intro: ring_refines)

theorem level3_refines_bounded_queue_witness:
  "\<exists>s s'. ring_event s s' = Put 1 \<and> queue_step BUFFER_SIZE (ring_items s) (Put 1) (ring_items s')"
proof -
  let ?s1 = "ring_start\<lparr>ring_main := R_create 0\<rparr>"
  let ?s2 = "?s1\<lparr>producer := \<lparr>ppc = P_wait, pi = 1\<rparr>\<rparr>"
  let ?s3 = "?s1\<lparr>remainingSpace := 7, producer := \<lparr>ppc = P_store, pi = 1\<rparr>\<rparr>"
  let ?s4 = "?s3\<lparr>buffer := (replicate 8 0)[0 := 1], producer := \<lparr>ppc = P_advance, pi = 1\<rparr>\<rparr>"
  note defs = ring_start_def producer_step_def ring_main_step_def Let_def BUFFER_SIZE_def
  have "reachable (ring_init 10 2) (ring_step 10 2) ring_start"
    by (rule ring_start_reachable) (simp add: hw2_args_def)
  then have "reachable (ring_init 10 2) (ring_step 10 2) ?s1"
    by (rule reach_step, intro main_moves) (simp add: defs)
  then have "reachable (ring_init 10 2) (ring_step 10 2) ?s2"
    by (rule reach_step, intro produces) (simp_all add: defs)
  then have r: "reachable (ring_init 10 2) (ring_step 10 2) ?s3"
    by (rule reach_step, intro produces) (simp_all add: defs)
  have "ring_step 10 2 ?s3 ?s4" by (rule produces) (simp_all add: defs)
  from level3_refines_bounded_queue [OF r this] have "queue_step BUFFER_SIZE (ring_items ?s3) (ring_event ?s3 ?s4) (ring_items ?s4)" .
  moreover have "ring_event ?s3 ?s4 = Put 1" by (simp add: ring_event_def stored_def ring_start_def)
  ultimately show ?thesis by metis
qed

text \<open>
  C12. The program of \<open>level3.c\<close> ends under a fair scheduler: an execution that does not end is not
  weakly fair, because from some moment on it is \<open>main\<close> alone that takes steps, all of them in the
  busy wait with numbers still to be processed.  There is no deadlock: from every reachable state
  an execution leads to the end of \<open>main\<close> with the right total printed.
\<close>

theorem level3_terminates:
  "(\<forall>who f. ring_init n p (f 0) \<and> execution (ring_move n p) who f \<longrightarrow>
      \<not> weakly_fair (ring_move n p) who f \<and>
      (\<exists>i. \<forall>j \<ge> i. who j = Main_thread \<and> ring_main (f j) = R_spin \<and> processed (f j) < n)) \<and>
   (\<forall>s. reachable (ring_init n p) (ring_step n p) s \<longrightarrow>
      (\<exists>s'. (ring_step n p)\<^sup>*\<^sup>* s s' \<and> ring_main s' = R_done \<and>
         ring_printed s' = Some (int n * (int n + 1) * (2 * int n + 1) div 6)))"
proof (intro conjI allI impI)
  fix who f assume "ring_init n p (f 0) \<and> execution (ring_move n p) who f"
  then have run: "ring_init n p (f 0)" "execution (ring_move n p) who f" by auto
  then show "\<not> weakly_fair (ring_move n p) who f" by (rule ring.not_fair)
  from ring.spins_for_ever [OF run] obtain i where i: "\<And>j. i \<le> j \<Longrightarrow> f j = f i" by blast
  show "\<exists>i. \<forall>j \<ge> i. who j = Main_thread \<and> ring_main (f j) = R_spin \<and> processed (f j) < n"
  proof (intro exI allI impI)
    fix j assume "i \<le> j"
    with i [of j] i [of "Suc j"] run(2) have "ring_move n p (who j) (f j) = Some (f j)"
      by (metis \<open>i \<le> j\<close> execution_def le_SucI)
    with ring_move_left ring.inv_execution [OF run, of j]
    show "who j = Main_thread \<and> ring_main (f j) = R_spin \<and> processed (f j) < n" by blast
  qed
next
  fix s assume s: "reachable (ring_init n p) (ring_step n p) s"
  from ring.reaches_goal [OF ring.inv_reachable [OF s]] obtain s'
    where s': "(ring_step n p)\<^sup>*\<^sup>* s s'" "ring_main s' = R_done" by blast
  from reachable_run [OF s'(1) s] ring_final [of n p s'] ring.inv_reachable s'
  show "\<exists>s'. (ring_step n p)\<^sup>*\<^sup>* s s' \<and> ring_main s' = R_done \<and>
         ring_printed s' = Some (int n * (int n + 1) * (2 * int n + 1) div 6)" by blast
qed

text \<open>
  A schedule that leaves \<open>main\<close> in the busy wait with two of ten numbers processed.  Repeating the
  step of \<open>main\<close> from there gives an execution without end, to which the theorem applies.
\<close>

definition starving_schedule :: "ring_thread list" where
  "starving_schedule =
     replicate 4 Main_thread @ replicate 40 Producer_thread @ replicate 18 (Consumer_thread 0) @
     replicate 11 Producer_thread @ [Main_thread]"

theorem level3_terminates_witness:
  "(\<exists>who f. ring_init 10 2 (f 0) \<and> execution (ring_move 10 2) who f \<and> \<not> weakly_fair (ring_move 10 2) who f) \<and>
   (\<exists>s'. (ring_step 10 2)\<^sup>*\<^sup>* ring_start s' \<and> ring_main s' = R_done \<and> ring_printed s' = Some 385)"
proof
  have start: "reachable (ring_init 10 2) (ring_step 10 2) ring_start"
    by (rule ring_start_reachable) (simp add: hw2_args_def)
  have "case run_schedule (ring_move 10 2) starving_schedule ring_start of None \<Rightarrow> False
        | Some s \<Rightarrow> ring_main s = R_spin \<and> processed s = 2"
    by code_simp
  then obtain s where s: "run_schedule (ring_move 10 2) starving_schedule ring_start = Some s"
    "ring_main s = R_spin" "processed s = 2" by (auto split: option.splits)
  have "reachable (ring_init 10 2) (ring_step 10 2) s"
    by (rule run_schedule_reachable [OF _ s(1) start]) (auto simp: ring_step_iff)
  moreover have "ring_move 10 2 Main_thread s = Some s" using s by (simp add: ring_main_step_def)
  ultimately have "\<exists>who f i. ring_init 10 2 (f 0) \<and> execution (ring_move 10 2) who f \<and> (\<forall>j \<ge> i. f j = s)"
    by (rule execution_to_spin) (simp add: ring_step_iff)
  with level3_terminates [of 10 2]
  show "\<exists>who f. ring_init 10 2 (f 0) \<and> execution (ring_move 10 2) who f \<and> \<not> weakly_fair (ring_move 10 2) who f"
    by blast
  from start level3_terminates [of 10 2]
  have "\<exists>s'. (ring_step 10 2)\<^sup>*\<^sup>* ring_start s' \<and> ring_main s' = R_done \<and>
      ring_printed s' = Some (int 10 * (int 10 + 1) * (2 * int 10 + 1) div 6)" by blast
  then show "\<exists>s'. (ring_step 10 2)\<^sup>*\<^sup>* ring_start s' \<and> ring_main s' = R_done \<and> ring_printed s' = Some 385" by simp
qed

end
