(* ===== verification/Sockets.thy ===== *)
theory Sockets
  imports Posix_IO
begin

text \<open>
  What the network programs of the lectures share: arrays that calls store into and \<open>printf\<close>
  prints, datagrams, and the laws of rounds that begin with actions.
\<close>

section \<open>Arrays\<close>

text \<open>The array after \<open>d\<close> was stored at its start.\<close>

definition overwrite :: "bytes \<Rightarrow> bytes \<Rightarrow> bytes" where
  "overwrite d buf = d @ drop (length d) buf"

lemma length_overwrite [simp]: "length d \<le> length buf \<Longrightarrow> length (overwrite d buf) = length buf"
  by (simp add: overwrite_def)

text \<open>\<open>buf[i] = 0\<close>: a fault outside the array.\<close>

definition put_NUL :: "bytes \<Rightarrow> int \<Rightarrow> (bytes \<Rightarrow> 'a io) \<Rightarrow> 'a io" where
  "put_NUL buf i k =
     (if 0 \<le> i \<and> i < int (length buf) then k (buf[nat i := NUL])
      else c_fault ''store outside an array'')"

text \<open>\<open>printf\<close> of an array with \<open>%s\<close>, between two texts: a fault when the array has no NUL.\<close>

definition print_array :: "string \<Rightarrow> bytes \<Rightarrow> string \<Rightarrow> unit io" where
  "print_array pre buf post =
     (if NUL \<in> set buf then c_print (pre @ cstr buf @ post) else c_fault ''array without a NUL'')"

lemma cstr_before_NUL: "cstr (d @ NUL # r) = cstr d"
  by (induction d) (auto simp: cstr_def)

lemma cstr_put_NUL: "cstr ((overwrite d buf)[length d := NUL]) = cstr d" if "length d < length buf"
proof -
  have "(overwrite d buf)[length d := NUL] = d @ NUL # drop (Suc (length d)) buf"
    using that by (simp add: overwrite_def list_update_append Cons_nth_drop_Suc [symmetric])
  then show ?thesis by (simp add: cstr_before_NUL)
qed

lemma wpt_put_NUL:
  "(0 \<le> i \<Longrightarrow> i < int (length buf) \<Longrightarrow> wpt (k (buf[nat i := NUL])) Q E t) \<Longrightarrow>
   (\<not> (0 \<le> i \<and> i < int (length buf)) \<Longrightarrow> E (Fault ''store outside an array'') t) \<Longrightarrow>
   wpt (put_NUL buf i k) Q E t"
  unfolding put_NUL_def by (auto intro: wpt_prims)

lemma wpt_print_array:
  "(NUL \<in> set buf \<Longrightarrow> Q () (t @ [Act (AOut (pre @ cstr buf @ post))])) \<Longrightarrow>
   (NUL \<notin> set buf \<Longrightarrow> E (Fault ''array without a NUL'') t) \<Longrightarrow>
   wpt (print_array pre buf post) Q E t"
  unfolding print_array_def by (auto intro: wpt_derived wpt_prims)

lemma shrinks_arrays:
  "(\<And>b. shrinks (k b)) \<Longrightarrow> shrinks (put_NUL buf i k)" "shrinks (print_array pre buf post)"
  unfolding put_NUL_def print_array_def by (auto intro!: shrinks_intros)

section \<open>Rounds\<close>

lemma calls_after_act: "calls_each_round body \<Longrightarrow> calls_each_round (\<lambda>s. thn (act a) (body s))"
  unfolding calls_each_round_def
proof (intro allI)
  fix s w
  assume "\<forall>s w. wp (body s) (\<lambda>x w'. case x of Inl s' \<Rightarrow> length (script w') < length (script w) | Inr b \<Rightarrow> True)
    (\<lambda>_ _. True) w"
  from this [rule_format, of s "log_act a w", unfolded log_act_fields]
  show "wp (thn (act a) (body s)) (\<lambda>x w'. case x of Inl s' \<Rightarrow> length (script w') < length (script w) | Inr b \<Rightarrow> True)
    (\<lambda>_ _. True) w"
    by (simp add: wp_simps)
qed

section \<open>Datagrams\<close>

definition SOCK_DGRAM :: int where "SOCK_DGRAM = 2"

definition c_recvfrom :: "int \<Rightarrow> nat \<Rightarrow> reply io" where
  "c_recvfrom fd n = call (CRecvfrom fd n)"

text \<open>\<open>sendto(fd, buf, n, 0, a)\<close>: a negative count is rejected, as by \<open>write\<close>.\<close>

definition c_sendto :: "int \<Rightarrow> bytes \<Rightarrow> int \<Rightarrow> bytes \<Rightarrow> int io" where
  "c_sendto fd buf n a =
     (if n < 0 then sysi (CSendtoBad fd) else sysi (CSendto fd (take (nat n) buf) a))"

lemma wpt_recvfrom:
  assumes "\<And>r. rv r = -1 \<Longrightarrow> dat r = [] \<Longrightarrow> Q r (t @ [Sys (CRecvfrom fd n) r])"
    and "\<And>r. rv r = int (length (dat r)) \<Longrightarrow> length (dat r) \<le> n \<Longrightarrow> Q r (t @ [Sys (CRecvfrom fd n) r])"
    and "E (Blocked (CRecvfrom fd n)) t"
  shows "wpt (c_recvfrom fd n) Q E t"
  unfolding c_recvfrom_def
proof (rule wpt_call)
  fix r
  let ?r = "norm_reply (CRecvfrom fd n) r"
  have "rv ?r = -1 \<and> dat ?r = [] \<or> rv ?r = int (length (dat ?r)) \<and> length (dat ?r) \<le> n"
    by (simp add: norm_reply_def)
  with assms(1,2) show "Q ?r (t @ [Sys (CRecvfrom fd n) ?r])" by blast
qed (rule assms(3))

lemma wpt_sendto:
  assumes "\<And>r. n < 0 \<Longrightarrow> Q (rv r) (t @ [Sys (CSendtoBad fd) r])"
    and "\<And>r. 0 \<le> n \<Longrightarrow> Q (rv r) (t @ [Sys (CSendto fd (take (nat n) buf) a) r])"
    and "\<And>c. E (Blocked c) t"
  shows "wpt (c_sendto fd buf n a) Q E t"
  unfolding c_sendto_def using assms by (auto intro!: wpt_derived)

lemma shrinks_datagrams: "shrinks (c_recvfrom fd n)" "shrinks (c_sendto fd b i a)"
  unfolding c_recvfrom_def c_sendto_def by (auto intro!: shrinks_intros)

text \<open>The datagrams a trace received on a socket, with their senders, and those it gave to
  \<open>sendto\<close>, with their destinations.\<close>

fun datagrams_in :: "int \<Rightarrow> entry list \<Rightarrow> (bytes \<times> bytes) list" where
  "datagrams_in fd [] = []"
| "datagrams_in fd (Sys (CRecvfrom fd' n) r # t) =
     (if fd' = fd \<and> 0 \<le> rv r then [(dat r, src_addr r)] else []) @ datagrams_in fd t"
| "datagrams_in fd (_ # t) = datagrams_in fd t"

fun datagrams_out :: "int \<Rightarrow> entry list \<Rightarrow> (bytes \<times> bytes) list" where
  "datagrams_out fd [] = []"
| "datagrams_out fd (Sys (CSendto fd' b a) r # t) = (if fd' = fd then [(b, a)] else []) @ datagrams_out fd t"
| "datagrams_out fd (_ # t) = datagrams_out fd t"

text \<open>The lines a trace read from standard input.\<close>

fun lines_in :: "entry list \<Rightarrow> string list" where
  "lines_in [] = []"
| "lines_in (Sys (CFgets n) r # t) = (if rv r = 0 then [] else [cstr (dat r)]) @ lines_in t"
| "lines_in (_ # t) = lines_in t"

lemma datagrams_in_append [simp]: "datagrams_in fd (s @ t) = datagrams_in fd s @ datagrams_in fd t"
  by (induction fd s rule: datagrams_in.induct) auto

lemma datagrams_out_append [simp]: "datagrams_out fd (s @ t) = datagrams_out fd s @ datagrams_out fd t"
  by (induction fd s rule: datagrams_out.induct) auto

lemma lines_in_append [simp]: "lines_in (s @ t) = lines_in s @ lines_in t"
  by (induction s rule: lines_in.induct) auto

text \<open>The outcomes of a run that does not end: it waits in a call.\<close>

fun blocked :: "stop \<Rightarrow> bool" where
  "blocked (Blocked c) = True"
| "blocked _ = False"

fun faulted :: "stop \<Rightarrow> bool" where
  "faulted (Fault f) = True"
| "faulted _ = False"

fun exits_1 :: "stop \<Rightarrow> bool" where
  "exits_1 (Exited n) \<longleftrightarrow> n = 1"
| "exits_1 _ = False"

text \<open>What a trace gave to \<open>write\<close>, call by call.\<close>

fun writes :: "entry list \<Rightarrow> (int \<times> bytes) list" where
  "writes [] = []"
| "writes (Sys (CWrite fd b) r # t) = (fd, b) # writes t"
| "writes (_ # t) = writes t"

lemma writes_append [simp]: "writes (s @ t) = writes s @ writes t"
  by (induction s rule: writes.induct) auto

lemmas [eval_simps] =
  put_NUL_def print_array_def c_recvfrom_def c_sendto_def overwrite_def cstr_def

end
