(* ===== verification/Udp_Echo.thy ===== *)
theory Udp_Echo
  imports Sockets
begin

text \<open>
  The UDP echo programs, \<^verbatim>\<open>src/Lecture10\<close>: a server that sends each datagram back to its sender,
  and a client that sends the lines of standard input and prints the answers.  The plain pair
  (\<open>udp_echo_server\<close>) waits for ever; the others limit the wait with an alarm and \<open>siginterrupt\<close>
  or \<open>sigaction\<close> (\<open>udp_echo_server_alarm\<close>), with \<open>select\<close> (\<open>udp_echo_server_select\<close>), or with the
  socket option \<open>SO_RCVTIMEO\<close> (\<open>udp_echo_server_setsockopt\<close>).

  A signal that interrupts \<open>recvfrom\<close> is a reply -1 with \<open>errno = EINTR\<close>.
\<close>

unbundle bit_operations_syntax

definition UDP_PORT :: int where "UDP_PORT = 8080"
definition MAXLINE :: nat where "MAXLINE = 4096"
definition SIGALRM :: int where "SIGALRM = 14"
definition SO_RCVTIMEO :: int where "SO_RCVTIMEO = 20"
definition SA_RESTART :: int where "SA_RESTART = 268435456"

section \<open>Servers\<close>

text \<open>The datagram back to its sender, \<open>msg[n] = 0\<close>, and the line on standard output.\<close>

definition echo_back :: "int \<Rightarrow> reply \<Rightarrow> 'a io \<Rightarrow> 'a io" where
  "echo_back sockfd r k =
     bnd (c_sendto sockfd (dat r) (rv r) (src_addr r)) (\<lambda>_.
     put_NUL (dat r @ replicate (MAXLINE + 1 - length (dat r)) NUL) (rv r) (\<lambda>msg.
     thn (print_array ''Received and sent: '' msg [LF]) k))"

definition plain_echo_round :: "int \<Rightarrow> unit \<Rightarrow> (unit + int) io" where
  "plain_echo_round sockfd u =
     bnd (c_recvfrom sockfd MAXLINE) (\<lambda>r. echo_back sockfd r (go ()))"

definition plain_udp_echo :: "int \<Rightarrow> int io" where
  "plain_udp_echo sockfd = repeat_io (plain_echo_round sockfd) ()"

text \<open>A failed \<open>recvfrom\<close> in the programs with an alarm.\<close>

definition alarm_failure :: "'a io \<Rightarrow> 'a io" where
  "alarm_failure k =
     bnd get_errno (\<lambda>e.
     thn (if e = EINTR then c_eprint (''socket timeout'' @ [LF]) else c_perror ''recvfrom error'') k)"

definition alarm_echo_round :: "int \<Rightarrow> unit \<Rightarrow> (unit + int) io" where
  "alarm_echo_round sockfd u =
     thn (act (ASys ''alarm'' [5])) (
     bnd (c_recvfrom sockfd MAXLINE) (\<lambda>r.
     if rv r < 0 then alarm_failure (go ())
     else thn (act (ASys ''alarm'' [0])) (echo_back sockfd r (go ()))))"

definition alarm_udp_echo :: "int \<Rightarrow> int io" where
  "alarm_udp_echo sockfd =
     seqs [act (ASys ''siginterrupt'' [SIGALRM, 1]), act (ASys ''signal'' [SIGALRM])]
       (repeat_io (alarm_echo_round sockfd) ())"

text \<open>
  \<open>sigaction\<close> reads the action of the signal, of which only the flags matter, and writes it with
  the handler \<open>sig_alrm\<close> and without the flag \<open>SA_RESTART\<close>.
\<close>

definition sa_flags :: "bytes \<Rightarrow> int" where
  "sa_flags b = foldr (\<lambda>c a. of_char c + 256 * a) (take 4 b) 0"

definition install_handler :: "string \<Rightarrow> string \<Rightarrow> 'a io \<Rightarrow> 'a io" where
  "install_handler get_msg set_msg k =
     bnd (call (CSys ''sigaction NULL'' [SIGALRM])) (\<lambda>r.
     if rv r < 0 then thn (c_perror get_msg) (c_exit 1)
     else
       bnd (sysi (CSys ''sigaction sig_alrm'' [SIGALRM, sa_flags (dat r) AND NOT SA_RESTART])) (\<lambda>rc.
       if rc < 0 then thn (c_perror set_msg) (c_exit 1) else k))"

definition act_udp_echo :: "int \<Rightarrow> int io" where
  "act_udp_echo sockfd =
     install_handler ''sigaction get'' ''sigaction'' (repeat_io (alarm_echo_round sockfd) ())"

definition readable_timeout :: "int \<Rightarrow> int \<Rightarrow> int io" where
  "readable_timeout fd sec = sysi (CSys ''select'' [fd + 1, fd, sec, 0])"

definition select_echo_round :: "int \<Rightarrow> unit \<Rightarrow> (unit + int) io" where
  "select_echo_round sockfd u =
     bnd (readable_timeout sockfd 5) (\<lambda>rc.
     if rc = 0 then thn (c_eprint (''socket timeout'' @ [LF])) (go ())
     else bnd (c_recvfrom sockfd MAXLINE) (\<lambda>r. echo_back sockfd r (go ())))"

definition select_udp_echo :: "int \<Rightarrow> int io" where
  "select_udp_echo sockfd = repeat_io (select_echo_round sockfd) ()"

text \<open>The receive timeout of a socket, in seconds.\<close>

definition set_rcvtimeo :: "int \<Rightarrow> int \<Rightarrow> 'a io \<Rightarrow> 'a io" where
  "set_rcvtimeo sockfd sec k =
     bnd (sysi (CSys ''setsockopt'' [sockfd, SOL_SOCKET, SO_RCVTIMEO, sec, 0])) (\<lambda>rc.
     if rc \<noteq> 0 then seqs [c_perror ''setsockopt'', c_close sockfd] (c_exit EXIT_FAILURE) else k)"

definition sockopt_echo_round :: "int \<Rightarrow> unit \<Rightarrow> (unit + int) io" where
  "sockopt_echo_round sockfd u =
     bnd (c_recvfrom sockfd MAXLINE) (\<lambda>r.
     if rv r < 0 then thn (c_perror ''recvfrom'') (go ()) else echo_back sockfd r (go ()))"

definition sockopt_udp_echo :: "int \<Rightarrow> int io" where
  "sockopt_udp_echo sockfd = set_rcvtimeo sockfd 5 (repeat_io (sockopt_echo_round sockfd) ())"

text \<open>\<open>main\<close> of a server: the results of \<open>socket\<close> and \<open>bind\<close> are not tested.\<close>

definition udp_server_main :: "(int \<Rightarrow> int io) \<Rightarrow> int io" where
  "udp_server_main udp_echo =
     bnd (sysi (CSocket AF_INET SOCK_DGRAM 0)) (\<lambda>sockfd.
     bnd (sysi (CBind sockfd (htons UDP_PORT))) (\<lambda>_.
     thn (c_print (''The UDP server is on.'' @ [LF])) (udp_echo sockfd)))"

definition plain_server :: "int io" where "plain_server = udp_server_main plain_udp_echo"
definition alarm_server :: "int io" where "alarm_server = udp_server_main alarm_udp_echo"
definition act_server :: "int io" where "act_server = udp_server_main act_udp_echo"
definition select_server :: "int io" where "select_server = udp_server_main select_udp_echo"
definition sockopt_server :: "int io" where "sockopt_server = udp_server_main sockopt_udp_echo"

section \<open>Clients\<close>

text \<open>
  The address the clients send to; \<open>memset(&serv_addr, '0', \<dots>)\<close> fills the unused bytes with the
  character 0.
\<close>

definition serv_addr :: bytes where
  "serv_addr = map char_of [2, 0, 31, 144, 127, 0, 0, 1 :: nat] @ replicate 8 CHR ''0''"

text \<open>A line of standard input is sent; \<open>null\<close> ends the loop.\<close>

definition send_line :: "int \<Rightarrow> (unit + unit) io \<Rightarrow> (unit + unit) io" where
  "send_line sockfd k =
     bnd (call (CFgets MAXLINE)) (\<lambda>l.
     if rv l = 0 then leave ()
     else
       (let sendline = cstr (dat l) in
        bnd (c_sendto sockfd sendline (int (length sendline)) serv_addr) (\<lambda>_. k)))"

text \<open>\<open>recvline[n] = 0\<close> and \<open>fputs\<close>.\<close>

definition show_answer :: "reply \<Rightarrow> (unit + unit) io" where
  "show_answer r =
     put_NUL (dat r @ replicate (MAXLINE + 1 - length (dat r)) NUL) (rv r) (\<lambda>recvline.
     thn (print_array [] recvline []) (go ()))"

definition plain_client_round :: "int \<Rightarrow> unit \<Rightarrow> (unit + unit) io" where
  "plain_client_round sockfd u = send_line sockfd (bnd (c_recvfrom sockfd MAXLINE) show_answer)"

definition alarm_client_round :: "int \<Rightarrow> unit \<Rightarrow> (unit + unit) io" where
  "alarm_client_round sockfd u =
     send_line sockfd (
     thn (act (ASys ''alarm'' [5])) (
     bnd (c_recvfrom sockfd MAXLINE) (\<lambda>r.
     if rv r < 0 then alarm_failure (go ())
     else thn (act (ASys ''alarm'' [0])) (show_answer r))))"

definition select_client_round :: "int \<Rightarrow> unit \<Rightarrow> (unit + unit) io" where
  "select_client_round sockfd u =
     send_line sockfd (
     bnd (readable_timeout sockfd 5) (\<lambda>rc.
     if rc = 0 then thn (c_eprint (''socket timeout'' @ [LF])) (go ())
     else bnd (c_recvfrom sockfd MAXLINE) show_answer))"

definition sockopt_client_round :: "int \<Rightarrow> unit \<Rightarrow> (unit + unit) io" where
  "sockopt_client_round sockfd u =
     send_line sockfd (
     bnd (c_recvfrom sockfd MAXLINE) (\<lambda>r.
     if rv r < 0 then thn (c_eprint (''socket timeout'' @ [LF])) (go ()) else show_answer r))"

definition plain_echo_client :: "int \<Rightarrow> unit io" where
  "plain_echo_client sockfd = repeat_io (plain_client_round sockfd) ()"

definition alarm_echo_client :: "int \<Rightarrow> unit io" where
  "alarm_echo_client sockfd =
     seqs [act (ASys ''signal'' [SIGALRM]), act (ASys ''siginterrupt'' [SIGALRM, 1])]
       (repeat_io (alarm_client_round sockfd) ())"

definition act_echo_client :: "int \<Rightarrow> unit io" where
  "act_echo_client sockfd =
     install_handler ''sgiaction get'' ''sgiaction get'' (repeat_io (alarm_client_round sockfd) ())"

definition select_echo_client :: "int \<Rightarrow> unit io" where
  "select_echo_client sockfd = repeat_io (select_client_round sockfd) ()"

definition sockopt_echo_client :: "int \<Rightarrow> unit io" where
  "sockopt_echo_client sockfd = set_rcvtimeo sockfd 4 (repeat_io (sockopt_client_round sockfd) ())"

definition udp_client_main :: "(int \<Rightarrow> unit io) \<Rightarrow> int io" where
  "udp_client_main echo_client =
     bnd (sysi (CSys ''inet_pton 127.0.0.1'' [AF_INET])) (\<lambda>rc.
     if rc \<le> 0 then thn (c_print ([LF] @ ''Invalid address/ Address not supported '' @ [LF])) (ret (-1))
     else
       bnd (sysi (CSocket AF_INET SOCK_DGRAM 0)) (\<lambda>sockfd.
       if sockfd < 0 then thn (c_print ([LF] @ '' Socket creation error '' @ [LF])) (ret (-1))
       else
         seqs [c_print (''The UDP client is on.'' @ [LF]), echo_client sockfd] (c_exit 0)))"

definition plain_client :: "int io" where "plain_client = udp_client_main plain_echo_client"
definition alarm_client :: "int io" where "alarm_client = udp_client_main alarm_echo_client"
definition act_client :: "int io" where "act_client = udp_client_main act_echo_client"
definition select_client :: "int io" where "select_client = udp_client_main select_echo_client"
definition sockopt_client :: "int io" where "sockopt_client = udp_client_main sockopt_echo_client"

section \<open>The contract of a server\<close>

text \<open>
  How the echo loop of a server can be left: it waits in a call, or it stops in a way \<open>bad\<close>
  allows.  Every datagram received so far went back to its sender, unchanged and in order; the
  last one may still be on its way.
\<close>

definition echo_end :: "(stop \<Rightarrow> bool) \<Rightarrow> int \<Rightarrow> stop \<Rightarrow> entry list \<Rightarrow> bool" where
  "echo_end bad fd s t \<longleftrightarrow>
     (blocked s \<or> bad s) \<and>
     (\<exists>ds. datagrams_in fd t = datagrams_out fd t @ ds \<and> length ds \<le> 1)"

locale echo_server =
  fixes round :: "int \<Rightarrow> unit \<Rightarrow> (unit + int) io" and bad :: "stop \<Rightarrow> bool"
  assumes calls: "calls_each_round (round fd)"
    and echoes: "wpt (round fd u)
      (\<lambda>x t. x = Inl () \<and> datagrams_in fd t = datagrams_out fd t) (echo_end bad fd) []"
begin

lemma serves: "wpt (repeat_io (round fd) ()) (\<lambda>_ _. False) (echo_end bad fd) []"
proof (rule wpt_repeat [where I = "\<lambda>_ t. datagrams_in fd t = datagrams_out fd t", OF calls])
  fix s t assume "datagrams_in fd t = datagrams_out fd t"
  then show "wpt (round fd s) (\<lambda>x t'. case x of Inr b \<Rightarrow> False
      | Inl s' \<Rightarrow> datagrams_in fd t' = datagrams_out fd t') (echo_end bad fd) t"
    by (intro wpt_frame [OF echoes]) (auto simp: echo_end_def)
qed simp

end

lemma echo_end_simps [simp]:
  "echo_end bad fd (Blocked c) [] = True"
  "echo_end bad fd (Blocked c) t \<longleftrightarrow> (\<exists>ds. datagrams_in fd t = datagrams_out fd t @ ds \<and> length ds \<le> 1)"
  by (simp_all add: echo_end_def)

text \<open>The array after \<open>n\<close> bytes were received and \<open>[n]\<close> was set to 0.\<close>

lemma received_text:
  assumes "length d \<le> MAXLINE"
  shows "cstr ((d @ replicate (MAXLINE + 1 - length d) NUL)[length d := NUL]) = cstr d"
    "NUL \<in> set ((d @ replicate (MAXLINE + 1 - length d) NUL)[length d := NUL])"
proof -
  let ?buf = "d @ replicate (MAXLINE + 1 - length d) NUL"
  have "overwrite d ?buf = ?buf" by (simp add: overwrite_def)
  then show "cstr (?buf [length d := NUL]) = cstr d"
    using cstr_put_NUL [of d ?buf] assms by simp
  show "NUL \<in> set (?buf [length d := NUL])"
    using assms by (intro set_update_memI) simp
qed

text \<open>Sending back: the datagram just received leaves unchanged, whatever follows.\<close>

lemma wpt_echo_back:
  assumes "rv r = int (length (dat r))" "length (dat r) \<le> MAXLINE"
    and "\<And>r'. wpt k Q E (t @ [Sys (CSendto fd (dat r) (src_addr r)) r',
      Act (AOut (''Received and sent: '' @ cstr (dat r) @ [LF]))])"
    and "\<And>c. E (Blocked c) t"
  shows "wpt (echo_back fd r k) Q E t"
proof -
  note shown = received_text [OF assms(2)]
  show ?thesis
    unfolding echo_back_def
    by (intro wpt_bnd wpt_sendto wpt_put_NUL wpt_thn wpt_print_array) (use assms shown in auto)
qed

lemma wpt_echo_back_failed:
  assumes "rv r = -1" "dat r = []" "\<And>r'. E (Fault ''store outside an array'') (t @ [Sys (CSendtoBad fd) r'])"
    "\<And>c. E (Blocked c) t"
  shows "wpt (echo_back fd r k) Q E t"
  unfolding echo_back_def
  by (intro wpt_bnd wpt_sendto wpt_put_NUL) (use assms in auto)

lemma shrinks_echo_back: "shrinks k \<Longrightarrow> shrinks (echo_back fd r k)"
  unfolding echo_back_def by (auto intro!: shrinks_intros shrinks_datagrams shrinks_arrays)

lemma wpt_alarm_failure:
  "(\<And>m. wpt k Q E (t @ [Act (AErr m)])) \<Longrightarrow> (\<And>m e. wpt k Q E (t @ [Act (APerror m e)])) \<Longrightarrow>
   wpt (alarm_failure k) Q E t"
  unfolding alarm_failure_def by (auto intro!: wpt_intros)

lemma shrinks_alarm_failure: "shrinks k \<Longrightarrow> shrinks (alarm_failure k)"
  unfolding alarm_failure_def by (auto intro!: shrinks_intros)

lemmas echo_shrinks = shrinks_intros shrinks_echo_back shrinks_alarm_failure shrinks_datagrams

lemmas echo_intros =
  wpt_intros wpt_recvfrom wpt_echo_back wpt_echo_back_failed wpt_alarm_failure

section \<open>The servers keep the contract\<close>

interpretation plain: echo_server plain_echo_round faulted
proof (unfold_locales)
  fix fd u
  show "calls_each_round (plain_echo_round fd)"
    unfolding plain_echo_round_def c_recvfrom_def by (intro calls_first echo_shrinks)
  show "wpt (plain_echo_round fd u) (\<lambda>x t. x = Inl () \<and> datagrams_in fd t = datagrams_out fd t)
      (echo_end faulted fd) []"
    unfolding plain_echo_round_def
    by (intro echo_intros; simp add: echo_end_def) 
qed

interpretation alarm: echo_server alarm_echo_round "\<lambda>_. False"
proof (unfold_locales)
  fix fd u
  show "calls_each_round (alarm_echo_round fd)"
    unfolding alarm_echo_round_def c_recvfrom_def
    by (intro calls_after_act calls_first echo_shrinks)
  show "wpt (alarm_echo_round fd u) (\<lambda>x t. x = Inl () \<and> datagrams_in fd t = datagrams_out fd t)
      (echo_end (\<lambda>_. False) fd) []"
    unfolding alarm_echo_round_def
    by (intro echo_intros; simp add: echo_end_def)
qed

interpretation select: echo_server select_echo_round faulted
proof (unfold_locales)
  fix fd u
  show "calls_each_round (select_echo_round fd)"
    unfolding select_echo_round_def readable_timeout_def sysi_def bnd_assoc
    by (intro calls_first echo_shrinks)
  show "wpt (select_echo_round fd u) (\<lambda>x t. x = Inl () \<and> datagrams_in fd t = datagrams_out fd t)
      (echo_end faulted fd) []"
    unfolding select_echo_round_def readable_timeout_def
    by (intro echo_intros; simp add: echo_end_def)
qed

interpretation sockopt: echo_server sockopt_echo_round "\<lambda>_. False"
proof (unfold_locales)
  fix fd u
  show "calls_each_round (sockopt_echo_round fd)"
    unfolding sockopt_echo_round_def c_recvfrom_def by (intro calls_first echo_shrinks)
  show "wpt (sockopt_echo_round fd u) (\<lambda>x t. x = Inl () \<and> datagrams_in fd t = datagrams_out fd t)
      (echo_end (\<lambda>_. False) fd) []"
    unfolding sockopt_echo_round_def
    by (intro echo_intros; simp add: echo_end_def)
qed

text \<open>The echo functions with their preparations, which exit with status 1 when they fail.\<close>

lemma echo_end_after:
  "datagrams_in fd t = [] \<Longrightarrow> datagrams_out fd t = [] \<Longrightarrow> echo_end bad fd s u \<Longrightarrow>
   (\<And>s. bad s \<Longrightarrow> bad' s) \<Longrightarrow> echo_end bad' fd s (t @ u)"
  by (auto simp: echo_end_def)

lemma plain_law: "wpt (plain_udp_echo fd) (\<lambda>_ _. False) (echo_end faulted fd) []"
  unfolding plain_udp_echo_def by (rule plain.serves)

lemma alarm_law: "wpt (alarm_udp_echo fd) (\<lambda>_ _. False) (echo_end (\<lambda>_. False) fd) []"
  unfolding alarm_udp_echo_def
  by (auto intro!: wpt_intros wpt_frame [OF alarm.serves] echo_end_after)

text \<open>A trace that goes on without datagrams, lines or output.\<close>

definition silently :: "int \<Rightarrow> entry list \<Rightarrow> entry list \<Rightarrow> bool" where
  "silently fd t t' \<longleftrightarrow>
     (\<exists>u. t' = t @ u \<and> datagrams_in fd u = [] \<and> datagrams_out fd u = [] \<and> lines_in u = [] \<and> printed u = [])"

lemma wpt_install_handler:
  assumes "\<And>t'. silently fd t t' \<Longrightarrow> wpt k Q E t'" "\<And>t' c. silently fd t t' \<Longrightarrow> E (Blocked c) t'"
    "\<And>t'. silently fd t t' \<Longrightarrow> E (Exited 1) t'"
  shows "wpt (install_handler m n k) Q E t"
  unfolding install_handler_def
  by (intro wpt_intros assms) (simp_all add: silently_def)

lemma wpt_set_rcvtimeo:
  assumes "\<And>t'. silently fd t t' \<Longrightarrow> wpt k Q E t'" "\<And>t' c. silently fd t t' \<Longrightarrow> E (Blocked c) t'"
    "\<And>t'. silently fd t t' \<Longrightarrow> E (Exited 1) t'"
  shows "wpt (set_rcvtimeo g sec k) Q E t"
  unfolding set_rcvtimeo_def EXIT_FAILURE_def seqs_simps
  by (intro wpt_intros assms) (simp_all add: silently_def)

lemma act_law: "wpt (act_udp_echo fd) (\<lambda>_ _. False) (echo_end exits_1 fd) []"
  unfolding act_udp_echo_def
  by (rule wpt_install_handler [of fd])
    (auto simp: silently_def echo_end_def intro!: wpt_frame [OF alarm.serves])

lemma select_law: "wpt (select_udp_echo fd) (\<lambda>_ _. False) (echo_end faulted fd) []"
  unfolding select_udp_echo_def by (rule select.serves)

lemma sockopt_law: "wpt (sockopt_udp_echo fd) (\<lambda>_ _. False) (echo_end exits_1 fd) []"
  unfolding sockopt_udp_echo_def
  by (rule wpt_set_rcvtimeo [of fd])
    (auto simp: silently_def echo_end_def intro!: wpt_frame [OF sockopt.serves])

text \<open>A server as a whole: it is stuck before it has a socket, or it serves on that socket.\<close>

definition server_end :: "(stop \<Rightarrow> bool) \<Rightarrow> stop \<Rightarrow> entry list \<Rightarrow> bool" where
  "server_end bad s t \<longleftrightarrow>
     (blocked s \<and> t = []) \<or>
     (\<exists>r u. t = Sys (CSocket AF_INET SOCK_DGRAM 0) r # u \<and> echo_end bad (rv r) s u)"

definition echoes_forever :: "(stop \<Rightarrow> bool) \<Rightarrow> int io \<Rightarrow> bool" where
  "echoes_forever bad server \<longleftrightarrow>
     (\<forall>w. case server w of
        Ret _ _ \<Rightarrow> False
      | Stop s w' \<Rightarrow> \<exists>t. trace w' = trace w @ t \<and> server_end bad s t)"

lemma udp_server_law:
  assumes "\<And>fd. wpt (udp_echo fd) (\<lambda>_ _. False) (echo_end bad fd) []"
  shows "echoes_forever bad (udp_server_main udp_echo)"
proof -
  let ?m = "udp_server_main udp_echo"
  have "wpt ?m (\<lambda>_ _. False) (server_end bad) []"
    unfolding udp_server_main_def
    by (auto intro!: wpt_intros wpt_frame [OF assms] simp: server_end_def) (auto simp: echo_end_def)
  from wpt_case [OF this] show ?thesis
    unfolding echoes_forever_def by (simp only: ex_simps simp_thms split: result.split_asm result.split)
qed

section \<open>The contract of a client\<close>

text \<open>
  Every line read was sent to the server, and every answer was printed, both in order; there are
  no more answers than lines.
\<close>

definition client_inv :: "int \<Rightarrow> entry list \<Rightarrow> bool" where
  "client_inv fd t \<longleftrightarrow>
     datagrams_out fd t = map (\<lambda>l. (l, serv_addr)) (lines_in t) \<and>
     printed t = map (\<lambda>(d, a). cstr d) (datagrams_in fd t) \<and>
     length (datagrams_in fd t) \<le> length (lines_in t)"

text \<open>When the client is stuck, the last line may still be on its way.\<close>

definition client_end :: "(stop \<Rightarrow> bool) \<Rightarrow> int \<Rightarrow> stop \<Rightarrow> entry list \<Rightarrow> bool" where
  "client_end bad fd s t \<longleftrightarrow>
     (blocked s \<or> bad s) \<and>
     (\<exists>ls. map (\<lambda>l. (l, serv_addr)) (lines_in t) = datagrams_out fd t @ ls \<and> length ls \<le> 1) \<and>
     printed t = map (\<lambda>(d, a). cstr d) (datagrams_in fd t) \<and>
     length (datagrams_in fd t) \<le> length (lines_in t)"

locale echo_client =
  fixes round :: "int \<Rightarrow> unit \<Rightarrow> (unit + unit) io" and bad :: "stop \<Rightarrow> bool"
  assumes calls: "calls_each_round (round fd)"
    and sends: "wpt (round fd u) (\<lambda>x t. client_inv fd t) (client_end bad fd) []"
begin

lemma runs: "wpt (repeat_io (round fd) ()) (\<lambda>_. client_inv fd) (client_end bad fd) []"
proof (rule wpt_repeat [where I = "\<lambda>_. client_inv fd", OF calls])
  fix s t assume "client_inv fd t"
  then show "wpt (round fd s) (\<lambda>x t'. case x of Inr b \<Rightarrow> client_inv fd t'
      | Inl s' \<Rightarrow> client_inv fd t') (client_end bad fd) t"
    by (intro wpt_frame [OF sends]) (auto simp: client_inv_def client_end_def split: sum.split)
qed (simp add: client_inv_def)

end

lemma wpt_send_line:
  assumes "\<And>r. rv r = 0 \<Longrightarrow> Q (Inr ()) (t @ [Sys (CFgets MAXLINE) r])"
    and "\<And>r r'. rv r \<noteq> 0 \<Longrightarrow> wpt k Q E (t @ [Sys (CFgets MAXLINE) r, Sys (CSendto fd (cstr (dat r)) serv_addr) r'])"
    and "\<And>c r. rv r \<noteq> 0 \<Longrightarrow> E (Blocked c) (t @ [Sys (CFgets MAXLINE) r])"
    and "\<And>c. E (Blocked c) t"
  shows "wpt (send_line fd k) Q E t"
  unfolding send_line_def Let_def
  by (intro wpt_intros wpt_sendto) (use assms in auto)

lemma wpt_show_answer:
  assumes "rv r = int (length (dat r))" "length (dat r) \<le> MAXLINE"
    and "Q (Inl ()) (t @ [Act (AOut (cstr (dat r)))])"
  shows "wpt (show_answer r) Q E t"
proof -
  note shown = received_text [OF assms(2)]
  show ?thesis
    unfolding show_answer_def
    by (intro wpt_put_NUL wpt_thn wpt_print_array wpt_prims) (use assms shown in auto)
qed

lemma wpt_show_answer_failed:
  "rv r = -1 \<Longrightarrow> dat r = [] \<Longrightarrow> E (Fault ''store outside an array'') t \<Longrightarrow> wpt (show_answer r) Q E t"
  unfolding show_answer_def by (intro wpt_put_NUL) auto

lemma shrinks_show_answer: "shrinks (show_answer r)"
  unfolding show_answer_def by (auto intro!: shrinks_intros shrinks_arrays)

lemmas client_shrinks = echo_shrinks shrinks_show_answer

lemma send_line_calls: "shrinks k \<Longrightarrow> calls_each_round (\<lambda>s. send_line fd k)"
  unfolding send_line_def by (intro calls_first) (auto simp: Let_def intro!: client_shrinks)

lemmas client_intros =
  wpt_intros wpt_send_line wpt_recvfrom wpt_show_answer wpt_show_answer_failed wpt_alarm_failure

section \<open>The clients keep the contract\<close>

interpretation plain_client: echo_client plain_client_round faulted
proof (unfold_locales)
  fix fd u
  show "calls_each_round (plain_client_round fd)"
    unfolding plain_client_round_def by (intro send_line_calls client_shrinks)
  show "wpt (plain_client_round fd u) (\<lambda>x t. client_inv fd t) (client_end faulted fd) []"
    unfolding plain_client_round_def
    by (intro client_intros; simp add: client_inv_def client_end_def)
qed

interpretation alarm_client: echo_client alarm_client_round "\<lambda>_. False"
proof (unfold_locales)
  fix fd u
  show "calls_each_round (alarm_client_round fd)"
    unfolding alarm_client_round_def by (intro send_line_calls client_shrinks)
  show "wpt (alarm_client_round fd u) (\<lambda>x t. client_inv fd t) (client_end (\<lambda>_. False) fd) []"
    unfolding alarm_client_round_def
    by (intro client_intros; simp add: client_inv_def client_end_def)
qed

interpretation select_client: echo_client select_client_round faulted
proof (unfold_locales)
  fix fd u
  show "calls_each_round (select_client_round fd)"
    unfolding select_client_round_def readable_timeout_def by (intro send_line_calls client_shrinks)
  show "wpt (select_client_round fd u) (\<lambda>x t. client_inv fd t) (client_end faulted fd) []"
    unfolding select_client_round_def readable_timeout_def
    by (intro client_intros; simp add: client_inv_def client_end_def)
qed

interpretation sockopt_client: echo_client sockopt_client_round "\<lambda>_. False"
proof (unfold_locales)
  fix fd u
  show "calls_each_round (sockopt_client_round fd)"
    unfolding sockopt_client_round_def by (intro send_line_calls client_shrinks)
  show "wpt (sockopt_client_round fd u) (\<lambda>x t. client_inv fd t) (client_end (\<lambda>_. False) fd) []"
    unfolding sockopt_client_round_def
    by (intro client_intros; simp add: client_inv_def client_end_def)
qed

text \<open>The client functions with their preparations.\<close>

lemma client_inv_after: "silently fd [] t \<Longrightarrow> client_inv fd u \<Longrightarrow> client_inv fd (t @ u)"
  by (auto simp: client_inv_def silently_def)

lemma client_end_after:
  "silently fd [] t \<Longrightarrow> client_end bad fd s u \<Longrightarrow> (\<And>s. bad s \<Longrightarrow> bad' s) \<Longrightarrow> client_end bad' fd s (t @ u)"
  by (auto simp: client_end_def silently_def)

lemmas client_frames = wpt_frame [OF alarm_client.runs] wpt_frame [OF sockopt_client.runs]

lemma client_functions:
  "wpt (plain_echo_client fd) (\<lambda>_. client_inv fd) (client_end faulted fd) []"
  "wpt (alarm_echo_client fd) (\<lambda>_. client_inv fd) (client_end (\<lambda>_. False) fd) []"
  "wpt (act_echo_client fd) (\<lambda>_. client_inv fd) (client_end exits_1 fd) []"
  "wpt (select_echo_client fd) (\<lambda>_. client_inv fd) (client_end faulted fd) []"
  "wpt (sockopt_echo_client fd) (\<lambda>_. client_inv fd) (client_end exits_1 fd) []"
proof -
  show "wpt (plain_echo_client fd) (\<lambda>_. client_inv fd) (client_end faulted fd) []"
    unfolding plain_echo_client_def by (rule plain_client.runs)
  show "wpt (select_echo_client fd) (\<lambda>_. client_inv fd) (client_end faulted fd) []"
    unfolding select_echo_client_def by (rule select_client.runs)
  show "wpt (alarm_echo_client fd) (\<lambda>_. client_inv fd) (client_end (\<lambda>_. False) fd) []"
    unfolding alarm_echo_client_def seqs_simps
    by (intro wpt_intros client_frames) (auto simp: client_inv_def client_end_def)
  show "wpt (act_echo_client fd) (\<lambda>_. client_inv fd) (client_end exits_1 fd) []"
    unfolding act_echo_client_def
    by (intro wpt_install_handler [of fd] client_frames)
      (auto simp: silently_def client_inv_def client_end_def)
  show "wpt (sockopt_echo_client fd) (\<lambda>_. client_inv fd) (client_end exits_1 fd) []"
    unfolding sockopt_echo_client_def
    by (intro wpt_set_rcvtimeo [of fd] client_frames)
      (auto simp: silently_def client_inv_def client_end_def)
qed

text \<open>
  A client as a whole: it gives up with -1 before the first line, it exits with 0 after the last
  line was sent, or it is stuck or stops badly on the way.
\<close>

definition client_stop :: "(stop \<Rightarrow> bool) \<Rightarrow> stop \<Rightarrow> entry list \<Rightarrow> bool" where
  "client_stop bad s t \<longleftrightarrow>
     (blocked s \<and> lines_in t = []) \<or>
     (\<exists>q r u. t = [q, Sys (CSocket AF_INET SOCK_DGRAM 0) r, Act (AOut (''The UDP client is on.'' @ [LF]))] @ u \<and>
        (if s = Exited 0 then client_inv (rv r) u else client_end bad (rv r) s u))"

definition client_ends :: "(stop \<Rightarrow> bool) \<Rightarrow> int io \<Rightarrow> bool" where
  "client_ends bad client \<longleftrightarrow>
     (\<forall>w. case client w of
        Ret n w' \<Rightarrow> \<exists>t. trace w' = trace w @ t \<and> n = -1 \<and> lines_in t = []
      | Stop s w' \<Rightarrow> \<exists>t. trace w' = trace w @ t \<and> client_stop bad s t)"

lemma udp_client_law:
  assumes "\<And>fd. wpt (client fd) (\<lambda>_. client_inv fd) (client_end bad fd) []" "\<not> bad (Exited 0)"
  shows "client_ends bad (udp_client_main client)"
proof -
  have "wpt (udp_client_main client) (\<lambda>n t. n = -1 \<and> lines_in t = []) (client_stop bad) []"
    unfolding udp_client_main_def seqs_simps
    by (intro wpt_intros wpt_frame [OF assms(1)]) (use assms(2) in \<open>auto simp: client_stop_def client_end_def\<close>)
  from wpt_case [OF this] show ?thesis
    unfolding client_ends_def by blast
qed

section \<open>Properties\<close>

text \<open>
  C23. Each of the five servers never returns: it goes on for ever, waiting in a call at the end of
  every finite script of replies, and every datagram it has received went back to its sender,
  unchanged and in order.  The plain server and the one with \<open>select\<close> can also end at undefined
  behaviour, those with \<open>sigaction\<close> and with the socket option by \<open>exit(1)\<close> when the preparation
  fails.
\<close>

theorem udp_servers_echo:
  "echoes_forever faulted plain_server \<and> echoes_forever (\<lambda>_. False) alarm_server \<and>
   echoes_forever exits_1 act_server \<and> echoes_forever faulted select_server \<and>
   echoes_forever exits_1 sockopt_server"
  unfolding plain_server_def alarm_server_def act_server_def select_server_def sockopt_server_def
  by (intro conjI udp_server_law plain_law alarm_law act_law select_law sockopt_law)

text \<open>
  Each of the five clients sends every line of standard input to the server and prints every
  answer, both in order, and prints nothing else; it exits with 0 only at the end of the input,
  and returns -1 before the first line only.  The plain client and the one with \<open>select\<close> can also
  end at undefined behaviour.
\<close>

theorem udp_clients_send_and_print:
  "client_ends faulted plain_client \<and> client_ends (\<lambda>_. False) alarm_client \<and>
   client_ends exits_1 act_client \<and> client_ends faulted select_client \<and>
   client_ends exits_1 sockopt_client"
  unfolding plain_client_def alarm_client_def act_client_def select_client_def sockopt_client_def
  by (intro conjI udp_client_law client_functions) simp_all

text \<open>
  A \<open>recvfrom\<close> that fails makes the plain server store before the start of its array; the
  server with an alarm reports a timeout (when a signal interrupted the call) or the error, sends
  nothing, and goes on.
\<close>

theorem udp_receive_failure:
  assumes "script w = failed e # r # rs"
  shows "stops_as (plain_udp_echo fd w) (Fault ''store outside an array'') \<and>
    (\<exists>w'. alarm_echo_round fd () w = Ret (Inl ()) w' \<and> script w' = r # rs \<and>
       datagrams_out fd (trace w') = datagrams_out fd (trace w) \<and>
       last (trace w') =
         Act (if e = EINTR then AErr (''socket timeout'' @ [LF]) else APerror ''recvfrom error'' e))"
proof (intro conjI)
  show "stops_as (plain_udp_echo fd w) (Fault ''store outside an array'')"
    using assms by (simp add: plain_udp_echo_def plain_echo_round_def echo_back_def eval_simps)
  show "\<exists>w'. alarm_echo_round fd () w = Ret (Inl ()) w' \<and> script w' = r # rs \<and>
       datagrams_out fd (trace w') = datagrams_out fd (trace w) \<and>
       last (trace w') =
         Act (if e = EINTR then AErr (''socket timeout'' @ [LF]) else APerror ''recvfrom error'' e)"
    using assms by (simp add: alarm_echo_round_def alarm_failure_def eval_simps)
qed

theorem udp_receive_failure_witness:
  "stops_as (plain_udp_echo 3 (world0 [failed 4, took 0])) (Fault ''store outside an array'')"
  using udp_receive_failure [of "world0 [failed 4, took 0]" 4 "took 0" "[]" 3]
  by (simp add: world0_def)

end
