(* ===== verification/Tcp_Hello.thy ===== *)
theory Tcp_Hello
  imports Sockets
begin

text \<open>
  The TCP clients and servers of the lectures that exchange a greeting: \<^verbatim>\<open>Lecture5/hellomsg\<close>,
  \<^verbatim>\<open>morehello\<close>, \<^verbatim>\<open>v6hello\<close>, \<^verbatim>\<open>Lecture4/hellomsg copy\<close>, and of \<^verbatim>\<open>Lecture6\<close> \<^verbatim>\<open>hellofromserver\<close> (the
  client), \<^verbatim>\<open>requestfromclient\<close>, \<^verbatim>\<open>multipleclient\<close>, \<^verbatim>\<open>getaddrinfo\<close> and \<^verbatim>\<open>webserver\<close>.

  The reply to \<open>accept\<close> carries the bytes of the peer's \<open>sockaddr\<close> (family, port, address); the
  reply to \<open>inet_pton\<close> and \<open>inet_ntop\<close> what they store.  A return from \<open>main\<close> is \<open>Ret\<close> of the
  status; it closes every descriptor, which the trace does not show.
\<close>

definition AF_INET6 :: int where "AF_INET6 = 10"
definition AF_UNSPEC :: int where "AF_UNSPEC = 0"
definition TCP_PORT :: int where "TCP_PORT = 8080"
definition MORE_PORT :: int where "MORE_PORT = 9000"

section \<open>Parts the programs share word for word\<close>

text \<open>A line of output.\<close>

definition say :: "string \<Rightarrow> unit io" where
  "say s = c_print (s @ [LF])"

definition die :: "string \<Rightarrow> 'a io" where
  "die msg = thn (c_perror msg) (c_exit EXIT_FAILURE)"

text \<open>The socket of a server, bound to a port of every local address, and listening.\<close>

definition listen_on :: "int \<Rightarrow> int \<Rightarrow> (int \<Rightarrow> 'a io) \<Rightarrow> 'a io" where
  "listen_on family port k =
     bnd (sysi (CSocket family SOCK_STREAM 0)) (\<lambda>server_fd.
     if server_fd < 0 then die ''socket failed''
     else
       bnd (sysi (CBind server_fd (htons port))) (\<lambda>rc.
       if rc < 0 then die ''bind failed''
       else
         bnd (sysi (CListen server_fd 1024)) (\<lambda>rc.
         if rc < 0 then die ''listen'' else k server_fd)))"

definition accept_from :: "int \<Rightarrow> (int \<Rightarrow> bytes \<Rightarrow> 'a io) \<Rightarrow> 'a io" where
  "accept_from server_fd k =
     bnd (call (CAccept server_fd)) (\<lambda>acc.
     if rv acc < 0 then die ''accept'' else k (rv acc) (dat acc))"

text \<open>
  The bytes of a \<open>sockaddr_in\<close> (or of a \<open>sockaddr_in6\<close>, with its flow and scope numbers) for a port
  and an address, and the port of one.
\<close>

definition sockaddr_in :: "int \<Rightarrow> int \<Rightarrow> bytes \<Rightarrow> bytes" where
  "sockaddr_in family port addr =
     map (\<lambda>i. char_of (nat i)) [family, 0, htons port div 256, htons port mod 256] @
     (if family = AF_INET6 then replicate 4 NUL @ addr @ replicate 4 NUL else addr @ replicate 8 NUL)"

definition sin_port :: "bytes \<Rightarrow> int" where
  "sin_port a = foldl (\<lambda>p c. 256 * p + of_char c) 0 (take 2 (drop 2 a))"

text \<open>The socket of a client.\<close>

definition client_socket :: "int \<Rightarrow> (int \<Rightarrow> int io) \<Rightarrow> int io" where
  "client_socket family k =
     bnd (sysi (CSocket family SOCK_STREAM 0)) (\<lambda>sock.
     if sock < 0 then thn (say ([LF] @ '' Socket creation error '')) (ret (-1)) else k sock)"

definition text_address :: "int \<Rightarrow> string \<Rightarrow> int \<Rightarrow> (bytes \<Rightarrow> int io) \<Rightarrow> int io" where
  "text_address family ip port k =
     bnd (call (CSys (''inet_pton '' @ ip) [family])) (\<lambda>r.
     if rv r \<le> 0 then thn (say ([LF] @ ''Invalid address/ Address not supported '')) (ret (-1))
     else k (sockaddr_in family port (dat r)))"

definition connect_to :: "int \<Rightarrow> bytes \<Rightarrow> string \<Rightarrow> int io \<Rightarrow> int io" where
  "connect_to sock addr complaint k =
     bnd (sysi (CConnect sock addr)) (\<lambda>rc.
     if rc < 0 then thn (say ([LF] @ complaint)) (ret (-1)) else k)"

definition send_text :: "int \<Rightarrow> string \<Rightarrow> unit io" where
  "send_text fd msg = bnd (c_write fd msg (int (length msg))) (\<lambda>_. ret ())"

text \<open>\<open>read(fd, buffer, 1024)\<close> into an array of 1024 bytes.\<close>

definition read_into :: "int \<Rightarrow> bytes \<Rightarrow> (int \<Rightarrow> bytes \<Rightarrow> 'a io) \<Rightarrow> 'a io" where
  "read_into fd buffer k = bnd (c_read fd 1024) (\<lambda>(valread, d). k valread (overwrite d buffer))"

definition zeros :: bytes where "zeros = replicate 1024 NUL"

section \<open>Servers for one client\<close>

text \<open>\<^verbatim>\<open>Lecture5/hellomsg/server.c\<close> and \<^verbatim>\<open>Lecture5/v6hello/server.c\<close> from \<open>accept\<close> on.\<close>

definition greet_peer :: "int \<Rightarrow> string \<Rightarrow> string \<Rightarrow> int \<Rightarrow> int io" where
  "greet_peer family hello report server_fd =
     accept_from server_fd (\<lambda>new_socket cliaddr.
     read_into new_socket zeros (\<lambda>valread buffer.
     bnd (call (CSys ''inet_ntop'' [family, 16])) (\<lambda>r.
     if rv r = 0 then die ''inet_ntop error''
     else
       (let ip_str = cstr (dat r); port = show_int (sin_port cliaddr) in
        seqs
          [print_array [] buffer ('' ('' @ ip_str @ '':'' @ port @ '')'' @ [LF]),
           send_text new_socket hello,
           say (report @ '' ('' @ ip_str @ '':'' @ port @ '')'')]
          (ret 0)))))"

definition hellomsg_server :: "int io" where
  "hellomsg_server =
     listen_on AF_INET TCP_PORT (greet_peer AF_INET ''Hello from server'' ''Hello message sent to'')"

definition v6hello_server :: "int io" where
  "v6hello_server =
     listen_on AF_INET6 TCP_PORT (\<lambda>server_fd.
     thn (say ''listen on [::]:8080'')
       (greet_peer AF_INET6 ''Hello from IPv6 server'' ''Server hello message sent to'' server_fd))"

text \<open>\<^verbatim>\<open>Lecture4/hellomsg copy/server.c\<close> writes as many bytes as the client sent.\<close>

definition hellomsg_copy_server :: "int io" where
  "hellomsg_copy_server =
     bnd (sysi (CSocket AF_INET SOCK_STREAM 0)) (\<lambda>serverfd.
     if serverfd < 0 then die ''socket failure''
     else
       bnd (sysi (CBind serverfd (htons TCP_PORT))) (\<lambda>rc.
       if rc < 0 then die ''bind failure''
       else
         bnd (sysi (CListen serverfd 1024)) (\<lambda>rc.
         if rc < 0 then die ''listen failure''
         else
           bnd (call (CAccept serverfd)) (\<lambda>acc.
           if rv acc < 0 then die ''accept failure''
           else
             read_into (rv acc) zeros (\<lambda>valread buffer.
             thn (print_array [] buffer [LF]) (
             bnd (c_write (rv acc) (''Hello from server'' @ [NUL]) (int (length (cstr buffer)))) (\<lambda>_.
             thn (say ''Hello message sent.'') (ret 0))))))))"

definition request_server :: "int io" where
  "request_server =
     listen_on AF_INET TCP_PORT (\<lambda>server_fd.
     accept_from server_fd (\<lambda>new_socket cliaddr.
     read_into new_socket zeros (\<lambda>valread buffer.
     seqs [print_array [] buffer [LF], send_text new_socket ''ACK from server'', say ''ACK message sent'']
       (ret 0))))"

text \<open>\<^verbatim>\<open>Lecture6/getaddrinfo/server.c\<close>; \<open>buf[size] = 0\<close> is inside the array, as \<open>size\<close> is less than 1024.\<close>

definition addrinfo_server :: "string list \<Rightarrow> int io" where
  "addrinfo_server argv =
     (let port = (if length argv > 1 then argv ! 1 else ''http'') in
      bnd (call (CGetaddrinfo [] port)) (\<lambda>status.
      if rv status \<noteq> 0 then thn (c_eprint (''getaddrinfo error: '' @ dat status @ [LF])) (c_exit EXIT_FAILURE)
      else
        bnd (sysi (CSocketAI (dat status))) (\<lambda>listenfd.
        if listenfd < 0 then die ''socket''
        else
          bnd (sysi (CSys ''bind ai_addr'' [listenfd])) (\<lambda>rc.
          if rc < 0 then die ''bind''
          else
            thn (act AFreeaddrinfo) (
            bnd (sysi (CListen listenfd 1024)) (\<lambda>rc.
            if rc < 0 then die ''listen''
            else
              accept_from listenfd (\<lambda>connfd cliaddr.
              bnd (c_read connfd 1023) (\<lambda>(size, d).
              if size < 0 then die ''read''
              else
                put_NUL (overwrite d zeros) size (\<lambda>buf.
                seqs
                  [print_array ''Received: '' buf [LF], say ''Send server message to client'',
                   send_text connfd ''ACK from server'', c_close connfd]
                  (ret 0))))))))))"

section \<open>Servers for one client after the other\<close>

text \<open>The array is not cleared between two clients.\<close>

definition morehello_round :: "int \<Rightarrow> bytes \<Rightarrow> (bytes + int) io" where
  "morehello_round server_fd buf =
     accept_from server_fd (\<lambda>new_socket cliaddr.
     read_into new_socket buf (\<lambda>valread buffer.
     seqs [print_array [] buffer [LF], send_text new_socket ''Hello from C server'', c_close new_socket]
       (go buffer)))"

definition morehello_server :: "string list \<Rightarrow> int io" where
  "morehello_server argv =
     listen_on AF_INET (if length argv > 1 then atoi (argv ! 1) else MORE_PORT) (\<lambda>server_fd.
     repeat_io (morehello_round server_fd) zeros)"

definition multiple_round :: "int \<Rightarrow> bytes \<Rightarrow> (bytes + int) io" where
  "multiple_round server_fd buf =
     accept_from server_fd (\<lambda>new_socket cliaddr.
     read_into new_socket buf (\<lambda>valread buffer.
     seqs
       [print_array [] buffer [LF], send_text new_socket ''Response from server'', say ''Response msg sent'',
        c_close new_socket]
       (go buffer)))"

definition multiple_server :: "int io" where
  "multiple_server =
     listen_on AF_INET TCP_PORT (\<lambda>server_fd. repeat_io (multiple_round server_fd) zeros)"

text \<open>\<open>sizeof(response)\<close> counts the NUL at the end of the text.\<close>

definition http_response :: bytes where
  "http_response =
     ''HTTP/1.1 200 OK'' @ crlf @ ''Content-Type: text/html'' @ crlf @ crlf @
     ''<HTML><BODY>Hello World from EE456!!!</BODY></HTML>'' @ crlf @ [NUL]"

definition err_exit :: "'a io" where
  "err_exit = thn (c_perror ''myserver'') (c_exit 1)"

definition web_round :: "int \<Rightarrow> unit \<Rightarrow> (unit + int) io" where
  "web_round sockfd u =
     bnd (sysi (CAccept sockfd)) (\<lambda>connfd.
     if connfd < 0 then err_exit
     else
       thn (say ''Socket connected'') (
       bnd (c_write connfd http_response (int (length http_response))) (\<lambda>rc.
       if rc < 0 then err_exit
       else seqs [say ''HTTP response sent'', c_close connfd] (go ()))))"

definition webserver :: "int io" where
  "webserver =
     bnd (sysi (CSocket AF_INET SOCK_STREAM 0)) (\<lambda>sockfd.
     if sockfd < 0 then err_exit
     else
       bnd (sysi (CBind sockfd (htons 8080))) (\<lambda>rc.
       if rc < 0 then err_exit
       else
         bnd (sysi (CListen sockfd 1024)) (\<lambda>rc.
         if rc < 0 then err_exit else repeat_io (web_round sockfd) ())))"

section \<open>Clients\<close>

text \<open>
  \<^verbatim>\<open>Lecture5/hellomsg/client.c\<close>, \<^verbatim>\<open>v6hello/client.c\<close> and \<^verbatim>\<open>morehello/client.c\<close>:
  \<open>buffer[valread] = 0\<close> is a store outside the array when the read fails or fills it.
\<close>

definition talk :: "int \<Rightarrow> string \<Rightarrow> string list \<Rightarrow> int io" where
  "talk sock hello notes =
     thn (send_text sock hello) (
     seqs (map say notes) (
     read_into sock zeros (\<lambda>valread b.
     put_NUL b valread (\<lambda>buffer.
     thn (print_array [] buffer [LF]) (ret 0)))))"

definition hellomsg_client :: "string list \<Rightarrow> int io" where
  "hellomsg_client argv =
     (let server_ip = (if length argv > 1 then argv ! 1 else ''127.0.0.1'') in
      client_socket AF_INET (\<lambda>sock.
      text_address AF_INET server_ip TCP_PORT (\<lambda>serv_addr.
      connect_to sock serv_addr ''Connection Failed '' (
      talk sock ''Hello from client'' [''Hello message sent'']))))"

definition v6hello_client :: "string list \<Rightarrow> int io" where
  "v6hello_client argv =
     (let server_ip = (if length argv > 1 then argv ! 1 else ''::1'') in
      client_socket AF_INET6 (\<lambda>sock.
      text_address AF_INET6 server_ip TCP_PORT (\<lambda>serv_addr.
      connect_to sock serv_addr ''Connection Failed '' (
      talk sock ''Hello from IPv6 client'' [''Hello message sent'']))))"

text \<open>The port of the command line is parsed, and not used.\<close>

definition morehello_client :: "string list \<Rightarrow> int io" where
  "morehello_client argv =
     (let server_ip = (if length argv > 1 then argv ! 1 else ''127.0.0.1'');
          port = (if length argv > 2 then atoi (argv ! 2) else MORE_PORT) in
      client_socket AF_INET (\<lambda>sock.
      text_address AF_INET server_ip MORE_PORT (\<lambda>serv_addr.
      connect_to sock serv_addr ''Connection Failed '' (
      talk sock ''Hello from C client'' []))))"

text \<open>The clients of \<^verbatim>\<open>Lecture6\<close> print the array as it is after the read.\<close>

definition ask :: "int \<Rightarrow> string \<Rightarrow> string \<Rightarrow> string \<Rightarrow> int io \<Rightarrow> int io" where
  "ask sock hello note intro k =
     seqs [send_text sock hello, say note] (
     read_into sock zeros (\<lambda>valread buffer.
     thn (print_array intro buffer [LF]) k))"

definition request_client :: "int io" where
  "request_client =
     client_socket AF_INET (\<lambda>sock.
     text_address AF_INET ''127.0.0.1'' TCP_PORT (\<lambda>serv_addr.
     connect_to sock serv_addr ''Connection Failed '' (
     ask sock ''Request from client'' ''Request message sent'' [] (ret 0))))"

definition hellofromserver_client :: "int io" where
  "hellofromserver_client =
     client_socket AF_INET (\<lambda>sock.
     text_address AF_INET ''127.0.0.1'' TCP_PORT (\<lambda>serv_addr.
     connect_to sock serv_addr ''Connection Failed '' (
     read_into sock zeros (\<lambda>valread buffer.
     seqs [print_array [] buffer [LF], send_text sock ''Response from client'', say ''Response message sent'']
       (ret 0)))))"

definition multiple_client :: "int io" where
  "multiple_client =
     client_socket AF_INET (\<lambda>sock1. client_socket AF_INET (\<lambda>sock2.
     text_address AF_INET ''127.0.0.1'' TCP_PORT (\<lambda>serv_addr.
     connect_to sock1 serv_addr ''Connection Failed '' (
     ask sock1 ''Hello from client 1'' ''Hello message sent from client 1'' [] (
     connect_to sock2 serv_addr ''Connection Failed '' (
     ask sock2 ''Hello from client 2'' ''Hello message sent from client 2'' [] (ret 0)))))))"

definition addrinfo_client :: "string list \<Rightarrow> int io" where
  "addrinfo_client argv =
     (let port = (if length argv > 2 then argv ! 2 else ''http'') in
      if length argv < 2 then
        thn (c_eprint (''Usage: '' @ hd argv @ '' <domain name or dotted-decimal> [port]'' @ [LF])) (c_exit 1)
      else
        bnd (call (CGetaddrinfo (argv ! 1) port)) (\<lambda>status.
        if rv status \<noteq> 0 then thn (c_eprint (''getaddrinfo error: '' @ dat status @ [LF])) (c_exit EXIT_FAILURE)
        else
          bnd (sysi (CSocketAI (dat status))) (\<lambda>sock.
          if sock < 0 then die ''socket''
          else
            bnd (sysi (CConnect sock (dat status))) (\<lambda>rc.
            if rc < 0 then die ''connect''
            else
              seqs [act AFreeaddrinfo, say ''Send client message to server'', send_text sock ''request from client''] (
              bnd (c_read sock 1023) (\<lambda>(size, d).
              if size < 0 then die ''read''
              else
                put_NUL (overwrite d zeros) size (\<lambda>buf.
                seqs [print_array ''receid: '' buf [LF], c_close sock] (ret 0))))))))"

section \<open>Laws of the shared parts\<close>

lemma wpt_die: "(\<And>e. E (Exited 1) (t @ [Act (APerror m e)])) \<Longrightarrow> wpt (die m) Q E t"
  unfolding die_def EXIT_FAILURE_def by (auto intro!: wpt_intros)

lemma wpt_err_exit: "(\<And>e. E (Exited 1) (t @ [Act (APerror ''myserver'' e)])) \<Longrightarrow> wpt err_exit Q E t"
  unfolding err_exit_def by (auto intro!: wpt_intros)

lemma wpt_say: "Q () (t @ [Act (AOut (s @ [LF]))]) \<Longrightarrow> wpt (say s) Q E t"
  unfolding say_def by (auto intro!: wpt_intros)

lemma wpt_send_text:
  "(\<And>r. Q () (t @ [Sys (CWrite fd msg) r])) \<Longrightarrow> (\<And>c. E (Blocked c) t) \<Longrightarrow> wpt (send_text fd msg) Q E t"
  unfolding send_text_def by (auto intro!: wpt_bnd wpt_write wpt_prims)

lemma wpt_read_into:
  assumes "length buf = 1024"
    and "\<And>v b r. length b = 1024 \<Longrightarrow> b = overwrite (dat r) buf \<Longrightarrow>
      v = -1 \<and> dat r = [] \<or> v = int (length (dat r)) \<Longrightarrow> wpt (k v b) Q E (t @ [Sys (CRead fd 1024) r])"
    and "\<And>c. E (Blocked c) t"
  shows "wpt (read_into fd buf k) Q E t"
  unfolding read_into_def
proof (rule wpt_bnd, rule wpt_read, goal_cases)
  case (1 r)
  with assms(2) [of buf r "-1"] assms(1) show ?case by (simp add: overwrite_def)
next
  case (2 r)
  with assms(2) [of "overwrite (dat r) buf" r "int (length (dat r))"] assms(1) show ?case by simp
qed (rule assms(3))

lemma length_zeros [simp]: "length zeros = 1024"
  by (simp add: zeros_def)

lemmas tcp_intros =
  wpt_die wpt_err_exit wpt_say wpt_send_text wpt_read_into wpt_put_NUL wpt_print_array wpt_intros

text \<open>Nothing accepted, closed or written so far.\<close>

definition idle :: "entry list \<Rightarrow> bool" where
  "idle t \<longleftrightarrow> accepted t = [] \<and> closed t = [] \<and> writes t = []"

lemma wpt_listen_on:
  assumes "\<And>fd t'. idle t' \<Longrightarrow> wpt (k fd) Q E t'" "\<And>t' c. idle t' \<Longrightarrow> E (Blocked c) t'"
    "\<And>t'. idle t' \<Longrightarrow> E (Exited 1) t'" and "idle t"
  shows "wpt (listen_on family port k) Q E t"
  unfolding listen_on_def
  by (intro tcp_intros assms(1,2,3)) (use assms(4) in \<open>simp_all add: idle_def\<close>)

lemma wpt_accept_from:
  assumes "\<And>fd a r. 0 \<le> fd \<Longrightarrow> rv r = fd \<Longrightarrow> wpt (k fd a) Q E (t @ [Sys (CAccept s) r])"
    "\<And>c. E (Blocked c) t" "\<And>r e. rv r < 0 \<Longrightarrow> E (Exited 1) (t @ [Sys (CAccept s) r, Act (APerror ''accept'' e)])"
  shows "wpt (accept_from s k) Q E t"
  unfolding accept_from_def
  by (intro tcp_intros) (use assms in auto)

section \<open>One client\<close>

text \<open>
  A server that answers one client: when it returns, it has accepted one connection and given
  the whole answer to it; it can also exit with status 1, or stop at undefined behaviour.  It
  never writes to anything else.
\<close>

definition answered :: "bytes \<Rightarrow> entry list \<Rightarrow> bool" where
  "answered answer t \<longleftrightarrow> (\<exists>c. accepted t = [c] \<and> writes t = [(c, answer)])"

definition answers_once :: "bytes \<Rightarrow> int io \<Rightarrow> bool" where
  "answers_once answer server \<longleftrightarrow>
     (\<forall>w. case server w of
        Ret n w' \<Rightarrow> \<exists>t. trace w' = trace w @ t \<and> n = 0 \<and> answered answer t
      | Stop s w' \<Rightarrow> \<exists>t. trace w' = trace w @ t \<and>
          (blocked s \<or> faulted s \<or> exits_1 s) \<and> (writes t = [] \<or> answered answer t))"

lemma answers_onceI:
  assumes "wpt server (\<lambda>n t. n = 0 \<and> answered answer t)
    (\<lambda>s t. (blocked s \<or> faulted s \<or> exits_1 s) \<and> (writes t = [] \<or> answered answer t)) []"
  shows "answers_once answer server"
  unfolding answers_once_def using wpt_case [OF assms] by blast

lemma greet_peer_law:
  assumes "idle t"
  shows "wpt (greet_peer f hello report fd) (\<lambda>n t. n = 0 \<and> answered hello t)
    (\<lambda>s t. (blocked s \<or> faulted s \<or> exits_1 s) \<and> (writes t = [] \<or> answered hello t)) t"
  unfolding greet_peer_def Let_def seqs_simps
  by (intro wpt_accept_from tcp_intros length_zeros) (use assms in \<open>auto simp: idle_def answered_def\<close>)

lemma idle_nil [simp]: "idle []"
  by (simp add: idle_def)

lemma hellomsg_server_law: "answers_once ''Hello from server'' hellomsg_server"
  unfolding hellomsg_server_def
  by (intro answers_onceI wpt_listen_on greet_peer_law) (auto simp: idle_def)

lemma v6hello_server_law: "answers_once ''Hello from IPv6 server'' v6hello_server"
  unfolding v6hello_server_def
  by (intro answers_onceI wpt_listen_on tcp_intros greet_peer_law) (auto simp: idle_def)

lemma request_server_law: "answers_once ''ACK from server'' request_server"
  unfolding request_server_def seqs_simps
  by (intro answers_onceI wpt_listen_on wpt_accept_from tcp_intros length_zeros)
    (auto simp: idle_def answered_def)

lemma addrinfo_server_law: "answers_once ''ACK from server'' (addrinfo_server argv)"
  unfolding addrinfo_server_def Let_def seqs_simps EXIT_FAILURE_def split_beta
  by (intro answers_onceI wpt_accept_from tcp_intros wpt_read)
    (auto simp: idle_def answered_def)

section \<open>One client after the other\<close>

text \<open>
  A server that answers its clients in turn: every connection was closed and was given an answer
  that satisfies \<open>ok\<close>, except perhaps the last one.
\<close>

definition in_turn :: "(bytes \<Rightarrow> bool) \<Rightarrow> entry list \<Rightarrow> bool" where
  "in_turn ok t \<longleftrightarrow>
     closed t = accepted t \<and> map fst (writes t) = accepted t \<and> (\<forall>(c, b) \<in> set (writes t). ok b)"

definition turn_end :: "(bytes \<Rightarrow> bool) \<Rightarrow> stop \<Rightarrow> entry list \<Rightarrow> bool" where
  "turn_end ok s t \<longleftrightarrow>
     (blocked s \<or> faulted s \<or> exits_1 s) \<and>
     (\<exists>cs. accepted t = closed t @ cs \<and> length cs \<le> 1) \<and>
     (\<exists>cs. accepted t = map fst (writes t) @ cs \<and> length cs \<le> 1) \<and> (\<forall>(c, b) \<in> set (writes t). ok b)"

locale iterative_server =
  fixes round :: "int \<Rightarrow> 's \<Rightarrow> ('s + int) io" and state_ok :: "'s \<Rightarrow> bool" and ok :: "bytes \<Rightarrow> bool"
  assumes calls: "calls_each_round (round fd)"
    and turn: "state_ok s \<Longrightarrow>
      wpt (round fd s) (\<lambda>x t. \<exists>s'. x = Inl s' \<and> state_ok s' \<and> in_turn ok t) (turn_end ok) []"
begin

lemma serves: "state_ok s \<Longrightarrow> wpt (repeat_io (round fd) s) (\<lambda>_ _. False) (turn_end ok) []"
proof (rule wpt_repeat [where I = "\<lambda>s t. state_ok s \<and> in_turn ok t", OF calls])
  fix s t assume "state_ok s \<and> in_turn ok t"
  then show "wpt (round fd s) (\<lambda>x t'. case x of Inr b \<Rightarrow> False
      | Inl s' \<Rightarrow> state_ok s' \<and> in_turn ok t') (turn_end ok) t"
    by (intro wpt_frame [OF turn]) (auto simp: in_turn_def turn_end_def)
qed (simp add: in_turn_def)

lemma serves_after:
  assumes "state_ok s" "idle t"
  shows "wpt (repeat_io (round fd) s) (\<lambda>_ _. False) (turn_end ok) t"
  by (rule wpt_frame [OF serves [OF assms(1)]]) (use assms(2) in \<open>auto simp: idle_def turn_end_def\<close>)

end

lemma shrinks_tcp:
  "shrinks (say s)" "shrinks (die m)" "shrinks err_exit" "shrinks (send_text fd msg)"
  "(\<And>v b. shrinks (k v b)) \<Longrightarrow> shrinks (read_into fd buf k)"
  unfolding say_def die_def err_exit_def send_text_def read_into_def
  by (auto intro!: shrinks_intros)

lemmas tcp_shrinks = shrinks_tcp shrinks_arrays shrinks_intros

lemma accept_from_calls: "(\<And>s fd a. shrinks (k s fd a)) \<Longrightarrow> calls_each_round (\<lambda>s. accept_from srv (k s))"
  unfolding accept_from_def by (intro calls_first) (auto intro!: tcp_shrinks)

interpretation morehello: iterative_server morehello_round "\<lambda>b. length b = 1024" "\<lambda>a. a = ''Hello from C server''"
proof (unfold_locales, goal_cases)
  case (1 fd)
  show ?case unfolding morehello_round_def seqs_simps by (intro accept_from_calls tcp_shrinks)
next
  case (2 s fd)
  then show ?case
    unfolding morehello_round_def seqs_simps
    by (intro wpt_accept_from tcp_intros) (auto simp: in_turn_def turn_end_def)
qed

interpretation multiple: iterative_server multiple_round "\<lambda>b. length b = 1024" "\<lambda>a. a = ''Response from server''"
proof (unfold_locales, goal_cases)
  case (1 fd)
  show ?case unfolding multiple_round_def seqs_simps by (intro accept_from_calls tcp_shrinks)
next
  case (2 s fd)
  then show ?case
    unfolding multiple_round_def seqs_simps
    by (intro wpt_accept_from tcp_intros) (auto simp: in_turn_def turn_end_def)
qed

interpretation web: iterative_server web_round "\<lambda>_. True" "\<lambda>a. a = http_response"
proof (unfold_locales, goal_cases)
  case (1 fd)
  show ?case
    unfolding web_round_def seqs_simps sysi_def bnd_assoc
    by (intro calls_first tcp_shrinks)
next
  case (2 s fd)
  then show ?case
    unfolding web_round_def seqs_simps
    by (intro tcp_intros wpt_write) (auto simp: in_turn_def turn_end_def)
qed

text \<open>The servers as a whole.\<close>

definition answers_in_turn :: "(bytes \<Rightarrow> bool) \<Rightarrow> int io \<Rightarrow> bool" where
  "answers_in_turn ok server \<longleftrightarrow>
     (\<forall>w. case server w of
        Ret _ _ \<Rightarrow> False
      | Stop s w' \<Rightarrow> \<exists>t. trace w' = trace w @ t \<and> turn_end ok s t)"

lemma answers_in_turnI:
  assumes "wpt server (\<lambda>_ _. False) (turn_end ok) []"
  shows "answers_in_turn ok server"
  using wpt_case [OF assms] unfolding answers_in_turn_def
  by (simp only: ex_simps simp_thms split: result.split_asm result.split)

lemma turn_end_mono: "turn_end ok s t \<Longrightarrow> (\<And>a. ok a \<Longrightarrow> ok' a) \<Longrightarrow> turn_end ok' s t"
  unfolding turn_end_def by blast

lemma answers_in_turn_mono:
  "answers_in_turn ok server \<Longrightarrow> (\<And>a. ok a \<Longrightarrow> ok' a) \<Longrightarrow> answers_in_turn ok' server"
  unfolding answers_in_turn_def
proof (rule allI)
  fix w
  assume "\<forall>w. case server w of Ret _ _ \<Rightarrow> False | Stop s w' \<Rightarrow> \<exists>t. trace w' = trace w @ t \<and> turn_end ok s t"
    and ok: "\<And>a. ok a \<Longrightarrow> ok' a"
  from this(1) [rule_format, of w]
  show "case server w of Ret _ _ \<Rightarrow> False | Stop s w' \<Rightarrow> \<exists>t. trace w' = trace w @ t \<and> turn_end ok' s t"
    by (cases "server w") (auto intro: turn_end_mono ok)
qed

lemma turn_end_idle: "idle t \<Longrightarrow> turn_end ok s t \<longleftrightarrow> blocked s \<or> faulted s \<or> exits_1 s"
  by (simp add: idle_def turn_end_def)

lemma iterative_laws:
  "answers_in_turn (\<lambda>a. a = ''Hello from C server'') (morehello_server argv)"
  "answers_in_turn (\<lambda>a. a = ''Response from server'') multiple_server"
  "answers_in_turn (\<lambda>a. a = http_response) webserver"
proof -
  show "answers_in_turn (\<lambda>a. a = ''Hello from C server'') (morehello_server argv)"
    unfolding morehello_server_def
    by (intro answers_in_turnI wpt_listen_on morehello.serves_after) (auto simp: turn_end_idle)
  show "answers_in_turn (\<lambda>a. a = ''Response from server'') multiple_server"
    unfolding multiple_server_def
    by (intro answers_in_turnI wpt_listen_on multiple.serves_after) (auto simp: turn_end_idle)
  show "answers_in_turn (\<lambda>a. a = http_response) webserver"
    unfolding webserver_def
    by (intro answers_in_turnI tcp_intros web.serves_after) (auto simp: idle_def turn_end_def)
qed

section \<open>Clients\<close>

text \<open>
  A client that sends \<open>hello\<close> and prints what it reads, behind the text \<open>intro\<close>: it returns -1
  having sent nothing, or 0 when all this is done.
\<close>

definition talked :: "bytes \<Rightarrow> string \<Rightarrow> entry list \<Rightarrow> bool" where
  "talked hello intro t \<longleftrightarrow>
     (\<exists>fd. writes t = [(fd, hello)] \<and> intro @ cstr (bytes_read fd t) @ [LF] \<in> set (printed t))"

definition talks :: "bytes \<Rightarrow> string \<Rightarrow> int io \<Rightarrow> bool" where
  "talks hello intro client \<longleftrightarrow>
     (\<forall>w. case client w of
        Ret n w' \<Rightarrow> \<exists>t. trace w' = trace w @ t \<and> (n = -1 \<and> writes t = [] \<or> n = 0 \<and> talked hello intro t)
      | Stop s w' \<Rightarrow> \<exists>t. trace w' = trace w @ t \<and>
          (blocked s \<or> faulted s \<or> exits_1 s) \<and> (\<exists>fd. writes t = [] \<or> writes t = [(fd, hello)]))"

abbreviation talk_stop :: "bytes \<Rightarrow> stop \<Rightarrow> entry list \<Rightarrow> bool" where
  "talk_stop hello s t \<equiv>
     (blocked s \<or> faulted s \<or> exits_1 s) \<and> (\<exists>fd. writes t = [] \<or> writes t = [(fd, hello)])"

lemma talksI:
  assumes "wpt client (\<lambda>n t. n = -1 \<and> writes t = [] \<or> n = 0 \<and> talked hello intro t) (talk_stop hello) []"
  shows "talks hello intro client"
  unfolding talks_def using wpt_case [OF assms] by blast

text \<open>What a read leaves in a cleared array.\<close>

lemma cstr_read: "NUL \<in> set (overwrite d zeros) \<Longrightarrow> cstr (overwrite d zeros) = cstr d"
proof -
  assume n: "NUL \<in> set (overwrite d zeros)"
  show ?thesis
  proof (cases "1024 - length d")
    case 0
    with n have "NUL \<in> set d" by (simp add: overwrite_def zeros_def)
    then obtain a b where "d = a @ NUL # b" by (meson split_list)
    then show ?thesis by (simp add: overwrite_def cstr_before_NUL)
  next
    case (Suc k)
    then have "overwrite d zeros = d @ NUL # replicate k NUL"
      by (simp add: overwrite_def zeros_def)
    then show ?thesis by (simp add: cstr_before_NUL)
  qed
qed

lemma cstr_read_NUL: "length d < 1024 \<Longrightarrow> cstr ((overwrite d zeros)[length d := NUL]) = cstr d"
  by (rule cstr_put_NUL) simp

lemma wpt_client_socket:
  assumes "\<And>fd r. wpt (k fd) Q E (t @ [Sys (CSocket f SOCK_STREAM 0) r])" "\<And>c. E (Blocked c) t"
    "\<And>r s. Q (-1) (t @ [Sys (CSocket f SOCK_STREAM 0) r, Act (AOut s)])"
  shows "wpt (client_socket f k) Q E t"
  unfolding client_socket_def by (intro tcp_intros) (use assms in auto)

lemma wpt_text_address:
  assumes "\<And>a r. wpt (k a) Q E (t @ [Sys (CSys (''inet_pton '' @ ip) [f]) r])" "\<And>c. E (Blocked c) t"
    "\<And>r s. Q (-1) (t @ [Sys (CSys (''inet_pton '' @ ip) [f]) r, Act (AOut s)])"
  shows "wpt (text_address f ip p k) Q E t"
  unfolding text_address_def by (intro tcp_intros) (use assms in auto)

lemma wpt_connect_to:
  assumes "\<And>r. wpt k Q E (t @ [Sys (CConnect s a) r])" "\<And>c. E (Blocked c) t"
    "\<And>r m. Q (-1) (t @ [Sys (CConnect s a) r, Act (AOut m)])"
  shows "wpt (connect_to s a m k) Q E t"
  unfolding connect_to_def by (intro tcp_intros) (use assms in auto)

lemmas client_intros = wpt_client_socket wpt_text_address wpt_connect_to tcp_intros

lemma talk_clients:
  "talks ''Hello from client'' [] (hellomsg_client argv)"
  "talks ''Hello from IPv6 client'' [] (v6hello_client argv)"
  "talks ''Hello from C client'' [] (morehello_client argv)"
  unfolding hellomsg_client_def v6hello_client_def morehello_client_def talk_def Let_def list.map seqs_simps
  by (intro talksI client_intros length_zeros; auto simp: talked_def cstr_read_NUL)+

lemma asking_clients:
  "talks ''Request from client'' [] request_client"
  "talks ''Response from client'' [] hellofromserver_client"
  unfolding request_client_def hellofromserver_client_def ask_def seqs_simps
  by (intro talksI client_intros length_zeros; auto simp: talked_def cstr_read)+

lemma addrinfo_client_talks: "talks ''request from client'' ''receid: '' (addrinfo_client argv)"
  unfolding addrinfo_client_def Let_def seqs_simps EXIT_FAILURE_def split_beta
  by (intro talksI tcp_intros wpt_read; auto simp: talked_def cstr_read_NUL)

text \<open>One step of a run on a given script.\<close>

lemmas tcp_run =
  bnd_def thn_def call_def sysi_def c_read_def c_write_def c_print_def c_close_def go_def
  norm_reply_def Let_def got_bytes_def took_def stops_as_def

section \<open>Properties\<close>

text \<open>
  The servers for one client return only after they have accepted one connection and given
  their whole answer to it; otherwise they wait, exit with status 1 or stop at undefined
  behaviour, and write to nothing but that connection.
\<close>

theorem one_client_servers_answer:
  "answers_once ''Hello from server'' hellomsg_server \<and>
   answers_once ''Hello from IPv6 server'' v6hello_server \<and>
   answers_once ''ACK from server'' request_server \<and>
   answers_once ''ACK from server'' (addrinfo_server argv)"
  by (intro conjI hellomsg_server_law v6hello_server_law request_server_law addrinfo_server_law)

text \<open>
  C24. The servers that loop never return: every connection they have accepted was given the
  answer, and closed, in the order of the connections, the last one perhaps not yet.  The answer
  of the web server ends with a NUL, as it counts \<open>sizeof(response)\<close> bytes.
\<close>

theorem iterative_servers_answer_in_turn:
  "answers_in_turn (\<lambda>a. a = ''Hello from C server'') (morehello_server argv) \<and>
   answers_in_turn (\<lambda>a. a = ''Response from server'') multiple_server \<and>
   answers_in_turn (\<lambda>a. \<exists>text. a = text @ [NUL] \<and> NUL \<notin> set text) webserver"
proof (intro conjI iterative_laws)
  have "\<exists>text. http_response = text @ [NUL] \<and> NUL \<notin> set text"
    by (simp add: http_response_def crlf_def)
  then show "answers_in_turn (\<lambda>a. \<exists>text. a = text @ [NUL] \<and> NUL \<notin> set text) webserver"
    by (intro answers_in_turn_mono [OF iterative_laws(3)]) blast
qed

text \<open>
  The clients return 0 only after they have sent their whole message and printed the text
  they read from the server; they return -1 having sent nothing.
\<close>

theorem tcp_clients_talk:
  "talks ''Hello from client'' [] (hellomsg_client argv) \<and>
   talks ''Hello from IPv6 client'' [] (v6hello_client argv) \<and>
   talks ''Hello from C client'' [] (morehello_client argv) \<and>
   talks ''Request from client'' [] request_client \<and>
   talks ''Response from client'' [] hellofromserver_client \<and>
   talks ''request from client'' ''receid: '' (addrinfo_client argv)"
  by (intro conjI talk_clients asking_clients addrinfo_client_talks)

text \<open>
  \<open>morehello\<close> and \<open>multipleclient\<close> do not clear the array between two clients: what they print
  for a message is followed by the end of a longer message of an earlier client.
\<close>

theorem servers_show_earlier_messages:
  assumes "script w = took c # got_bytes d # r # rs" "0 \<le> c"
    and "length d \<le> length old" "length old = 1024" "NUL \<notin> set d" "NUL \<in> set (drop (length d) old)"
  shows "(\<exists>w'. morehello_round fd old w = Ret (Inl (overwrite d old)) w' \<and>
      printed (trace w') = printed (trace w) @ [d @ cstr (drop (length d) old) @ [LF]]) \<and>
    (\<exists>w'. multiple_round fd old w = Ret (Inl (overwrite d old)) w' \<and>
      printed (trace w') =
        printed (trace w) @ [d @ cstr (drop (length d) old) @ [LF], ''Response msg sent'' @ [LF]])"
proof -
  have "cstr (overwrite d old) = d @ cstr (drop (length d) old)"
    using assms(5) by (simp add: cstr_def overwrite_def takeWhile_append)
  moreover have "NUL \<in> set (overwrite d old)" using assms(6) by (simp add: overwrite_def)
  ultimately show ?thesis
    using assms(1-4)
    by (simp add: morehello_round_def multiple_round_def accept_from_def read_into_def send_text_def
        say_def print_array_def tcp_run)
qed

theorem servers_show_earlier_messages_witness:
  "\<exists>w'. morehello_round 3 (overwrite ''secret!'' zeros) (world0 [took 4, got_bytes ''hi'', took 19]) =
      Ret (Inl (overwrite ''hi'' (overwrite ''secret!'' zeros))) w' \<and>
    printed (trace w') = [''hicret!'' @ [LF]]"
  using servers_show_earlier_messages
    [of "world0 [took 4, got_bytes ''hi'', took 19]" 4 "''hi''" "took 19" "[]" "overwrite ''secret!'' zeros" 3]
  by (simp add: world0_def overwrite_def zeros_def cstr_before_NUL cstr_def)

text \<open>
  The server of \<open>hellomsg copy\<close> gives \<open>write\<close> the length of the client's message as the
  length of its own: a short message gets only the beginning of the answer, and one longer than
  the answer makes it read past the end of the text.
\<close>

theorem hellomsg_copy_wrong_length:
  assumes "script w = took fd # took 0 # took 0 # took c # got_bytes d # r # rs" "0 \<le> fd" "0 \<le> c"
    and "length d < 1024" "NUL \<notin> set d"
  shows "if length d \<le> 18
    then \<exists>w'. hellomsg_copy_server w = Ret 0 w' \<and>
      writes (trace w') = writes (trace w) @ [(c, take (length d) (''Hello from server'' @ [NUL]))]
    else stops_as (hellomsg_copy_server w) (Fault ''write past the end of an array'')"
proof -
  have "cstr (overwrite d zeros) = d"
    using cstr_read [of d] assms(4,5) by (simp add: cstr_id overwrite_def zeros_def)
  moreover have "NUL \<in> set (overwrite d zeros)" using assms(4) by (simp add: overwrite_def zeros_def)
  ultimately show ?thesis
    using assms
    by (simp add: hellomsg_copy_server_def read_into_def say_def print_array_def tcp_run)
qed

theorem hellomsg_copy_wrong_length_witness:
  "stops_as (hellomsg_copy_server (world0 [took 3, took 0, took 0, took 4, got_bytes ''Hello from client 1'', took 0]))
     (Fault ''write past the end of an array'')"
  using hellomsg_copy_wrong_length
    [of "world0 [took 3, took 0, took 0, took 4, got_bytes ''Hello from client 1'', took 0]" 3 4
      "''Hello from client 1''" "took 0" "[]"]
  by (simp add: world0_def)

end
