(* ===== verification/Tcp_Concurrent.thy ===== *)
theory Tcp_Concurrent
  imports Tcp_Hello
begin

text \<open>
  The concurrent servers of the lectures, \<^verbatim>\<open>Lecture7/concurrent_server\<close> (a process for every
  connection) and \<^verbatim>\<open>Lecture8/concurrent_server_thread\<close> (a thread for every connection), and their
  clients.

  \<open>fork\<close> returns in one process or the other, as the script says: a run in which it returns 0 is
  a run of the child.  A thread is a program of its own.
\<close>

definition sleep_for :: "int \<Rightarrow> unit io" where
  "sleep_for n = act (ASys ''sleep'' [n])"

section \<open>A process for every connection\<close>

definition fork_child :: "int \<Rightarrow> int \<Rightarrow> (unit + int) io" where
  "fork_child server_fd new_socket =
     thn (c_close server_fd) (
     read_into new_socket zeros (\<lambda>valread buffer.
     seqs
       [print_array [] buffer [LF], sleep_for 2, send_text new_socket ''Response from server'',
        say ''Response msg sent'']
       (c_exit 0)))"

definition fork_round :: "int \<Rightarrow> unit \<Rightarrow> (unit + int) io" where
  "fork_round server_fd u =
     accept_from server_fd (\<lambda>new_socket cliaddr.
     bnd (sysi CFork) (\<lambda>pid.
     if pid = 0 then fork_child server_fd new_socket
     else seqs [c_close new_socket, say ''after close socket''] (go ())))"

definition fork_server :: "int io" where
  "fork_server = listen_on AF_INET TCP_PORT (\<lambda>server_fd. repeat_io (fork_round server_fd) ())"

text \<open>The client is two processes as well, each with a socket of its own.\<close>

definition meet :: "int \<Rightarrow> bytes \<Rightarrow> string \<Rightarrow> int io" where
  "meet sock serv_addr name =
     connect_to sock serv_addr (''Connection from '' @ name @ '' failed '') (
     ask sock (''Hello from '' @ name) (''Hello message sent from '' @ name)
       ((CHR ''C'' # tl name) @ '' received: '') (ret 0))"

definition fork_client :: "int io" where
  "fork_client =
     client_socket AF_INET (\<lambda>sock1. client_socket AF_INET (\<lambda>sock2.
     text_address AF_INET ''127.0.0.1'' TCP_PORT (\<lambda>serv_addr.
     bnd (sysi CFork) (\<lambda>pid.
     if pid \<noteq> 0 then meet sock1 serv_addr ''client 1'' else meet sock2 serv_addr ''client 2''))))"

section \<open>A thread for every connection\<close>

text \<open>\<open>thread_handle\<close>; the identifier of the thread is the argument \<open>tid\<close>.\<close>

definition serve_thread :: "int \<Rightarrow> int \<Rightarrow> unit io" where
  "serve_thread tid connfd =
     thn (say (''Entering the thread: '' @ show_int tid)) (
     read_into connfd zeros (\<lambda>valread buffer.
     seqs
       [print_array [] buffer [LF], sleep_for 4, send_text connfd ''Response from server'',
        say (''Response msg sent from the thread: '' @ show_int tid), act AFree, c_close connfd]
       (ret ())))"

text \<open>
  The result of \<open>malloc\<close> is stored to without a test.  The dots at the end of the first message
  are one character of three bytes.  The reply to \<open>pthread_create\<close> carries the identifier.
\<close>

definition thread_round :: "int \<Rightarrow> unit \<Rightarrow> (unit + int) io" where
  "thread_round server_fd u =
     thn (say (''Waiting for a client to connect'' @ [CHR 0xE2, CHR 0x80, CHR 0xA6])) (
     bnd (sysi (CMalloc 4)) (\<lambda>new_socket.
     bnd (call (CAccept server_fd)) (\<lambda>acc.
     if new_socket = 0 then c_fault ''store through a null pointer''
     else if rv acc < 0 then die ''accept''
     else
       bnd (call (CPthreadCreate ''thread_handle'')) (\<lambda>t.
       seqs [say (''from main(): tid = '' @ show_int (er t)), act (ADetach (er t))] (go ())))))"

definition thread_server :: "int io" where
  "thread_server = listen_on AF_INET TCP_PORT (\<lambda>server_fd. repeat_io (thread_round server_fd) ())"

text \<open>
  \<^verbatim>\<open>client.c\<close>: two connections, and one greeting after the other.  The unused bytes of the address
  hold the digit 0.
\<close>

definition two_sockets_client :: "int io" where
  "two_sockets_client =
     client_socket AF_INET (\<lambda>sock1. client_socket AF_INET (\<lambda>sock2.
     text_address AF_INET ''127.0.0.1'' TCP_PORT (\<lambda>cleared.
     let serv_addr = take 8 cleared @ replicate 8 CHR ''0'' in
     connect_to sock1 serv_addr ''Connection Failed '' (
     connect_to sock2 serv_addr ''Connection Failed '' (
     seqs
       [send_text sock1 ''Hello from client 1'', say ''Hello message sent from client 1'',
        send_text sock2 ''Hello from client 2'', say ''Hello message sent from client 2''] (
     read_into sock1 zeros (\<lambda>valread1 buffer1.
     thn (print_array ''Client 1 received: '' buffer1 [LF]) (
     read_into sock2 zeros (\<lambda>valread2 buffer2.
     thn (print_array ''Client 2 received: '' buffer2 [LF]) (ret 0))))))))))"

text \<open>\<^verbatim>\<open>client_thread.c\<close>: a thread for each of two connections.\<close>

definition client_thread :: "int \<Rightarrow> int \<Rightarrow> string \<Rightarrow> unit io" where
  "client_thread tid fd msg =
     seqs
       [say (''entering thread '' @ show_int tid), send_text fd msg,
        say (''Sent from socket '' @ show_int fd @ '': '' @ msg)] (
     read_into fd zeros (\<lambda>valread buf.
     thn (print_array (''Received from sock '' @ show_int fd @ '': '') buf [LF]) (ret ())))"

definition quit_with :: "string \<Rightarrow> int io" where
  "quit_with msg = thn (c_perror msg) (ret (-1))"

definition start_client :: "int \<Rightarrow> bytes \<Rightarrow> int io \<Rightarrow> int io" where
  "start_client sock serv_addr k =
     bnd (sysi (CConnect sock serv_addr)) (\<lambda>rc.
     if rc < 0 then quit_with ''connect''
     else
       bnd (sysi (CPthreadCreate ''thread_handle'')) (\<lambda>rc.
       if rc < 0 then quit_with ''pthread_create'' else k))"

definition threads_client :: "int io" where
  "threads_client =
     bnd (sysi (CSocket AF_INET SOCK_STREAM 0)) (\<lambda>sock1.
     if sock1 < 0 then quit_with ''socket''
     else
       bnd (sysi (CSocket AF_INET SOCK_STREAM 0)) (\<lambda>sock2.
       if sock2 < 0 then quit_with ''socket''
       else
         text_address AF_INET ''127.0.0.1'' TCP_PORT (\<lambda>serv_addr.
         start_client sock1 serv_addr (
         start_client sock2 serv_addr (
         seqs
           [say ''Main thread wants for handle threads ...'',
            act (ASys ''pthread_join'' [0]), act (ASys ''pthread_join'' [1])]
           (ret 0))))))"

section \<open>Laws\<close>

text \<open>The results of \<open>fork\<close> and \<open>pthread_create\<close> in a trace.\<close>

fun forks :: "entry list \<Rightarrow> int list" where
  "forks [] = []"
| "forks (Sys CFork r # t) = rv r # forks t"
| "forks (_ # t) = forks t"

fun threads_made :: "entry list \<Rightarrow> nat" where
  "threads_made [] = 0"
| "threads_made (Sys (CPthreadCreate f) r # t) = Suc (threads_made t)"
| "threads_made (_ # t) = threads_made t"

text \<open>The sockets that were made to listen.\<close>

fun listening :: "entry list \<Rightarrow> int list" where
  "listening [] = []"
| "listening (Sys (CListen fd n) r # t) = (if rv r < 0 then listening t else fd # listening t)"
| "listening (_ # t) = listening t"

lemma listening_append [simp]: "listening (s @ t) = listening s @ listening t"
  by (induction s rule: listening.induct) auto

lemma forks_append [simp]: "forks (s @ t) = forks s @ forks t"
  by (induction s rule: forks.induct) auto

lemma threads_made_append [simp]: "threads_made (s @ t) = threads_made s + threads_made t"
  by (induction s rule: threads_made.induct) auto

lemma wpt_sleep_for: "Q () (t @ [Act (ASys ''sleep'' [n])]) \<Longrightarrow> wpt (sleep_for n) Q E t"
  unfolding sleep_for_def by (rule wpt_prims)

lemma shrinks_sleep_for: "shrinks (sleep_for n)"
  unfolding sleep_for_def by (rule shrinks_prims)

lemmas conc_intros = wpt_sleep_for tcp_intros

text \<open>
  What the parent has done: one socket listens, every connection accepted is closed again and
  nothing was written.  What a child has done: beside what the parent had closed it has closed the
  socket that listens and no other, and at its end it has written the whole answer to the
  connection that was accepted last.
\<close>

definition parent_ok :: "int \<Rightarrow> entry list \<Rightarrow> bool" where
  "parent_ok server_fd t \<longleftrightarrow>
     listening t = [server_fd] \<and> 0 \<notin> set (forks t) \<and> closed t = accepted t \<and> writes t = []"

definition fork_end :: "stop \<Rightarrow> entry list \<Rightarrow> bool" where
  "fork_end s t \<longleftrightarrow>
     (if 0 \<in> set (forks t)
      then \<exists>cs c server_fd. listening t = [server_fd] \<and> accepted t = cs @ [c] \<and>
             closed t = cs @ [server_fd] \<and>
             (s = Exited 0 \<and> writes t = [(c, ''Response from server'')] \<or>
              (blocked s \<or> faulted s) \<and> writes t = [])
      else (blocked s \<or> exits_1 s) \<and> writes t = [] \<and>
           (\<exists>cs. accepted t = closed t @ cs \<and> length cs \<le> 1))"

lemma fork_round_law:
  assumes "parent_ok server_fd t"
  shows "wpt (fork_round server_fd u)
    (\<lambda>x t'. case x of Inr b \<Rightarrow> False | Inl s' \<Rightarrow> parent_ok server_fd t') fork_end t"
  unfolding fork_round_def fork_child_def seqs_simps
  by (intro wpt_accept_from conc_intros length_zeros)
    (use assms in \<open>auto simp: parent_ok_def fork_end_def\<close>)

lemma fork_round_calls: "calls_each_round (fork_round server_fd)"
  unfolding fork_round_def fork_child_def seqs_simps
  by (intro accept_from_calls tcp_shrinks shrinks_sleep_for)

lemma fork_server_law: "wpt fork_server (\<lambda>_ _. False) fork_end []"
  unfolding fork_server_def listen_on_def
  by (intro conc_intros wpt_repeat [OF fork_round_calls fork_round_law])
    (auto simp: parent_ok_def fork_end_def)


text \<open>
  The main thread hands every connection it accepts to a new thread, and neither writes to it nor
  closes it; the thread answers it and closes it.
\<close>

definition handed_over :: "entry list \<Rightarrow> bool" where
  "handed_over t \<longleftrightarrow> threads_made t = length (accepted t) \<and> writes t = [] \<and> closed t = []"

definition thread_end :: "stop \<Rightarrow> entry list \<Rightarrow> bool" where
  "thread_end s t \<longleftrightarrow>
     (blocked s \<or> faulted s \<or> exits_1 s) \<and> writes t = [] \<and> closed t = [] \<and>
     threads_made t \<le> length (accepted t) \<and> length (accepted t) \<le> Suc (threads_made t)"

lemma thread_round_law:
  assumes "handed_over t"
  shows "wpt (thread_round server_fd u)
    (\<lambda>x t'. case x of Inr b \<Rightarrow> False | Inl s' \<Rightarrow> handed_over t') thread_end t"
  unfolding thread_round_def seqs_simps
  by (intro conc_intros) (use assms in \<open>auto simp: handed_over_def thread_end_def norm_reply_def\<close>)

lemma thread_round_calls: "calls_each_round (thread_round server_fd)"
proof -
  have "calls_each_round (\<lambda>u. bnd (call (CMalloc 4)) (\<lambda>r.
     bnd (call (CAccept server_fd)) (\<lambda>acc.
     if rv r = 0 then c_fault ''store through a null pointer''
     else if rv acc < 0 then die ''accept''
     else
       bnd (call (CPthreadCreate ''thread_handle'')) (\<lambda>t.
       thn (say (''from main(): tid = '' @ show_int (er t))) (thn (act (ADetach (er t))) (go ()))))))"
    by (intro calls_first tcp_shrinks)
  from calls_after_act [OF this] show ?thesis
    unfolding thread_round_def seqs_simps say_def c_print_def sysi_def bnd_assoc bnd_ret by simp
qed

lemma thread_server_law: "wpt thread_server (\<lambda>_ _. False) thread_end []"
  unfolding thread_server_def listen_on_def
  by (intro conc_intros wpt_repeat [OF thread_round_calls thread_round_law])
    (auto simp: handed_over_def thread_end_def)

lemma serve_thread_law:
  "wpt (serve_thread tid connfd)
     (\<lambda>_ t. writes t = [(connfd, ''Response from server'')] \<and> closed t = [connfd] \<and> accepted t = [])
     (\<lambda>s t. (blocked s \<or> faulted s) \<and> writes t = [] \<and> closed t = []) []"
  unfolding serve_thread_def seqs_simps
  by (intro conc_intros length_zeros) auto

section \<open>Clients\<close>

definition greeted :: "int \<Rightarrow> bytes \<Rightarrow> string \<Rightarrow> entry list \<Rightarrow> bool" where
  "greeted fd hello intro t \<longleftrightarrow>
     (fd, hello) \<in> set (writes t) \<and> intro @ cstr (bytes_read fd t) @ [LF] \<in> set (printed t)"

lemma fork_client_law:
  "wpt fork_client
     (\<lambda>n t. n = -1 \<and> writes t = [] \<or>
        n = 0 \<and> (\<exists>fd. greeted fd (if forks t = [0] then ''Hello from client 2'' else ''Hello from client 1'')
          (if forks t = [0] then ''Client 2 received: '' else ''Client 1 received: '') t \<and> length (writes t) = 1))
     (\<lambda>s t. (blocked s \<or> faulted s) \<and> length (writes t) \<le> 1) []"
  unfolding fork_client_def meet_def ask_def seqs_simps
  by (intro client_intros length_zeros) (auto simp: greeted_def cstr_read norm_reply_def)

lemma two_sockets_law:
  "wpt two_sockets_client
     (\<lambda>n t. n = -1 \<and> writes t = [] \<or>
        n = 0 \<and> (\<exists>fd fd'. writes t = [(fd, ''Hello from client 1''), (fd', ''Hello from client 2'')] \<and>
          (fd \<noteq> fd' \<longrightarrow> greeted fd ''Hello from client 1'' ''Client 1 received: '' t \<and>
             greeted fd' ''Hello from client 2'' ''Client 2 received: '' t)))
     (\<lambda>s t. (blocked s \<or> faulted s) \<and> length (writes t) \<le> 2) []"
  unfolding two_sockets_client_def seqs_simps Let_def
  by (intro client_intros length_zeros) (auto simp: greeted_def cstr_read)

lemma client_thread_law:
  "wpt (client_thread tid fd msg)
     (\<lambda>_ t. writes t = [(fd, msg)] \<and> greeted fd msg (''Received from sock '' @ show_int fd @ '': '') t)
     (\<lambda>s t. (blocked s \<or> faulted s) \<and> (writes t = [] \<or> writes t = [(fd, msg)])) []"
  unfolding client_thread_def seqs_simps
  by (intro client_intros length_zeros) (auto simp: greeted_def cstr_read)

lemma threads_client_law:
  "wpt threads_client
     (\<lambda>n t. (n = -1 \<or> n = 0 \<and> threads_made t = 2) \<and> writes t = [])
     (\<lambda>s t. blocked s \<and> writes t = []) []"
  unfolding threads_client_def start_client_def quit_with_def seqs_simps
  by (intro client_intros) auto

section \<open>Properties\<close>

text \<open>
  C32. The concurrent servers never return.  The parent of the first one closes every connection it
  has accepted and writes to none; a child has closed, beyond what the parent had, just the
  socket that was made to listen, and exits having given the whole answer to its connection.  The main thread of the second one starts a thread for every
  connection it has accepted, and the thread answers its connection and closes it.
\<close>

theorem concurrent_servers_serve:
  "(case fork_server w of Ret n w' \<Rightarrow> False | Stop s w' \<Rightarrow> \<exists>t. trace w' = trace w @ t \<and> fork_end s t) \<and>
   (case thread_server w of Ret n w' \<Rightarrow> False | Stop s w' \<Rightarrow> \<exists>t. trace w' = trace w @ t \<and> thread_end s t) \<and>
   (case serve_thread tid connfd w of
      Ret u w' \<Rightarrow> \<exists>t. trace w' = trace w @ t \<and> closed t = [connfd] \<and>
        writes t = [(connfd, ''Response from server'')]
    | Stop s w' \<Rightarrow> \<exists>t. trace w' = trace w @ t \<and> (blocked s \<or> faulted s) \<and> writes t = [])"
  using wpt_case [OF fork_server_law, of w] wpt_case [OF thread_server_law, of w]
    wpt_case [OF serve_thread_law [of tid connfd], of w]
  by (auto split: result.splits)

text \<open>
  The clients of the concurrent servers: a process of the first client that returns 0 has sent
  its own greeting and printed what came back on the same connection; so has, for both of its
  connections, the client with two sockets, and every thread of the client with threads, whose
  main thread returns 0 having started two of them.
\<close>

theorem concurrent_clients_talk:
  "(case fork_client w of
      Ret n w' \<Rightarrow> \<exists>t. trace w' = trace w @ t \<and> (n = -1 \<and> writes t = [] \<or>
        n = 0 \<and> (\<exists>fd. length (writes t) = 1 \<and>
          greeted fd (if forks t = [0] then ''Hello from client 2'' else ''Hello from client 1'')
            (if forks t = [0] then ''Client 2 received: '' else ''Client 1 received: '') t))
    | Stop s w' \<Rightarrow> blocked s \<or> faulted s) \<and>
   (case two_sockets_client w of
      Ret n w' \<Rightarrow> \<exists>t. trace w' = trace w @ t \<and> (n = -1 \<and> writes t = [] \<or>
        n = 0 \<and> (\<exists>fd fd'. writes t = [(fd, ''Hello from client 1''), (fd', ''Hello from client 2'')] \<and>
          (fd = fd' \<or> greeted fd ''Hello from client 1'' ''Client 1 received: '' t \<and>
             greeted fd' ''Hello from client 2'' ''Client 2 received: '' t)))
    | Stop s w' \<Rightarrow> blocked s \<or> faulted s) \<and>
   (case client_thread tid fd msg w of
      Ret u w' \<Rightarrow> \<exists>t. trace w' = trace w @ t \<and> writes t = [(fd, msg)] \<and>
        greeted fd msg (''Received from sock '' @ show_int fd @ '': '') t
    | Stop s w' \<Rightarrow> blocked s \<or> faulted s) \<and>
   (case threads_client w of
      Ret n w' \<Rightarrow> \<exists>t. trace w' = trace w @ t \<and> (n = -1 \<or> n = 0 \<and> threads_made t = 2)
    | Stop s w' \<Rightarrow> blocked s)"
proof (intro conjI, goal_cases)
  case 1
  then show ?case using wpt_case [OF fork_client_law, of w]
    by (cases "fork_client w") (auto split del: if_split)
next
  case 2
  then show ?case using wpt_case [OF two_sockets_law, of w] by (cases "two_sockets_client w") auto
next
  case 3
  then show ?case using wpt_case [OF client_thread_law [of tid fd msg], of w]
    by (cases "client_thread tid fd msg w") auto
next
  case 4
  then show ?case using wpt_case [OF threads_client_law, of w] by (cases "threads_client w") auto
qed

end
