(* ===== verification/File_Transfer.thy ===== *)
theory File_Transfer
  imports Tcp_Hello
begin

text \<open>
  \<^verbatim>\<open>src/Lecture6/readnbytes\<close>: a client sends a file over a connection, a server stores what it
  receives in another file, reading with \<open>readnbytes\<close>.

  The bytes given to \<open>fwrite\<close> are those of \<open>AFputs\<close>.  The reply to \<open>fread\<close> carries the bytes of
  the file, at most as many as asked for; no bytes is the end of the file.
\<close>

section \<open>The server\<close>

text \<open>
  \<open>readnbytes\<close>: \<open>got\<close> are the bytes stored at \<open>vptr\<close> so far, \<open>i\<close> numbers the reads for the debug
  output.  The result is the return value and the bytes stored.
\<close>

definition debug_line :: "int \<Rightarrow> int \<Rightarrow> unit io" where
  "debug_line i nread =
     say (''The '' @ show_int i @ ''th read acutally reads '' @ show_int nread @ '' bytes.'')"

definition readnbytes_round ::
  "int \<Rightarrow> nat \<Rightarrow> nat \<times> bytes \<times> int \<Rightarrow> ((nat \<times> bytes \<times> int) + (int \<times> bytes)) io" where
  "readnbytes_round fd n = (\<lambda>(nleft, got, i).
     if nleft > 0 then
       bnd (c_read fd nleft) (\<lambda>(nread, d).
       if nread < 0 then
         bnd get_errno (\<lambda>e.
         if e = EINTR then seqs [say ''Read Failure'', debug_line i 0] (go (nleft, got, to_int32 (i + 1)))
         else leave (-1, got))
       else if nread = 0 then leave (int n - int nleft, got)
       else thn (debug_line i nread) (go (nleft - nat nread, got @ d, to_int32 (i + 1))))
     else leave (int n - int nleft, got))"

definition readnbytes :: "int \<Rightarrow> nat \<Rightarrow> (int \<times> bytes) io" where
  "readnbytes fd n = repeat_io (readnbytes_round fd n) (n, [], 0)"

text \<open>A null \<open>FILE\<close> pointer is 0; neither program tests for it.\<close>

definition c_fwrite :: "int \<Rightarrow> bytes \<Rightarrow> unit io" where
  "c_fwrite fp d = (if fp = 0 then c_fault ''null file pointer'' else act (AFputs fp d))"

definition c_fclose :: "int \<Rightarrow> unit io" where
  "c_fclose fp = (if fp = 0 then c_fault ''null file pointer'' else act (AFclose fp))"

definition receive_round :: "int \<Rightarrow> int \<Rightarrow> int \<Rightarrow> (int + int) io" where
  "receive_round new_socket fp cnt =
     bnd (readnbytes new_socket 1024) (\<lambda>(valread, got).
     if valread > 0 then thn (c_fwrite fp got) (go (to_int32 (cnt + valread))) else leave cnt)"

definition receive_server :: "int io" where
  "receive_server =
     listen_on AF_INET TCP_PORT (\<lambda>server_fd.
     accept_from server_fd (\<lambda>new_socket cliaddr.
     bnd (sysi (CFopen ''receive.txt'' ''w+'')) (\<lambda>fp.
     bnd (repeat_io (receive_round new_socket fp) 0) (\<lambda>cnt.
     seqs
       [say ''readnbytes function is called'', say (show_int cnt @ '' bytes of data received''),
        c_close new_socket, c_fclose fp]
       (ret 0)))))"

section \<open>The client\<close>

definition c_fread :: "int \<Rightarrow> nat \<Rightarrow> bytes io" where
  "c_fread fp n =
     (if fp = 0 then c_fault ''null file pointer''
      else bnd (call (CSys ''fread'' [fp, int n])) (\<lambda>r. ret (take n (dat r))))"

definition send_round :: "int \<Rightarrow> int \<Rightarrow> int \<Rightarrow> (int + int option) io" where
  "send_round sock fp cnt =
     bnd (c_fread fp 1024) (\<lambda>d.
     if d \<noteq> [] then
       bnd (c_write sock d (int (length d))) (\<lambda>rc.
       if rc < 0 then leave None else go (to_int32 (cnt + int (length d))))
     else leave (Some cnt))"

definition send_client :: "int io" where
  "send_client =
     client_socket AF_INET (\<lambda>sock.
     text_address AF_INET ''127.0.0.1'' TCP_PORT (\<lambda>serv_addr.
     connect_to sock serv_addr ''Connection Failed'' (
     bnd (sysi (CFopen ''data_1MB.txt'' ''r'')) (\<lambda>fp.
     bnd (repeat_io (send_round sock fp) 0) (\<lambda>sent.
     case sent of
       None \<Rightarrow> ret (-1)
     | Some cnt \<Rightarrow>
         seqs [say (show_int cnt @ '' bytes of data sent''), c_close sock, c_fclose fp] (ret 0))))))"

section \<open>What a trace did with files and reads\<close>

fun file_out :: "int \<Rightarrow> entry list \<Rightarrow> bytes" where
  "file_out fp [] = []"
| "file_out fp (Act (AFputs fp' d) # t) = (if fp' = fp then d else []) @ file_out fp t"
| "file_out fp (_ # t) = file_out fp t"

fun file_in :: "int \<Rightarrow> entry list \<Rightarrow> bytes" where
  "file_in fp [] = []"
| "file_in fp (Sys (CSys f ns) r # t) =
     (if f = ''fread'' \<and> ns = [fp, 1024] then take 1024 (dat r) else []) @ file_in fp t"
| "file_in fp (_ # t) = file_in fp t"

fun read_results :: "int \<Rightarrow> entry list \<Rightarrow> int list" where
  "read_results fd [] = []"
| "read_results fd (Sys (CRead fd' n) r # t) = (if fd' = fd then [rv r] else []) @ read_results fd t"
| "read_results fd (_ # t) = read_results fd t"

lemma file_out_append [simp]: "file_out fp (s @ t) = file_out fp s @ file_out fp t"
  by (induction fp s rule: file_out.induct) auto

lemma file_in_append [simp]: "file_in fp (s @ t) = file_in fp s @ file_in fp t"
  by (induction fp s rule: file_in.induct) auto

lemma read_results_append [simp]: "read_results fd (s @ t) = read_results fd s @ read_results fd t"
  by (induction fd s rule: read_results.induct) auto

section \<open>Laws\<close>

lemma wpt_debug_line:
  "(\<And>s. Q () (t @ [Act (AOut s)])) \<Longrightarrow> wpt (debug_line i m) Q E t"
  unfolding debug_line_def by (intro wpt_say)

lemma calls_if:
  assumes "calls_each_round f"
  shows "calls_each_round (\<lambda>s. if b s then f s else leave (g s))"
  unfolding calls_each_round_def
proof (intro allI)
  fix s w
  show "wp (if b s then f s else leave (g s))
      (\<lambda>x w'. case x of Inr b \<Rightarrow> True | Inl s' \<Rightarrow> length (script w') < length (script w)) (\<lambda>_ _. True) w"
    using assms [unfolded calls_each_round_def, rule_format, of s w] by (auto simp: wp_simps)
qed

lemma readnbytes_calls: "calls_each_round (readnbytes_round fd n)"
  unfolding readnbytes_round_def split_beta c_read_def bnd_assoc debug_line_def seqs_simps bnd_ret
  by (intro calls_if calls_first tcp_shrinks)

text \<open>
  \<open>readnbytes\<close> returns the number of the bytes it has stored, all that the reads delivered, and
  this is \<open>n\<close> unless the input has ended; or it returns -1 after a read that failed.
\<close>

definition read_all :: "int \<Rightarrow> nat \<Rightarrow> int \<times> bytes \<Rightarrow> entry list \<Rightarrow> bool" where
  "read_all fd n = (\<lambda>(v, got) t.
     bytes_read fd t = got \<and> length got \<le> n \<and>
     (v = int (length got) \<and> (length got < n \<longrightarrow> last (read_results fd t) = 0 \<and> read_results fd t \<noteq> []) \<or>
      v = -1 \<and> length got < n \<and> last (read_results fd t) = -1 \<and> read_results fd t \<noteq> []))"

lemma readnbytes_law:
  "wpt (readnbytes fd n)
     (\<lambda>x t. read_all fd n x t \<and> file_out fp t = [] \<and> accepted t = [] \<and> closed t = [])
     (\<lambda>s t. blocked s) []"
  unfolding readnbytes_def
proof (rule wpt_repeat [where I = "\<lambda>(nleft, got, i) t.
      bytes_read fd t = got \<and> nleft + length got = n \<and> file_out fp t = [] \<and> accepted t = [] \<and> closed t = []", OF readnbytes_calls],
      goal_cases)
  case (1 s t)
  then show ?case
    unfolding readnbytes_round_def split_beta seqs_simps
    by (intro wpt_debug_line wpt_read tcp_intros) (auto simp: read_all_def)
qed simp

text \<open>A loop whose first round makes a call takes something from the script.\<close>

lemma call_takes:
  "bnd (call c) f w = Ret x v \<Longrightarrow> (\<And>r. shrinks (f r)) \<Longrightarrow> length (script v) < length (script w)"
  unfolding bnd_def call_def shrinks_def
  by (fastforce simp: Let_def split: list.splits result.splits)

lemma repeat_takes:
  assumes first: "\<And>x v. body s w = Ret x v \<Longrightarrow> length (script v) < length (script w)"
    and rest: "\<And>s. shrinks (body s)" and run: "repeat_io body s w = Ret b v"
  shows "length (script v) < length (script w)"
  using run unfolding repeat_io_def
  by (subst (asm) repeat_var.simps)
    (use first shrinks_repeat_var [of body, OF rest, unfolded shrinks_def, rule_format] in
      \<open>fastforce split: result.splits sum.splits if_splits\<close>)

lemma readnbytes_shrinks: "shrinks (readnbytes_round fd n s)" "shrinks (readnbytes fd n)"
  unfolding readnbytes_def readnbytes_round_def split_beta debug_line_def seqs_simps
  by (intro tcp_shrinks)+

lemma first_read:
  assumes "0 < n"
  shows "\<exists>f. readnbytes_round fd n (n, [], 0) = bnd (call (CRead fd n)) f \<and> (\<forall>r. shrinks (f r))"
  unfolding readnbytes_round_def c_read_def bnd_assoc bnd_ret split_beta debug_line_def seqs_simps
    fst_conv snd_conv if_P [OF assms]
  by (rule exI, rule conjI, rule refl, intro allI tcp_shrinks)

lemma readnbytes_takes:
  assumes "0 < n" "readnbytes fd n w = Ret x v"
  shows "length (script v) < length (script w)"
  using assms(2) unfolding readnbytes_def
proof (rule repeat_takes [rotated 2])
  fix y u assume run: "readnbytes_round fd n (n, [], 0) w = Ret y u"
  from first_read [OF assms(1), of fd] obtain f
    where f: "readnbytes_round fd n (n, [], 0) = bnd (call (CRead fd n)) f" "\<And>r. shrinks (f r)" by blast
  from run [unfolded f(1)] f(2) show "length (script u) < length (script w)" by (rule call_takes)
qed (rule readnbytes_shrinks)

lemma calls_takes:
  assumes "\<And>s w x v. m s w = Ret x v \<Longrightarrow> length (script v) < length (script w)" "\<And>s x. shrinks (f s x)"
  shows "calls_each_round (\<lambda>s. bnd (m s) (f s))"
  unfolding calls_each_round_def
proof (intro allI)
  fix s w
  show "wp (bnd (m s) (f s)) (\<lambda>x w'. case x of Inr b \<Rightarrow> True | Inl s' \<Rightarrow> length (script w') < length (script w))
      (\<lambda>_ _. True) w"
  proof (cases "m s w")
    case (Ret x v)
    then have v: "length (script v) < length (script w)" by (rule assms(1))
    show ?thesis
    proof (cases "f s x v")
      case ret: (Ret y u)
      with assms(2) [of s x] have "length (script u) \<le> length (script v)" by (simp add: shrinks_def)
      with v Ret ret show ?thesis by (simp add: wp_def bnd_def split: sum.split)
    qed (use Ret in \<open>simp add: wp_def bnd_def\<close>)
  qed (simp add: wp_def bnd_def)
qed

lemma receive_calls: "calls_each_round (receive_round sock fp)"
  unfolding receive_round_def split_beta c_fwrite_def
  by (rule calls_takes, erule readnbytes_takes [rotated], simp, intro tcp_shrinks)

text \<open>The file holds what was received, without the last bytes when a read has failed.\<close>

definition stored_file :: "int \<Rightarrow> int \<Rightarrow> entry list \<Rightarrow> bool" where
  "stored_file sock fp t \<longleftrightarrow>
     (\<exists>lost. bytes_read sock t = file_out fp t @ lost \<and> length lost < 1024 \<and>
        (last (read_results sock t) = 0 \<longrightarrow> lost = []))"

lemma receive_law:
  "wpt (repeat_io (receive_round sock fp) 0)
     (\<lambda>cnt t. stored_file sock fp t \<and> cnt = to_int32 (int (length (file_out fp t))) \<and>
        accepted t = [] \<and> closed t = [])
     (\<lambda>s t. blocked s \<or> faulted s) []"
proof (rule wpt_repeat [where I = "\<lambda>cnt t. bytes_read sock t = file_out fp t \<and>
      cnt = to_int32 (int (length (file_out fp t))) \<and> accepted t = [] \<and> closed t = []", OF receive_calls], goal_cases)
  case (1 cnt t)
  show ?case
    unfolding receive_round_def c_fwrite_def
    by (rule wpt_bnd, rule wpt_frame [OF readnbytes_law [where fp = fp]])
      (use 1 in \<open>auto intro!: tcp_intros simp: read_all_def stored_file_def to_int32_add_left\<close>)
qed (simp add: to_int32_def)

lemma receive_server_law:
  "wpt receive_server
     (\<lambda>n t. n = 0 \<and> (\<exists>sock fp. accepted t = [sock] \<and> closed t = [sock] \<and> stored_file sock fp t \<and>
        show_int (to_int32 (int (length (file_out fp t)))) @ '' bytes of data received'' @ [LF] \<in> set (printed t)))
     (\<lambda>s t. blocked s \<or> faulted s \<or> exits_1 s) []"
  unfolding receive_server_def listen_on_def c_fclose_def seqs_simps
  by (intro wpt_accept_from tcp_intros wpt_frame [OF receive_law])
    (auto intro!: tcp_intros simp: stored_file_def)

lemma send_calls: "calls_each_round (send_round sock fp)"
proof (cases "fp = 0")
  case True
  then show ?thesis by (simp add: send_round_def c_fread_def calls_each_round_def wp_simps)
next
  case False
  show ?thesis
    unfolding send_round_def c_fread_def if_not_P [OF False] bnd_assoc bnd_ret
    by (intro calls_first tcp_shrinks)
qed

text \<open>Every byte of the file was given to \<open>write\<close>.\<close>

lemma send_law:
  "wpt (repeat_io (send_round sock fp) 0)
     (\<lambda>r t. case r of
        None \<Rightarrow> True
      | Some cnt \<Rightarrow> bytes_offered sock t = file_in fp t \<and> closed t = [] \<and> cnt = to_int32 (int (length (file_in fp t))))
     (\<lambda>s t. blocked s \<or> faulted s) []"
proof (rule wpt_repeat [where I = "\<lambda>cnt t. bytes_offered sock t = file_in fp t \<and> closed t = [] \<and>
      cnt = to_int32 (int (length (file_in fp t)))", OF send_calls], goal_cases)
  case (1 cnt t)
  show ?case
    unfolding send_round_def c_fread_def
    by (intro tcp_intros wpt_write)
      (use 1 in \<open>auto simp: norm_reply_def to_int32_add_left\<close>)
qed (simp add: to_int32_def)

lemma send_client_law:
  "wpt send_client
     (\<lambda>n t. n = -1 \<or> n = 0 \<and> (\<exists>sock fp. closed t = [sock] \<and> bytes_offered sock t = file_in fp t \<and>
        show_int (to_int32 (int (length (file_in fp t)))) @ '' bytes of data sent'' @ [LF] \<in> set (printed t)))
     (\<lambda>s t. blocked s \<or> faulted s) []"
  unfolding send_client_def c_fclose_def seqs_simps
  by (intro client_intros wpt_frame [OF send_law])
    (auto intro!: tcp_intros split: option.split)

section \<open>Properties\<close>

text \<open>
  \<open>readnbytes\<close> returns the number of the bytes it has stored, which are all that the reads
  delivered, and returns less than was asked for only at the end of the input; or it returns -1
  because the last read has failed.  It never spins: a run that does not return waits in a call.
\<close>

theorem readnbytes_complete:
  "case readnbytes fd n w of
     Ret (v, got) w' \<Rightarrow> \<exists>t. trace w' = trace w @ t \<and> bytes_read fd t = got \<and> length got \<le> n \<and>
       (v = int (length got) \<and> (length got = n \<or> last (read_results fd t) = 0) \<or>
        v = -1 \<and> last (read_results fd t) = -1)
   | Stop s w' \<Rightarrow> blocked s"
  using wpt_case [OF readnbytes_law [of fd n 0], of w]
  by (cases "readnbytes fd n w") (auto simp: read_all_def)


end
