(* ===== verification/Err_Reports.thy ===== *)
theory Err_Reports
  imports Tcp_Concurrent Getopt
begin

text \<open>
  The programs of Lectures 3 to 5 that report errors with \<open>err_sys\<close>, \<open>err_ret\<close> and \<open>err_quit\<close>: the
  shell of \<^verbatim>\<open>Lecture3/process_control\<close>, \<^verbatim>\<open>Lecture4/directory\<close>, \<^verbatim>\<open>Lecture4/file_hole\<close> and
  \<^verbatim>\<open>myFile_hole\<close>, \<^verbatim>\<open>Lecture5/daytime\<close>; and \<^verbatim>\<open>Lecture3/getopt\<close>.

  \<open>err_doit\<close> stores texts into an array, and its length matters; the text of an error is the
  parameter \<open>strerror\<close>.  A call whose reply carries text (\<open>readdir\<close>, \<open>ctime\<close>) does so in \<open>dat\<close>.
\<close>

definition ERR_MAXLINE :: nat where "ERR_MAXLINE = 4096"

section \<open>Reports\<close>

text \<open>
  \<open>vsnprintf\<close> and \<open>snprintf\<close> cut their text to the room there is; \<open>strcat\<close> does not, and needs room
  for the newline and the NUL.
\<close>

definition err_doit :: "(int \<Rightarrow> string) \<Rightarrow> bool \<Rightarrow> int \<Rightarrow> string \<Rightarrow> unit io" where
  "err_doit strerror errnoflag error msg =
     (let buf = take (ERR_MAXLINE - 1) msg;
          buf' = (if errnoflag then buf @ take (ERR_MAXLINE - length buf - 1) ('': '' @ strerror error) else buf)
      in if length buf' + 2 \<le> ERR_MAXLINE then c_eprint (buf' @ [LF])
         else c_fault ''strcat past the end of an array'')"

definition err_ret :: "(int \<Rightarrow> string) \<Rightarrow> string \<Rightarrow> unit io" where
  "err_ret strerror msg = bnd get_errno (\<lambda>e. err_doit strerror True e msg)"

definition err_sys :: "(int \<Rightarrow> string) \<Rightarrow> string \<Rightarrow> 'a io" where
  "err_sys strerror msg = bnd get_errno (\<lambda>e. thn (err_doit strerror True e msg) (c_exit 1))"

definition err_quit :: "string \<Rightarrow> 'a io" where
  "err_quit msg = thn (c_eprint msg) (c_exit EXIT_FAILURE)"

text \<open>The report is complete when it fits, and stored past the end of the array otherwise.\<close>

lemma err_doit_run:
  "err_doit strerror True e msg w =
     (if length msg + length (strerror e) + 4 \<le> ERR_MAXLINE
      then Ret () (log_act (AErr (msg @ '': '' @ strerror e @ [LF])) w)
      else Stop (Fault ''strcat past the end of an array'') w)"
  by (auto simp: err_doit_def Let_def c_eprint_def ERR_MAXLINE_def min_def)

section \<open>The shell\<close>

text \<open>
  A line that begins with NUL makes the shell look at the byte before the array, and store there
  if it is a newline; that is undefined from the first access on, and a fault here.
  \<open>execlp\<close> returns when it fails, otherwise the process runs another program.  The apostrophe of
  the message is a character of three bytes.
\<close>

definition execlp :: "string \<Rightarrow> 'a io \<Rightarrow> 'a io" where
  "execlp buf k = bnd (sysi (CSys (''execlp '' @ buf) [])) (\<lambda>rc. if rc = -1 then k else halt (Replaced buf))"

definition could_not :: string where
  "could_not = ''couldn'' @ [CHR 0xE2, CHR 0x80, CHR 0x99] @ ''t execute: ''"

definition shell_round :: "(int \<Rightarrow> string) \<Rightarrow> unit \<Rightarrow> (unit + unit) io" where
  "shell_round strerror u =
     bnd (call (CFgets ERR_MAXLINE)) (\<lambda>r.
     if rv r = 0 then leave ()
     else
       (let line = cstr (dat r) in
        if line = [] then c_fault ''array index -1''
        else
          (let buf = (if last line = LF then butlast line else line) in
           bnd (sysi CFork) (\<lambda>pid.
           if pid < 0 then err_sys strerror ''fork error''
           else if pid = 0 then execlp buf (thn (err_ret strerror (could_not @ buf)) (c_exit 127))
           else
             bnd (sysi (CWaitpid pid 0)) (\<lambda>p.
             if p < 0 then err_sys strerror ''waitpid error''
             else thn (c_print ''% '') (go ()))))))"

definition shell :: "(int \<Rightarrow> string) \<Rightarrow> unit io" where
  "shell strerror =
     thn (c_print ''% '') (bnd (repeat_io (shell_round strerror) ()) (\<lambda>_. c_exit 0))"

section \<open>Directories and files\<close>

definition directory :: "(int \<Rightarrow> string) \<Rightarrow> string list \<Rightarrow> int io" where
  "directory strerror argv =
     (if length argv \<noteq> 2 then err_quit ''a single argument (the directory name) is required''
      else
        bnd (sysi (CSys (''opendir '' @ argv ! 1) [])) (\<lambda>dp.
        if dp = 0 then err_sys strerror (''can't open '' @ argv ! 1)
        else
          thn (repeat_io (\<lambda>u.
            bnd (call (CSys ''readdir'' [dp])) (\<lambda>r.
            if rv r = 0 then leave () else thn (say (cstr (dat r))) (go ()))) ())
          (thn (act (ASys ''closedir'' [dp])) (ret 0))))"

definition buf1 :: bytes where "buf1 = ''abcdefghij''"
definition buf2 :: bytes where "buf2 = ''ABCDEFGHIJ''"

text \<open>The two programs differ in the texts of their messages and in how \<open>main\<close> ends.\<close>

definition write_ten :: "(int \<Rightarrow> string) \<Rightarrow> int \<Rightarrow> bytes \<Rightarrow> string \<Rightarrow> 'a io \<Rightarrow> 'a io" where
  "write_ten strerror fd buf msg k =
     bnd (c_write fd buf 10) (\<lambda>n. if n \<noteq> 10 then err_sys strerror msg else k)"

definition file_hole :: "(int \<Rightarrow> string) \<Rightarrow> int io" where
  "file_hole strerror =
     bnd (sysi (CSys ''creat file.hole'' [])) (\<lambda>fd.
     if fd < 0 then err_sys strerror ''creat error''
     else
       write_ten strerror fd buf1 ''buf1 write error'' (
       bnd (sysi (CSys ''lseek SEEK_SET'' [fd, 40])) (\<lambda>rc.
       if rc = -1 then err_sys strerror ''lseek error''
       else write_ten strerror fd buf2 ''buf2 write error'' (c_exit 0))))"

definition myFile_hole :: "(int \<Rightarrow> string) \<Rightarrow> int io" where
  "myFile_hole strerror =
     bnd (sysi (CSys ''creat file.hole'' [])) (\<lambda>fd.
     if fd < 0 then err_sys strerror ''creat error''
     else
       write_ten strerror fd buf1 ''write buf1 error'' (
       bnd (sysi (CSys ''lseek SEEK_SET'' [fd, 40])) (\<lambda>rc.
       if rc < 0 then err_sys strerror ''lseek error''
       else write_ten strerror fd buf2 ''write buf2 error'' (ret 0))))"

section \<open>Daytime\<close>

text \<open>\<open>fputs\<close> returns \<open>EOF\<close> (-1) when it fails.\<close>

definition daytime_client_round :: "(int \<Rightarrow> string) \<Rightarrow> int \<Rightarrow> unit \<Rightarrow> (unit + int) io" where
  "daytime_client_round strerror sockfd u =
     bnd (c_read sockfd ERR_MAXLINE) (\<lambda>(n, d).
     if n > 0 then
       bnd (sysi (CSys (''fputs '' @ cstr d) [])) (\<lambda>rc.
       if rc = -1 then err_sys strerror ''fputs error'' else go ())
     else leave n)"

definition daytime_client :: "(int \<Rightarrow> string) \<Rightarrow> string list \<Rightarrow> unit io" where
  "daytime_client strerror argv =
     (if length argv \<noteq> 2 then err_quit (''usage: '' @ hd argv @ '' <IPaddress>'' @ [LF])
      else
        bnd (sysi (CSocket AF_INET SOCK_STREAM 0)) (\<lambda>sockfd.
        if sockfd < 0 then err_sys strerror ''socket error''
        else
          bnd (call (CSys (''inet_pton '' @ argv ! 1) [AF_INET])) (\<lambda>r.
          if rv r \<le> 0 then err_quit (''inet_pton error for '' @ argv ! 1)
          else
            bnd (sysi (CConnect sockfd (sockaddr_in AF_INET 13 (dat r)))) (\<lambda>rc.
            if rc < 0 then err_sys strerror ''connect error''
            else
              bnd (repeat_io (daytime_client_round strerror sockfd) ()) (\<lambda>n.
              if n < 0 then err_sys strerror ''read error'' else c_exit 0)))))"

text \<open>The servers test no result but that of \<open>setsockopt\<close>; \<open>%.24s\<close> leaves out the newline of \<open>ctime\<close>.\<close>

definition daytime_round :: "int \<Rightarrow> unit \<Rightarrow> (unit + int) io" where
  "daytime_round listenfd u =
     bnd (sysi (CAccept listenfd)) (\<lambda>connfd.
     bnd (call (CSys ''ctime'' [])) (\<lambda>r.
     seqs [send_text connfd (take 24 (cstr (dat r)) @ crlf), c_close connfd] (go ())))"

definition daytime_listen :: "int \<Rightarrow> int io" where
  "daytime_listen listenfd =
     bnd (sysi (CBind listenfd (htons 13))) (\<lambda>_.
     bnd (sysi (CListen listenfd 1024)) (\<lambda>_.
     repeat_io (daytime_round listenfd) ()))"

definition daytime_server :: "int io" where
  "daytime_server = bnd (sysi (CSocket AF_INET SOCK_STREAM 0)) daytime_listen"

definition daytime_server1 :: "int io" where
  "daytime_server1 =
     bnd (sysi (CSocket AF_INET SOCK_STREAM 0)) (\<lambda>listenfd.
     bnd (sysi (CSetsockopt listenfd SOL_SOCKET SO_REUSEADDR)) (\<lambda>rc.
     if rc < 0 then thn (c_perror ''setsockopt err'') (ret (-1)) else daytime_listen listenfd))"

section \<open>Options\<close>

definition lecture_options :: optspec where
  "lecture_options =
     \<lparr>shorts = [(CHR ''h'', False), (CHR ''o'', True), (CHR ''v'', False)],
      longs = [(''help'', False, CHR ''h''), (''output'', True, CHR ''o''), (''verbose'', False, CHR ''v'')]\<rparr>"

definition lecture_usage :: "string \<Rightarrow> (string \<Rightarrow> unit io) \<Rightarrow> int \<Rightarrow> 'a io" where
  "lecture_usage program_name stream exit_code =
     seqs [stream (''Usage: '' @ program_name @ '' options [ inputfile ]'' @ [LF]),
           stream (''  -h --help            Display this usage information.'' @ [LF]
             @ ''  -o --output filename Write output to file.'' @ [LF]
             @ ''  -v --verbose         Print verbose message.'' @ [LF])]
       (c_exit exit_code)"

text \<open>\<open>output_filename\<close> has no value until an option gives it one.\<close>

fun lecture_read_options ::
  "string \<Rightarrow> opt list \<Rightarrow> string option \<Rightarrow> bool \<Rightarrow> (string option \<times> bool) io" where
  "lecture_read_options program_name [] output_filename verbose = ret (output_filename, verbose)"
| "lecture_read_options program_name (Bad_opt # os) output_filename verbose =
     lecture_usage program_name c_eprint 1"
| "lecture_read_options program_name (Opt c arg # os) output_filename verbose =
     (if c = CHR ''h'' then lecture_usage program_name c_print 0
      else if c = CHR ''o'' then lecture_read_options program_name os arg verbose
      else if c = CHR ''v'' then lecture_read_options program_name os output_filename True
      else c_abort)"

definition lecture_getopt :: "string list \<Rightarrow> int io" where
  "lecture_getopt argv =
     (let program_name = hd argv;
          (os, used, operands) = getopt lecture_options (tl argv) in
      bnd (lecture_read_options program_name os None False) (\<lambda>(output_filename, verbose).
      need output_filename (\<lambda>name.
      thn (say (''output file is '' @ name)) (
      seqs (if verbose then map (\<lambda>a. say (''argument: '' @ a)) operands else []) (ret 0)))))"

section \<open>Laws of the reports\<close>

text \<open>A report that does not fit its array.\<close>

definition too_long :: "(int \<Rightarrow> string) \<Rightarrow> string \<Rightarrow> bool" where
  "too_long strerror msg \<longleftrightarrow> (\<exists>e. ERR_MAXLINE < length msg + length (strerror e) + 4)"

lemma wpt_err_ret:
  assumes "\<And>e. Q () (t @ [Act (AErr (msg @ '': '' @ strerror e @ [LF]))])"
    and "too_long strerror msg \<Longrightarrow> E (Fault ''strcat past the end of an array'') t"
  shows "wpt (err_ret strerror msg) Q E t"
proof -
  have "wpt (err_doit strerror True e msg) Q E t" for e
    unfolding wpt_def wp_def err_doit_run using assms
    by (auto simp: too_long_def not_le)
  then show ?thesis
    unfolding err_ret_def by (intro wpt_bnd wpt_prims) simp
qed

lemma err_sys_as_err_ret: "err_sys strerror msg = thn (err_ret strerror msg) (c_exit 1)"
  by (simp add: err_sys_def err_ret_def thn_def bnd_assoc)

lemma wpt_err_sys:
  assumes "\<And>s. E (Exited 1) (t @ [Act (AErr s)])"
    and "too_long strerror msg \<Longrightarrow> E (Fault ''strcat past the end of an array'') t"
  shows "wpt (err_sys strerror msg) Q E t"
  unfolding err_sys_as_err_ret by (intro wpt_thn wpt_err_ret wpt_prims) (use assms in auto)

lemma wpt_err_quit: "(\<And>s. E (Exited 1) (t @ [Act (AErr s)])) \<Longrightarrow> wpt (err_quit msg) Q E t"
  unfolding err_quit_def EXIT_FAILURE_def by (auto intro!: wpt_intros)

lemma shrinks_reports:
  "shrinks (err_ret strerror msg)" "shrinks (err_sys strerror msg)" "shrinks (err_quit msg)"
proof -
  have "shrinks (err_doit strerror True e msg)" for e
    by (auto simp: shrinks_def err_doit_run split: if_splits)
  then show "shrinks (err_ret strerror msg)" "shrinks (err_sys strerror msg)" "shrinks (err_quit msg)"
    unfolding err_ret_def err_sys_def err_quit_def by (auto intro!: shrinks_intros)
qed

lemma exits_1_iff: "exits_1 s \<longleftrightarrow> s = Exited 1"
  by (cases s) auto

lemmas report_intros = wpt_err_ret wpt_err_sys wpt_err_quit conc_intros

section \<open>The shell runs every line\<close>

text \<open>The children a trace has waited for.\<close>

fun waited :: "entry list \<Rightarrow> int list" where
  "waited [] = []"
| "waited (Sys (CWaitpid pid n) r # t) = (if rv r < 0 then [] else [pid]) @ waited t"
| "waited (_ # t) = waited t"

lemma waited_append [simp]: "waited (s @ t) = waited s @ waited t"
  by (induction s rule: waited.induct) auto

definition chomp :: "string \<Rightarrow> string" where
  "chomp l = (if l \<noteq> [] \<and> last l = LF then butlast l else l)"

definition shell_ok :: "entry list \<Rightarrow> bool" where
  "shell_ok t \<longleftrightarrow>
     length (lines_in t) = length (forks t) \<and> waited t = forks t \<and> (\<forall>pid \<in> set (forks t). 0 < pid)"

text \<open>
  How the shell, or a child of it, ends.  After \<open>fork\<close> returned 0 the child calls \<open>execlp\<close> for the
  line it was forked for: it waits in that call, has become the other program, or, \<open>execlp\<close>
  having failed, has reported that and exits with status 127 (or the report does not fit).
\<close>

abbreviation exec_call :: "string \<Rightarrow> reply \<Rightarrow> entry" where
  "exec_call buf r \<equiv> Sys (CSys (''execlp '' @ buf) []) r"

inductive exec_outcome :: "(int \<Rightarrow> string) \<Rightarrow> string \<Rightarrow> stop \<Rightarrow> entry list \<Rightarrow> bool"
  for strerror buf where
  waits: "exec_outcome strerror buf (Blocked (CSys (''execlp '' @ buf) [])) []"
| runs: "rv r \<noteq> -1 \<Longrightarrow> exec_outcome strerror buf (Replaced buf) [exec_call buf r]"
| reports: "rv r = -1 \<Longrightarrow> exec_outcome strerror buf (Exited 127)
    [exec_call buf r, Act (AErr (could_not @ buf @ '': '' @ strerror e @ [LF]))]"
| overflows: "rv r = -1 \<Longrightarrow> too_long strerror (could_not @ buf) \<Longrightarrow>
    exec_outcome strerror buf (Fault ''strcat past the end of an array'') [exec_call buf r]"

definition shell_child :: "(int \<Rightarrow> string) \<Rightarrow> stop \<Rightarrow> entry list \<Rightarrow> bool" where
  "shell_child strerror s t \<longleftrightarrow>
     (\<exists>ls l. lines_in t = ls @ [l] \<and> forks t = waited t @ [0] \<and> length ls = length (waited t) \<and>
        (\<exists>u f v. t = u @ Sys CFork f # v \<and> rv f = 0 \<and> exec_outcome strerror (chomp l) s v))"

definition shell_fails :: "(int \<Rightarrow> string) \<Rightarrow> stop \<Rightarrow> entry list \<Rightarrow> bool" where
  "shell_fails strerror s t \<longleftrightarrow>
     lines_in t \<noteq> [] \<and>
     (faulted s \<and> last (lines_in t) = [] \<and> forks t = waited t \<or>
      (s = Exited 1 \<or> faulted s \<and> (too_long strerror ''fork error'' \<or> too_long strerror ''waitpid error'')) \<and>
      (\<exists>pid. forks t = waited t @ [pid] \<and> pid \<noteq> 0))"

definition shell_end :: "(int \<Rightarrow> string) \<Rightarrow> stop \<Rightarrow> entry list \<Rightarrow> bool" where
  "shell_end strerror s t \<longleftrightarrow>
     s = Exited 0 \<and> shell_ok t \<or> blocked s \<or> shell_child strerror s t \<or> shell_fails strerror s t"

lemma wpt_execlp:
  assumes "\<And>r. rv r = -1 \<Longrightarrow> wpt k Q E (t @ [exec_call buf r])"
    and "\<And>r. rv r \<noteq> -1 \<Longrightarrow> E (Replaced buf) (t @ [exec_call buf r])"
    and "E (Blocked (CSys (''execlp '' @ buf) [])) t"
  shows "wpt (execlp buf k) Q E t"
  unfolding execlp_def by (intro wpt_intros) (use assms in \<open>auto simp: norm_reply_def\<close>)

text \<open>The part of a round that the child runs.\<close>

lemma shell_child_law:
  assumes "lines_in t = ls @ [l]" "forks t = waited t @ [0]" "length ls = length (waited t)"
    and t: "t = u @ [Sys CFork f]" "rv f = 0"
  shows "wpt (execlp (chomp l) (thn (err_ret strerror (could_not @ chomp l)) (c_exit 127))) Q
    (shell_end strerror) t"
proof -
  have child: "shell_end strerror s (t @ v)"
    if "exec_outcome strerror (chomp l) s v" "lines_in v = []" "forks v = []" "waited v = []" for s v
  proof -
    have "lines_in (t @ v) = ls @ [l]" "forks (t @ v) = waited (t @ v) @ [0]"
      "length ls = length (waited (t @ v))" "t @ v = u @ Sys CFork f # v"
      using assms(1-3) t(1) that(2-4) by simp_all
    with that(1) t(2) show ?thesis unfolding shell_end_def shell_child_def by blast
  qed
  show ?thesis
  proof (intro wpt_execlp report_intros)
    fix r r' :: reply and e
    show "shell_end strerror (Blocked (CSys (''execlp '' @ chomp l) [])) t"
      using child [OF exec_outcome.waits] by simp
    show "shell_end strerror (Replaced (chomp l)) (t @ [exec_call (chomp l) r])" if "rv r \<noteq> -1"
      by (rule child [OF exec_outcome.runs [OF that]]) simp_all
    show "shell_end strerror (Exited 127) ((t @ [exec_call (chomp l) r]) @
        [Act (AErr ((could_not @ chomp l) @ '': '' @ strerror e @ [LF]))])" if "rv r = -1"
      using child [OF exec_outcome.reports [OF that, of strerror "chomp l" e]] by simp
    show "shell_end strerror (Fault ''strcat past the end of an array'') (t @ [exec_call (chomp l) r])"
      if "rv r = -1" "too_long strerror (could_not @ chomp l)"
      by (rule child [OF exec_outcome.overflows [OF that]]) simp_all
  qed
qed

lemma shell_round_law:
  assumes "shell_ok t" and "\<And>x t'. shell_ok t' \<Longrightarrow> Q x t'"
  shows "wpt (shell_round strerror u) Q (shell_end strerror) t"
  unfolding shell_round_def Let_def
proof (intro report_intros assms(2))
  fix r f :: reply
  let ?r = "norm_reply (CFgets ERR_MAXLINE) r" and ?f = "norm_reply CFork f"
  let ?l = "cstr (dat ?r)"
  assume "rv ?r \<noteq> 0" "?l \<noteq> []" "rv ?f = 0"
  then have "wpt (execlp (chomp ?l) (thn (err_ret strerror (could_not @ chomp ?l)) (c_exit 127))) Q
      (shell_end strerror) (t @ [Sys (CFgets ERR_MAXLINE) ?r, Sys CFork ?f])"
    by (intro shell_child_law [where ls = "lines_in t" and u = "t @ [Sys (CFgets ERR_MAXLINE) ?r]" and f = ?f])
      (use assms(1) in \<open>simp_all add: shell_ok_def\<close>)
  then show "wpt (execlp (if last ?l = LF then butlast ?l else ?l)
      (thn (err_ret strerror (could_not @ (if last ?l = LF then butlast ?l else ?l))) (c_exit 127))) Q
      (shell_end strerror) ((t @ [Sys (CFgets ERR_MAXLINE) ?r]) @ [Sys CFork ?f])"
    using \<open>?l \<noteq> []\<close> by (simp add: chomp_def)
qed (use assms(1) in \<open>auto simp: shell_ok_def shell_end_def shell_fails_def norm_reply_def\<close>)

lemma shell_round_calls: "calls_each_round (shell_round strerror)"
  unfolding shell_round_def Let_def execlp_def
  by (intro calls_first tcp_shrinks shrinks_reports)

lemma shell_law: "wpt (shell strerror) (\<lambda>_ _. False) (shell_end strerror) []"
  unfolding shell_def
  by (intro report_intros wpt_repeat [where I = "\<lambda>_ t. shell_ok t", OF shell_round_calls]
      shell_round_law)
    (auto simp: shell_ok_def shell_end_def intro!: wpt_prims split: sum.split)

section \<open>The file with a hole\<close>

text \<open>The bytes of the file and the offset, after the calls of a trace.\<close>

fun file_state :: "entry list \<Rightarrow> bytes \<times> nat \<Rightarrow> bytes \<times> nat" where
  "file_state [] f = f"
| "file_state (Sys (CWrite fd b) r # t) (f, p) =
     file_state t
       (if rv r < 0 then (f, p)
        else (let d = take (nat (rv r)) b in
              (take p (f @ replicate p NUL) @ d @ drop (p + length d) f, p + length d)))"
| "file_state (Sys (CSys name [fd, k]) r # t) (f, p) =
     file_state t (f, if name = ''lseek SEEK_SET'' \<and> rv r \<noteq> -1 then nat k else p)"
| "file_state (_ # t) f = file_state t f"

definition hole_bytes :: bytes where
  "hole_bytes = ''abcdefghij'' @ replicate 30 NUL @ ''ABCDEFGHIJ''"

lemma wpt_write_ten:
  assumes "length buf = 10"
    and "\<And>r. rv r = 10 \<Longrightarrow> wpt k Q E (t @ [Sys (CWrite fd buf) r])"
    and "\<And>t'. E (Exited 1) t'" "\<And>t' c. E (Blocked c) t'" "\<And>t' f. E (Fault f) t'"
  shows "wpt (write_ten strerror fd buf msg k) Q E t"
  unfolding write_ten_def
  by (intro wpt_bnd wpt_write wpt_if wpt_err_sys assms(2-5)) (use assms(1) in auto)

text \<open>A program that makes the file with the hole, or fails.\<close>

definition hole_made :: "entry list \<Rightarrow> bool" where
  "hole_made t \<longleftrightarrow> file_state t ([], 0) = (hole_bytes, 50)"

lemma length_bufs: "length buf1 = 10" "length buf2 = 10"
  by (simp_all add: buf1_def buf2_def)

lemma hole_parts: "buf1 @ replicate 30 NUL @ buf2 = hole_bytes"
  by (simp add: buf1_def buf2_def hole_bytes_def)

lemma file_hole_law:
  "wpt (file_hole strerror) (\<lambda>_ _. False)
     (\<lambda>s t. s = Exited 0 \<and> hole_made t \<or> exits_1 s \<or> blocked s \<or> faulted s) []"
  unfolding file_hole_def
  by (intro wpt_write_ten length_bufs wpt_bnd wpt_derived wpt_if wpt_err_sys wpt_prims)
    (simp_all add: hole_made_def length_bufs hole_parts norm_reply_def)

lemma myFile_hole_law:
  "wpt (myFile_hole strerror) (\<lambda>n t. n = 0 \<and> hole_made t)
     (\<lambda>s t. exits_1 s \<or> blocked s \<or> faulted s) []"
  unfolding myFile_hole_def
  by (intro wpt_write_ten length_bufs wpt_bnd wpt_derived wpt_if wpt_err_sys wpt_prims)
    (simp_all add: hole_made_def length_bufs hole_parts norm_reply_def)

section \<open>The daytime servers\<close>

text \<open>The results of \<open>accept\<close>, also -1, and the texts of \<open>ctime\<close>, in a trace.\<close>

fun accept_results :: "entry list \<Rightarrow> int list" where
  "accept_results [] = []"
| "accept_results (Sys (CAccept fd) r # t) = rv r # accept_results t"
| "accept_results (_ # t) = accept_results t"

fun ctimes :: "entry list \<Rightarrow> string list" where
  "ctimes [] = []"
| "ctimes (Sys (CSys f ns) r # t) = (if f = ''ctime'' then [cstr (dat r)] else []) @ ctimes t"
| "ctimes (_ # t) = ctimes t"

lemma accept_results_append [simp]: "accept_results (s @ t) = accept_results s @ accept_results t"
  by (induction s rule: accept_results.induct) auto

lemma times_append [simp]: "ctimes (s @ t) = ctimes s @ ctimes t"
  by (induction s rule: ctimes.induct) auto

definition told :: "string \<Rightarrow> bytes" where
  "told time = take 24 time @ crlf"

text \<open>Every result of \<open>accept\<close> has been told the time once, in order, and closed.\<close>

definition told_all :: "entry list \<Rightarrow> bool" where
  "told_all t \<longleftrightarrow>
     length (ctimes t) = length (accept_results t) \<and> closed t = accept_results t \<and>
     writes t = zip (accept_results t) (map told (ctimes t))"

definition daytime_end :: "stop \<Rightarrow> entry list \<Rightarrow> bool" where
  "daytime_end s t \<longleftrightarrow> blocked s \<and>
     (\<exists>u v. t = u @ v \<and> told_all u \<and> length (accept_results v) \<le> 1 \<and> closed v = [] \<and> writes v = [])"

lemma daytime_endI:
  "told_all t \<Longrightarrow> length (accept_results v) \<le> 1 \<Longrightarrow> closed v = [] \<Longrightarrow> writes v = [] \<Longrightarrow>
   daytime_end (Blocked c) (t @ v)"
  unfolding daytime_end_def by auto

lemma daytime_round_law:
  assumes "told_all t"
  shows "wpt (daytime_round listenfd u)
    (\<lambda>x t'. case x of Inr b \<Rightarrow> False | Inl s' \<Rightarrow> told_all t') daytime_end t"
  unfolding daytime_round_def seqs_simps
  by (intro conc_intros)
    (use assms daytime_endI [OF assms] daytime_endI [OF assms, of "[]"] in
      \<open>simp_all add: told_all_def told_def norm_reply_def\<close>)

lemma daytime_round_calls: "calls_each_round (daytime_round listenfd)"
  unfolding daytime_round_def sysi_def bnd_assoc bnd_ret seqs_simps
  by (intro calls_first tcp_shrinks)

lemma daytime_listen_law:
  assumes "told_all t"
  shows "wpt (daytime_listen listenfd) Q daytime_end t"
  unfolding daytime_listen_def
  by (intro conc_intros wpt_repeat [where I = "\<lambda>_ t. told_all t", OF daytime_round_calls]
      daytime_round_law [THEN wpt_conseq])
    (use assms daytime_endI [of _ "[]"] in \<open>auto simp: told_all_def split: sum.splits\<close>)

lemma daytime_server_law: "wpt daytime_server (\<lambda>_ _. False) daytime_end []"
  unfolding daytime_server_def
  by (intro wpt_bnd wpt_derived daytime_listen_law)
    (use daytime_endI [of "[]" "[]"] in \<open>auto simp: told_all_def\<close>)

lemma daytime_server1_law: "wpt daytime_server1 (\<lambda>n t. n = -1 \<and> writes t = []) daytime_end []"
  unfolding daytime_server1_def
  by (intro conc_intros daytime_listen_law)
    (use daytime_endI [of _ "[]"] in \<open>auto simp: told_all_def\<close>)

section \<open>A directory\<close>

text \<open>The names that \<open>readdir\<close> gave.\<close>

fun names_read :: "entry list \<Rightarrow> string list" where
  "names_read [] = []"
| "names_read (Sys (CSys f ns) r # t) =
     (if f = ''readdir'' \<and> rv r \<noteq> 0 then [cstr (dat r)] else []) @ names_read t"
| "names_read (_ # t) = names_read t"

lemma names_read_append [simp]: "names_read (s @ t) = names_read s @ names_read t"
  by (induction s rule: names_read.induct) auto

definition listed :: "entry list \<Rightarrow> bool" where
  "listed t \<longleftrightarrow> printed t = map (\<lambda>name. name @ [LF]) (names_read t)"

lemma directory_round_calls:
  "calls_each_round (\<lambda>u::unit. bnd (call (CSys ''readdir'' [dp])) (\<lambda>r.
     if rv r = 0 then leave () else thn (say (cstr (dat r))) (go ())))"
  by (intro calls_first tcp_shrinks)

lemma directory_law:
  "wpt (directory strerror argv) (\<lambda>n t. n = 0 \<and> length argv = 2 \<and> listed t)
     (\<lambda>s t. (exits_1 s \<or> blocked s \<or> faulted s) \<and> listed t) []"
  unfolding directory_def
  by (intro report_intros wpt_repeat [where I = "\<lambda>_ t. listed t", OF directory_round_calls])
    (auto simp: listed_def norm_reply_def intro!: wpt_thn wpt_prims)

section \<open>The client of the daytime servers\<close>

text \<open>What was printed is what was read, piece by piece, up to the last piece.\<close>

fun pieces :: "entry list \<Rightarrow> string list" where
  "pieces [] = []"
| "pieces (Sys (CRead fd n) r # t) = (if 0 < rv r then [cstr (dat r)] else []) @ pieces t"
| "pieces (_ # t) = pieces t"

fun put_out :: "entry list \<Rightarrow> string list" where
  "put_out [] = []"
| "put_out (Sys (CSys f ns) r # t) = (if take 6 f = ''fputs '' then [drop 6 f] else []) @ put_out t"
| "put_out (_ # t) = put_out t"

lemma pieces_append [simp]: "pieces (s @ t) = pieces s @ pieces t"
  by (induction s rule: pieces.induct) auto

lemma put_out_append [simp]: "put_out (s @ t) = put_out s @ put_out t"
  by (induction s rule: put_out.induct) auto

lemma daytime_client_calls: "calls_each_round (daytime_client_round strerror sockfd)"
  unfolding daytime_client_round_def c_read_def bnd_assoc bnd_ret split_beta
  by (intro calls_first tcp_shrinks shrinks_reports)

lemma daytime_client_law:
  "wpt (daytime_client strerror argv) (\<lambda>_ _. False)
     (\<lambda>s t. s = Exited 0 \<and> length argv = 2 \<and> put_out t = pieces t \<or> exits_1 s \<or> blocked s \<or> faulted s) []"
  unfolding daytime_client_def daytime_client_round_def
  by (intro report_intros wpt_read
      wpt_repeat [where I = "\<lambda>_ t. put_out t = pieces t", OF daytime_client_calls [unfolded daytime_client_round_def]])
    (auto simp: norm_reply_def intro!: wpt_if report_intros)

section \<open>Options\<close>

text \<open>Without the option that names the output file, its name is used without a value.\<close>

lemma lecture_options_without_output:
  "(\<forall>os. os \<in> set ops \<longrightarrow> os = Opt (CHR ''v'') None) \<Longrightarrow>
   lecture_read_options p ops None v w = Ret (None, v \<or> ops \<noteq> []) w"
  by (induction ops arbitrary: v) (auto simp: ret_def)

lemma lecture_getopt_without_output:
  assumes "getopt lecture_options (tl argv) = (ops, used, operands)"
    and "\<forall>os. os \<in> set ops \<longrightarrow> os = Opt (CHR ''v'') None"
  shows "lecture_getopt argv w = Stop (Fault ''indeterminate value'') w"
  unfolding lecture_getopt_def assms(1)
  using lecture_options_without_output [OF assms(2), of "hd argv" False w]
  by (simp add: bnd_def need_def)

section \<open>Properties\<close>

text \<open>
  C35. The shell never returns.  It exits with status 0 only after as many lines as children, each of
  which it has waited for, one after the other.  A child calls \<open>execlp\<close> for the line it was made for,
  without the newline, and becomes that program; only when the call has failed it reports that
  and exits with status 127.  Otherwise \<open>fork\<close> or \<open>waitpid\<close> failed, a
  line began with a NUL, which leads to a store before the array, or a report did not fit.
\<close>

theorem shell_runs_every_line:
  "case shell strerror w of
     Ret u w' \<Rightarrow> False
   | Stop s w' \<Rightarrow> \<exists>t. trace w' = trace w @ t \<and> shell_end strerror s t"
  using wpt_case [OF shell_law [of strerror], of w] by (cases "shell strerror w") auto

text \<open>
  A run of one of the programs that make a file with a hole which ends with status 0 has left ten
  letters, thirty NUL bytes and ten letters in the file, and the offset at 50; otherwise it exits
  with status 1 (or waits, or its report does not fit).
\<close>

theorem file_holes_made:
  "(case file_hole strerror w of
      Ret n w' \<Rightarrow> False
    | Stop s w' \<Rightarrow> \<exists>t. trace w' = trace w @ t \<and>
        (s = Exited 0 \<and> file_state t ([], 0) = (hole_bytes, 50) \<or> s = Exited 1 \<or> blocked s \<or> faulted s)) \<and>
   (case myFile_hole strerror w of
      Ret n w' \<Rightarrow> n = 0 \<and> (\<exists>t. trace w' = trace w @ t \<and> file_state t ([], 0) = (hole_bytes, 50))
    | Stop s w' \<Rightarrow> s = Exited 1 \<or> blocked s \<or> faulted s)"
  using wpt_case [OF file_hole_law [of strerror], of w] wpt_case [OF myFile_hole_law [of strerror], of w]
  by (auto simp: hole_made_def exits_1_iff split: result.splits)

text \<open>
  C36. The daytime servers tell everyone the time: they never return (but for \<open>setsockopt\<close>), only wait,
  and have written to every result of \<open>accept\<close> the first 24 characters of the time read for
  it and a line end, in order, and closed it, up to the one they are serving.  As they do not test
  it, a failed \<open>accept\<close> is served too.  The client that exits with status 0 has put out
  what it read, each piece up to its first NUL.
\<close>

theorem daytime_told_to_all:
  "(case daytime_server w of
      Ret n w' \<Rightarrow> False
    | Stop s w' \<Rightarrow> \<exists>t. trace w' = trace w @ t \<and> daytime_end s t) \<and>
   (case daytime_server1 w of
      Ret n w' \<Rightarrow> \<exists>t. trace w' = trace w @ t \<and> n = -1 \<and> writes t = []
    | Stop s w' \<Rightarrow> \<exists>t. trace w' = trace w @ t \<and> daytime_end s t) \<and>
   (case daytime_client strerror argv w of
      Ret u w' \<Rightarrow> False
    | Stop s w' \<Rightarrow> \<exists>t. trace w' = trace w @ t \<and>
        (s = Exited 0 \<and> put_out t = pieces t \<or> s = Exited 1 \<or> blocked s \<or> faulted s))"
  using wpt_case [OF daytime_server_law, of w] wpt_case [OF daytime_server1_law, of w]
    wpt_case [OF daytime_client_law [of strerror argv], of w]
  by (auto simp: exits_1_iff split: result.splits)

text \<open>The names of a directory are printed in the order in which \<open>readdir\<close> gives them.\<close>

theorem directory_lists_names:
  "case directory strerror argv w of
     Ret n w' \<Rightarrow> \<exists>t. trace w' = trace w @ t \<and> n = 0 \<and> length argv = 2 \<and>
       printed t = map (\<lambda>name. name @ [LF]) (names_read t)
   | Stop s w' \<Rightarrow> exits_1 s \<or> blocked s \<or> faulted s"
  using wpt_case [OF directory_law [of strerror argv], of w] by (auto simp: listed_def split: result.splits)

end
