(* ===== verification/Cond_Queue.thy ===== *)
theory Cond_Queue
  imports Transition
begin

text \<open>
  \<^verbatim>\<open>src/Lecture9/cond_variable/main.c\<close>: four producers put messages into a linked list in the
  heap, one consumer takes them out; a mutex guards the list and a condition variable tells the
  consumer that there is something to do.  After the producers have ended, \<open>main\<close> starts a thread
  that clears the flag \<open>running\<close>, and joins the consumer.

  A pointer is an address or null (\<open>None\<close>).  A step is what a thread does between two points
  where another one can interfere; \<open>pthread_cond_wait\<close> releases the mutex and waits in one step,
  and takes it again after it was woken up.  \<open>malloc\<close> returns any address not in use.  The flag
  \<open>spurious\<close> of the step relation allows the wakeups without a signal that POSIX allows.  The
  library calls succeed.
\<close>

record msg =
  nxt :: "nat option"
  data :: int

type_synonym heap = "nat \<Rightarrow> msg option"

datatype tid = Consumer | Producer nat | Stopper

datatype consumer_pc = K_lock | K_test | K_wait | K_relock | K_check | K_exit | K_take | K_unlock | K_process | K_free | K_done

datatype enqueue_pc = E_new | E_lock | E_test | E_walk | E_link | E_signal | E_unlock | E_done

datatype stop_pc = S_lock | S_clear | S_unlock | S_signal | S_done

datatype main_pc = M_consumer | M_create nat | M_join nat | M_stop | M_join_stop | M_join_consumer | M_done

record enqueuer =
  epc :: enqueue_pc
  edata :: int
  new_msg :: nat
  last_msg :: nat

record cq =
  heap :: heap
  workq :: "nat option"
  qlock :: "tid option"
  running :: bool
  kpc :: consumer_pc
  taken_msg :: nat
  enqueuers :: "enqueuer list"
  spc :: stop_pc
  cq_main :: main_pc
  processing :: "int list"

text \<open>The data \<open>main\<close> gives to the producers.\<close>

definition messages :: "int list" where
  "messages = [2, 0, 1, 8]"

text \<open>\<open>lock\<close> and \<open>unlock\<close> for the thread \<open>me\<close>; null pointers are not followed.\<close>

definition locking :: "tid \<Rightarrow> cq \<Rightarrow> (cq \<Rightarrow> cq) \<Rightarrow> cq option" where
  "locking me s k = (if qlock s = None then Some (k (s\<lparr>qlock := Some me\<rparr>)) else None)"

text \<open>A step of \<open>process_msg\<close>.\<close>

definition process_step :: "cq \<Rightarrow> cq option" where
  "process_step s =
     (case kpc s of
        K_lock \<Rightarrow> locking Consumer s (\<lambda>s. s\<lparr>kpc := K_test\<rparr>)
      | K_test \<Rightarrow>
          (if running s \<and> workq s = None then Some (s\<lparr>kpc := K_wait, qlock := None\<rparr>)
           else Some (s\<lparr>kpc := K_check\<rparr>))
      | K_wait \<Rightarrow> None
      | K_relock \<Rightarrow> locking Consumer s (\<lambda>s. s\<lparr>kpc := K_test\<rparr>)
      | K_check \<Rightarrow> Some (s\<lparr>kpc := (if \<not> running s \<and> workq s = None then K_exit else K_take)\<rparr>)
      | K_exit \<Rightarrow> Some (s\<lparr>kpc := K_done, qlock := None\<rparr>)
      | K_take \<Rightarrow>
          (case workq s of
             None \<Rightarrow> None
           | Some a \<Rightarrow> (case heap s a of
               None \<Rightarrow> None
             | Some m \<Rightarrow> Some (s\<lparr>taken_msg := a, workq := nxt m, kpc := K_unlock\<rparr>)))
      | K_unlock \<Rightarrow> Some (s\<lparr>kpc := K_process, qlock := None\<rparr>)
      | K_process \<Rightarrow>
          (case heap s (taken_msg s) of
             None \<Rightarrow> None
           | Some m \<Rightarrow> Some (s\<lparr>processing := processing s @ [data m], kpc := K_free\<rparr>))
      | K_free \<Rightarrow> Some (s\<lparr>heap := (heap s)(taken_msg s := None), kpc := K_lock\<rparr>)
      | K_done \<Rightarrow> None)"

text \<open>\<open>pthread_cond_signal\<close>: the consumer goes on if it waits; the signal is lost otherwise.\<close>

definition signal :: "cq \<Rightarrow> cq" where
  "signal s = (if kpc s = K_wait then s\<lparr>kpc := K_relock\<rparr> else s)"

text \<open>A step of \<open>enqueue_msg\<close> in producer \<open>i\<close>; \<open>a\<close> is the address \<open>malloc\<close> would return.\<close>

definition enqueue_step :: "nat \<Rightarrow> nat \<Rightarrow> cq \<Rightarrow> cq option" where
  "enqueue_step a i s =
     (let e = enqueuers s ! i;
          to = (\<lambda>e'. s\<lparr>enqueuers := (enqueuers s)[i := e']\<rparr>)
      in case epc e of
           E_new \<Rightarrow>
             (if heap s a = None
              then Some ((to (e\<lparr>epc := E_lock, new_msg := a\<rparr>))
                     \<lparr>heap := (heap s)(a \<mapsto> \<lparr>nxt = None, data = edata e\<rparr>)\<rparr>)
              else None)
         | E_lock \<Rightarrow> locking (Producer i) (to (e\<lparr>epc := E_test\<rparr>)) (\<lambda>s. s)
         | E_test \<Rightarrow>
             (case workq s of
                None \<Rightarrow> Some ((to (e\<lparr>epc := E_signal\<rparr>))\<lparr>workq := Some (new_msg e)\<rparr>)
              | Some l \<Rightarrow> Some (to (e\<lparr>epc := E_walk, last_msg := l\<rparr>)))
         | E_walk \<Rightarrow>
             (case heap s (last_msg e) of
                None \<Rightarrow> None
              | Some m \<Rightarrow> (case nxt m of
                  Some l \<Rightarrow> Some (to (e\<lparr>last_msg := l\<rparr>))
                | None \<Rightarrow> Some (to (e\<lparr>epc := E_link\<rparr>))))
         | E_link \<Rightarrow>
             (case heap s (last_msg e) of
                None \<Rightarrow> None
              | Some m \<Rightarrow> Some ((to (e\<lparr>epc := E_signal\<rparr>))
                  \<lparr>heap := (heap s)(last_msg e \<mapsto> m\<lparr>nxt := Some (new_msg e)\<rparr>)\<rparr>))
         | E_signal \<Rightarrow> Some (signal (to (e\<lparr>epc := E_unlock\<rparr>)))
         | E_unlock \<Rightarrow> Some ((to (e\<lparr>epc := E_done\<rparr>))\<lparr>qlock := None\<rparr>)
         | E_done \<Rightarrow> None)"

text \<open>A step of \<open>stop\<close>, which signals after it has released the mutex.\<close>

definition stop_step :: "cq \<Rightarrow> cq option" where
  "stop_step s =
     (case spc s of
        S_lock \<Rightarrow> locking Stopper s (\<lambda>s. s\<lparr>spc := S_clear\<rparr>)
      | S_clear \<Rightarrow> Some (s\<lparr>running := False, spc := S_unlock\<rparr>)
      | S_unlock \<Rightarrow> Some (s\<lparr>spc := S_signal, qlock := None\<rparr>)
      | S_signal \<Rightarrow> Some (signal (s\<lparr>spc := S_done\<rparr>))
      | S_done \<Rightarrow> None)"

definition new_enqueuer :: "nat \<Rightarrow> enqueuer" where
  "new_enqueuer i = \<lparr>epc = E_new, edata = messages ! i, new_msg = 0, last_msg = 0\<rparr>"

definition cq_main_step :: "cq \<Rightarrow> cq option" where
  "cq_main_step s =
     (case cq_main s of
        M_consumer \<Rightarrow> Some (s\<lparr>cq_main := M_create 0\<rparr>)
      | M_create i \<Rightarrow>
          (if i < length messages
           then Some (s\<lparr>enqueuers := enqueuers s @ [new_enqueuer i], cq_main := M_create (Suc i)\<rparr>)
           else Some (s\<lparr>cq_main := M_join 0\<rparr>))
      | M_join i \<Rightarrow>
          (if i < length messages
           then (if epc (enqueuers s ! i) = E_done then Some (s\<lparr>cq_main := M_join (Suc i)\<rparr>) else None)
           else Some (s\<lparr>cq_main := M_stop\<rparr>))
      | M_stop \<Rightarrow> Some (s\<lparr>cq_main := M_join_stop\<rparr>)
      | M_join_stop \<Rightarrow> (if spc s = S_done then Some (s\<lparr>cq_main := M_join_consumer\<rparr>) else None)
      | M_join_consumer \<Rightarrow> (if kpc s = K_done then Some (s\<lparr>cq_main := M_done\<rparr>) else None)
      | M_done \<Rightarrow> None)"

inductive cq_step :: "bool \<Rightarrow> cq \<Rightarrow> cq \<Rightarrow> bool" for spurious where
  consumer: "cq_main s \<noteq> M_consumer \<Longrightarrow> process_step s = Some s' \<Longrightarrow> cq_step spurious s s'"
| woken_up: "spurious \<Longrightarrow> kpc s = K_wait \<Longrightarrow> cq_step spurious s (s\<lparr>kpc := K_relock\<rparr>)"
| enqueuer: "i < length (enqueuers s) \<Longrightarrow> enqueue_step a i s = Some s' \<Longrightarrow> cq_step spurious s s'"
| stopper: "cq_main s = M_join_stop \<Longrightarrow> stop_step s = Some s' \<Longrightarrow> cq_step spurious s s'"
| main: "cq_main_step s = Some s' \<Longrightarrow> cq_step spurious s s'"

definition cq_start :: cq where
  "cq_start =
     \<lparr>heap = \<lambda>_. None, workq = None, qlock = None, running = True, kpc = K_lock, taken_msg = 0, enqueuers = [],
      spc = S_lock, cq_main = M_consumer, processing = []\<rparr>"

definition cq_init :: "cq \<Rightarrow> bool" where
  "cq_init s \<longleftrightarrow> s = cq_start"

section \<open>Linked lists in the heap\<close>

text \<open>The nodes of the list that starts at a pointer.\<close>

fun linked :: "heap \<Rightarrow> nat option \<Rightarrow> nat list \<Rightarrow> bool" where
  "linked h p [] \<longleftrightarrow> p = None"
| "linked h p (a # as) \<longleftrightarrow> p = Some a \<and> (case h a of None \<Rightarrow> False | Some m \<Rightarrow> linked h (nxt m) as)"

definition datum :: "heap \<Rightarrow> nat \<Rightarrow> int" where
  "datum h a = (case h a of None \<Rightarrow> 0 | Some m \<Rightarrow> data m)"

lemma linked_frame: "a \<notin> set as \<Longrightarrow> linked (h(a := x)) p as \<longleftrightarrow> linked h p as"
  by (induction as arbitrary: p) (auto split: option.splits)

lemma linked_dom: "linked h p as \<Longrightarrow> set as \<subseteq> dom h"
  by (induction as arbitrary: p) (auto split: option.splits)

lemma linked_None [simp]: "linked h None as \<longleftrightarrow> as = []"
  by (cases as) auto

lemma linked_unique: "linked h p as \<Longrightarrow> linked h p bs \<Longrightarrow> as = bs"
proof (induction as arbitrary: p bs)
  case Nil
  then show ?case by simp
next
  case (Cons a as)
  then show ?case by (cases bs) (auto split: option.splits)
qed

lemma linked_node: "linked h p as \<Longrightarrow> a \<in> set as \<Longrightarrow> \<exists>m. h a = Some m"
  using linked_dom by fastforce

text \<open>The end of the list, and what follows a node.\<close>

lemma linked_next: "linked h p (xs @ a # ys) \<Longrightarrow> \<exists>m. h a = Some m \<and> linked h (nxt m) ys"
  by (induction xs arbitrary: p) (auto split: option.splits)

lemma linked_last: "linked h p as \<Longrightarrow> a \<in> set as \<Longrightarrow> h a = Some m \<Longrightarrow> nxt m = None \<Longrightarrow> a = last as"
proof -
  assume l: "linked h p as" "a \<in> set as" "h a = Some m" "nxt m = None"
  then obtain xs ys where as: "as = xs @ a # ys" by (meson split_list)
  with l linked_next [of h p xs a ys] show ?thesis by simp
qed

lemma linked_next_in:
  "linked h p as \<Longrightarrow> a \<in> set as \<Longrightarrow> h a = Some m \<Longrightarrow> nxt m = Some b \<Longrightarrow> b \<in> set as"
proof -
  assume l: "linked h p as" "a \<in> set as" "h a = Some m" "nxt m = Some b"
  then obtain xs ys where as: "as = xs @ a # ys" by (meson split_list)
  with l linked_next [of h p xs a ys] show ?thesis by (cases ys) auto
qed

text \<open>A node linked to the end.\<close>

lemma linked_snoc:
  assumes "linked h p as" "as \<noteq> []" "distinct as" "h (last as) = Some m" "h b = Some n" "nxt n = None" "b \<notin> set as"
  shows "linked (h(last as \<mapsto> m\<lparr>nxt := Some b\<rparr>)) p (as @ [b])"
  using assms
proof (induction as arbitrary: p)
  case (Cons a as)
  show ?case
  proof (cases "as = []")
    case True
    with Cons.prems show ?thesis by auto
  next
    case False
    with Cons.prems have "a \<noteq> last as" "linked h (nxt (the (h a))) as" "h a \<noteq> None"
      by (auto split: option.splits)
    with Cons.IH [of "nxt (the (h a))"] Cons.prems False show ?thesis
      by (auto split: option.splits)
  qed
qed simp

text \<open>How many nodes follow from a pointer on.\<close>

definition nodes_from :: "heap \<Rightarrow> nat option \<Rightarrow> nat" where
  "nodes_from h p = (if \<exists>as. linked h p as then length (SOME as. linked h p as) else 0)"

lemma nodes_from_eq: "linked h p as \<Longrightarrow> nodes_from h p = length as"
  by (metis linked_unique nodes_from_def someI)

section \<open>The invariant\<close>

text \<open>
  The control points at which a producer owns a node that is not in the list yet, at which it and
  the consumer hold the mutex, and at which the consumer owns the node it has taken out.
\<close>

fun owning :: "enqueue_pc \<Rightarrow> bool" where
  "owning E_lock = True"
| "owning E_test = True"
| "owning E_walk = True"
| "owning E_link = True"
| "owning _ = False"

fun unsent :: "enqueue_pc \<Rightarrow> bool" where
  "unsent E_new = True"
| "unsent E_lock = True"
| "unsent E_test = True"
| "unsent E_walk = True"
| "unsent E_link = True"
| "unsent _ = False"

fun locked :: "enqueue_pc \<Rightarrow> bool" where
  "locked E_test = True"
| "locked E_walk = True"
| "locked E_link = True"
| "locked E_signal = True"
| "locked E_unlock = True"
| "locked _ = False"

fun guarded :: "consumer_pc \<Rightarrow> bool" where
  "guarded K_test = True"
| "guarded K_check = True"
| "guarded K_exit = True"
| "guarded K_take = True"
| "guarded K_unlock = True"
| "guarded _ = False"

fun in_hand :: "consumer_pc \<Rightarrow> bool" where
  "in_hand K_unlock = True"
| "in_hand K_process = True"
| "in_hand K_free = True"
| "in_hand _ = False"

fun uncounted :: "consumer_pc \<Rightarrow> bool" where
  "uncounted K_unlock = True"
| "uncounted K_process = True"
| "uncounted _ = False"

fun clearing :: "stop_pc \<Rightarrow> bool" where
  "clearing S_clear = True"
| "clearing S_unlock = True"
| "clearing _ = False"

definition owns :: "cq \<Rightarrow> nat \<Rightarrow> bool" where
  "owns s i \<longleftrightarrow> i < length (enqueuers s) \<and> owning (epc (enqueuers s ! i))"

abbreviation node :: "cq \<Rightarrow> nat \<Rightarrow> nat" where
  "node s i \<equiv> new_msg (enqueuers s ! i)"

text \<open>Every node in use has one owner: the list, a producer, or the consumer.\<close>

definition heap_ok :: "nat list \<Rightarrow> cq \<Rightarrow> bool" where
  "heap_ok as s \<longleftrightarrow>
     linked (heap s) (workq s) as \<and> distinct as \<and>
     (\<forall>i. owns s i \<longrightarrow>
        heap s (node s i) = Some \<lparr>nxt = None, data = edata (enqueuers s ! i)\<rparr> \<and> node s i \<notin> set as) \<and>
     (\<forall>i j. owns s i \<longrightarrow> owns s j \<longrightarrow> i \<noteq> j \<longrightarrow> node s i \<noteq> node s j) \<and>
     (in_hand (kpc s) \<longrightarrow>
        heap s (taken_msg s) \<noteq> None \<and> taken_msg s \<notin> set as \<and> (\<forall>i. owns s i \<longrightarrow> node s i \<noteq> taken_msg s)) \<and>
     (\<forall>a. heap s a \<noteq> None \<longrightarrow>
        a \<in> set as \<or> (in_hand (kpc s) \<and> a = taken_msg s) \<or> (\<exists>i. owns s i \<and> a = node s i))"

definition locks_ok :: "cq \<Rightarrow> bool" where
  "locks_ok s \<longleftrightarrow>
     (guarded (kpc s) \<longleftrightarrow> qlock s = Some Consumer) \<and>
     (\<forall>i < length (enqueuers s). locked (epc (enqueuers s ! i)) \<longleftrightarrow> qlock s = Some (Producer i)) \<and>
     (\<forall>i. qlock s = Some (Producer i) \<longrightarrow> i < length (enqueuers s)) \<and>
     (clearing (spc s) \<longleftrightarrow> qlock s = Some Stopper)"

definition walk_ok :: "nat list \<Rightarrow> cq \<Rightarrow> bool" where
  "walk_ok as s \<longleftrightarrow>
     (\<forall>i < length (enqueuers s).
        (epc (enqueuers s ! i) = E_walk \<longrightarrow> last_msg (enqueuers s ! i) \<in> set as) \<and>
        (epc (enqueuers s ! i) = E_link \<longrightarrow> as \<noteq> [] \<and> last_msg (enqueuers s ! i) = last as))"

definition waiting_ok :: "cq \<Rightarrow> bool" where
  "waiting_ok s \<longleftrightarrow>
     (kpc s = K_check \<longrightarrow> running s \<longrightarrow> workq s \<noteq> None) \<and>
     (kpc s = K_take \<longrightarrow> workq s \<noteq> None) \<and>
     (kpc s \<in> {K_exit, K_done} \<longrightarrow> \<not> running s \<and> workq s = None) \<and>
     (kpc s = K_wait \<longrightarrow>
        (workq s = None \<or> (\<exists>i < length (enqueuers s). epc (enqueuers s ! i) = E_signal)) \<and>
        (running s \<or> spc s \<in> {S_unlock, S_signal}))"

text \<open>Every message is with its producer, in the list, with the consumer, or processed.\<close>

definition outstanding :: "enqueuer \<Rightarrow> int multiset" where
  "outstanding e = (if unsent (epc e) then {#edata e#} else {#})"

definition count_ok :: "nat list \<Rightarrow> cq \<Rightarrow> bool" where
  "count_ok as s \<longleftrightarrow>
     (\<forall>i < length (enqueuers s). edata (enqueuers s ! i) = messages ! i) \<and>
     mset (processing s) + (if uncounted (kpc s) then {#datum (heap s) (taken_msg s)#} else {#}) +
       mset (map (datum (heap s)) as) + (\<Sum>e \<leftarrow> enqueuers s. outstanding e) =
     mset (take (length (enqueuers s)) messages)"

definition all_done :: "cq \<Rightarrow> bool" where
  "all_done s \<longleftrightarrow>
     length (enqueuers s) = length messages \<and> (\<forall>e \<in> set (enqueuers s). epc e = E_done)"

definition main_ok :: "cq \<Rightarrow> bool" where
  "main_ok s \<longleftrightarrow>
     (running s \<longleftrightarrow> spc s \<in> {S_lock, S_clear}) \<and>
     (case cq_main s of
        M_consumer \<Rightarrow> enqueuers s = [] \<and> kpc s = K_lock \<and> spc s = S_lock
      | M_create i \<Rightarrow> length (enqueuers s) = i \<and> i \<le> length messages \<and> spc s = S_lock
      | M_join i \<Rightarrow> length (enqueuers s) = length messages \<and> i \<le> length messages \<and>
          (\<forall>j < i. epc (enqueuers s ! j) = E_done) \<and> spc s = S_lock
      | M_stop \<Rightarrow> all_done s \<and> spc s = S_lock
      | M_join_stop \<Rightarrow> all_done s
      | M_join_consumer \<Rightarrow> all_done s \<and> spc s = S_done
      | M_done \<Rightarrow> all_done s \<and> spc s = S_done \<and> kpc s = K_done)"

definition cq_ok :: "nat list \<Rightarrow> cq \<Rightarrow> bool" where
  "cq_ok as s \<longleftrightarrow> heap_ok as s \<and> locks_ok s \<and> walk_ok as s \<and> waiting_ok s \<and> count_ok as s \<and> main_ok s"

definition cq_inv :: "cq \<Rightarrow> bool" where
  "cq_inv s \<longleftrightarrow> (\<exists>as. cq_ok as s)"

lemmas cq_ok_defs = cq_ok_def heap_ok_def owns_def locks_ok_def walk_ok_def waiting_ok_def count_ok_def main_ok_def

lemma cq_inv_init: "cq_init s \<Longrightarrow> cq_inv s"
  unfolding cq_inv_def by (rule exI [of _ "[]"]) (auto simp: cq_init_def cq_start_def cq_ok_defs)

section \<open>The steps of the consumer keep the invariant\<close>

lemma heap_ok_alloc: "heap_ok as s \<Longrightarrow> workq s = Some a \<Longrightarrow> \<exists>m bs. heap s a = Some m \<and> as = a # bs \<and> linked (heap s) (nxt m) bs"
  by (cases as) (auto simp: heap_ok_def split: option.splits)

text \<open>A step of the consumer that leaves the heap and the list alone.\<close>

lemma consumer_moves:
  assumes ok: "cq_ok as s" and active: "cq_main s \<noteq> M_consumer" "kpc s \<noteq> K_done"
    and s': "s' = s\<lparr>kpc := k', qlock := q'\<rparr>"
    and hand: "in_hand k' \<longleftrightarrow> in_hand (kpc s)" "uncounted k' \<longleftrightarrow> uncounted (kpc s)"
    and lock: "guarded k' \<longleftrightarrow> q' = Some Consumer" "\<And>t. t \<noteq> Consumer \<Longrightarrow> q' = Some t \<longleftrightarrow> qlock s = Some t"
    and wait: "waiting_ok s'"
  shows "cq_ok as s'"
proof -
  have "main_ok s'" using ok active unfolding cq_ok_def main_ok_def all_done_def s' by (auto split: main_pc.splits)
  moreover have "locks_ok s'" using ok lock unfolding cq_ok_def locks_ok_def s' by simp
  moreover have "heap_ok as s'" using ok hand(1) unfolding cq_ok_def heap_ok_def owns_def s' by simp
  moreover have "count_ok as s'" using ok hand(2) unfolding cq_ok_def count_ok_def s'
    by (cases "uncounted (kpc s)") simp_all
  moreover have "walk_ok as s'" using ok unfolding cq_ok_def walk_ok_def s' by simp
  ultimately show ?thesis using wait by (simp add: cq_ok_def)
qed

lemma process_step_ok:
  assumes ok: "cq_ok as s" and active: "cq_main s \<noteq> M_consumer" and step: "process_step s = Some s'"
  shows "cq_ok (if kpc s = K_take then tl as else as) s'"
proof -
  have running: "kpc s \<noteq> K_done" using step by (auto simp: process_step_def)
  note move = consumer_moves [OF ok active running]
  have w: "waiting_ok s" and l: "locks_ok s" using ok by (simp_all add: cq_ok_def)
  note defs = process_step_def locking_def waiting_ok_def locks_ok_def
  show ?thesis
  proof (cases "kpc s")
    case K_lock
    have "cq_ok as s'"
      by (rule move [where k' = K_test and q' = "Some Consumer"])
        (use step l w K_lock in \<open>auto simp: defs split: if_splits\<close>)
    with K_lock show ?thesis by simp
  next
    case K_test
    let ?b = "running s \<and> workq s = None"
    have "cq_ok as s'"
      by (rule move [where k' = "if ?b then K_wait else K_check" and q' = "if ?b then None else qlock s"])
        (use step l w K_test in \<open>auto simp: defs split: if_splits\<close>)
    with K_test show ?thesis by simp
  next
    case K_relock
    have "cq_ok as s'"
      by (rule move [where k' = K_test and q' = "Some Consumer"])
        (use step l w K_relock in \<open>auto simp: defs split: if_splits\<close>)
    with K_relock show ?thesis by simp
  next
    case K_check
    have "cq_ok as s'"
      by (rule move [where k' = "if \<not> running s \<and> workq s = None then K_exit else K_take" and q' = "qlock s"])
        (use step l w K_check in \<open>auto simp: defs split: if_splits\<close>)
    with K_check show ?thesis by simp
  next
    case K_exit
    have "cq_ok as s'"
      by (rule move [where k' = K_done and q' = None]) (use step l w K_exit in \<open>auto simp: defs\<close>)
    with K_exit show ?thesis by simp
  next
    case K_unlock
    have "cq_ok as s'"
      by (rule move [where k' = K_process and q' = None]) (use step l w K_unlock in \<open>auto simp: defs\<close>)
    with K_unlock show ?thesis by simp
  next
    case K_take
    obtain a where a: "workq s = Some a" using w K_take by (auto simp: waiting_ok_def)
    have h: "heap_ok as s" using ok by (simp add: cq_ok_def)
    from heap_ok_alloc [OF h a] obtain m bs
      where m: "heap s a = Some m" "as = a # bs" "linked (heap s) (nxt m) bs" by blast
    from step K_take a m have s': "s' = s\<lparr>taken_msg := a, workq := nxt m, kpc := K_unlock\<rparr>"
      by (simp add: process_step_def)
    have "heap_ok bs s'" using h m K_take by (auto simp: heap_ok_def owns_def s')
    moreover have "count_ok bs s'"
      using ok m K_take by (simp add: cq_ok_def count_ok_def s' ac_simps)
    moreover have "walk_ok bs s'"
      using ok l K_take by (auto simp: cq_ok_def walk_ok_def locks_ok_def s')
    moreover have "main_ok s'" "locks_ok s'" "waiting_ok s'"
      using ok l active K_take by (auto simp: cq_ok_def main_ok_def all_done_def locks_ok_def waiting_ok_def s' split: main_pc.splits)
    ultimately show ?thesis using K_take m by (simp add: cq_ok_def)
  next
    case K_process
    have h: "heap_ok as s" using ok by (simp add: cq_ok_def)
    with K_process obtain m where m: "heap s (taken_msg s) = Some m" by (auto simp: heap_ok_def)
    with step K_process have s': "s' = s\<lparr>processing := processing s @ [data m], kpc := K_free\<rparr>"
      by (simp add: process_step_def)
    have "heap_ok as s'" using h K_process by (auto simp: heap_ok_def owns_def s')
    moreover have "count_ok as s'"
      using ok m K_process by (simp add: cq_ok_def count_ok_def datum_def s' ac_simps)
    moreover have "walk_ok as s'" using ok by (auto simp: cq_ok_def walk_ok_def s')
    moreover have "main_ok s'" "locks_ok s'" "waiting_ok s'"
      using ok l active K_process by (auto simp: cq_ok_def main_ok_def all_done_def locks_ok_def waiting_ok_def s' split: main_pc.splits)
    ultimately show ?thesis using K_process by (simp add: cq_ok_def)
  next
    case K_free
    from step K_free have s': "s' = s\<lparr>heap := (heap s)(taken_msg s := None), kpc := K_lock\<rparr>"
      by (simp add: process_step_def)
    have h: "heap_ok as s" using ok by (simp add: cq_ok_def)
    then have other: "taken_msg s \<notin> set as" using K_free by (simp add: heap_ok_def)
    have "heap_ok as s'" using h K_free by (auto simp: heap_ok_def owns_def s' linked_frame)
    moreover have "count_ok as s'"
    proof -
      have "image_mset (datum ((heap s)(taken_msg s := None))) (mset as) = image_mset (datum (heap s)) (mset as)"
        using other by (intro image_mset_cong) (auto simp: datum_def)
      with ok K_free show ?thesis by (simp add: cq_ok_def count_ok_def s')
    qed
    moreover have "walk_ok as s'" using ok by (auto simp: cq_ok_def walk_ok_def s')
    moreover have "main_ok s'" "locks_ok s'" "waiting_ok s'"
      using ok l active K_free by (auto simp: cq_ok_def main_ok_def all_done_def locks_ok_def waiting_ok_def s' split: main_pc.splits)
    ultimately show ?thesis using K_free by (simp add: cq_ok_def)
  qed (use step in \<open>simp_all add: process_step_def\<close>)
qed

section \<open>The steps of the producers keep the invariant\<close>

text \<open>
  A step of producer \<open>i\<close>, seen from the others.  \<open>as'\<close> is the list after it; the other producers
  keep their nodes, and the node of the consumer stays where it is.
\<close>

lemma not_all_done: "i < length (enqueuers s) \<Longrightarrow> epc (enqueuers s ! i) \<noteq> E_done \<Longrightarrow> \<not> all_done s"
  unfolding all_done_def using nth_mem by blast

lemma main_ok_enqueuer:
  assumes ok: "main_ok s" and i: "i < length (enqueuers s)" and busy: "epc (enqueuers s ! i) \<noteq> E_done"
    and s': "enqueuers s' = (enqueuers s)[i := e']" "cq_main s' = cq_main s" "spc s' = spc s"
      "running s' = running s"
  shows "main_ok s'"
proof -
  have "\<not> all_done s" using i busy by (rule not_all_done)
  with ok i busy show ?thesis
    by (auto simp: main_ok_def s' nth_list_update split: main_pc.splits)
qed

lemma uncounted_in_hand: "uncounted k \<Longrightarrow> in_hand k"
  by (cases k) auto

lemma sum_exchange:
  fixes l :: "'a multiset"
  assumes "l' + x' = l + x" "t' + x = t + x'"
  shows "l' + t' = l + t"
proof -
  have "l' + t' + (x' + x) = (l' + x') + (t' + x)" by (simp add: ac_simps)
  also have "\<dots> = l + t + (x' + x)" by (simp only: assms ac_simps)
  finally show ?thesis by simp
qed

lemma count_ok_enqueuer:
  assumes ok: "count_ok as s" and i: "i < length (enqueuers s)"
    and s': "enqueuers s' = (enqueuers s)[i := e']" "processing s' = processing s" "uncounted (kpc s') = uncounted (kpc s)"
      "taken_msg s' = taken_msg s" "edata e' = edata (enqueuers s ! i)"
    and hand: "uncounted (kpc s) \<Longrightarrow> datum (heap s') (taken_msg s) = datum (heap s) (taken_msg s)"
    and list: "mset (map (datum (heap s')) as') + outstanding e' =
      mset (map (datum (heap s)) as) + outstanding (enqueuers s ! i)"
  shows "count_ok as' s'"
proof -
  let ?h = "if uncounted (kpc s) then {#datum (heap s) (taken_msg s)#} else {#}"
  have h: "(if uncounted (kpc s') then {#datum (heap s') (taken_msg s')#} else {#}) = ?h"
    using hand s' by simp
  have sum: "(\<Sum>e \<leftarrow> (enqueuers s)[i := e']. outstanding e) + outstanding (enqueuers s ! i) =
      (\<Sum>e \<leftarrow> enqueuers s. outstanding e) + outstanding e'"
    by (rule sum_list_update [OF i])
  have "mset (map (datum (heap s')) as') + (\<Sum>e \<leftarrow> (enqueuers s)[i := e']. outstanding e) =
      mset (map (datum (heap s)) as) + (\<Sum>e \<leftarrow> enqueuers s. outstanding e)"
    by (rule sum_exchange [OF list sum])
  with ok have "mset (processing s) + ?h + mset (map (datum (heap s')) as') +
      (\<Sum>e \<leftarrow> (enqueuers s)[i := e']. outstanding e) = mset (take (length (enqueuers s)) messages)"
    unfolding count_ok_def by (metis (no_types, lifting) add.assoc)
  with ok i h show ?thesis
    by (auto simp: count_ok_def s' nth_list_update)
qed

lemma locks_ok_enqueuer:
  assumes ok: "locks_ok s" and i: "i < length (enqueuers s)"
    and s': "enqueuers s' = (enqueuers s)[i := e']" "spc s' = spc s" "guarded (kpc s') = guarded (kpc s)"
    and lock: "locked (epc e') \<longleftrightarrow> qlock s' = Some (Producer i)"
      "\<And>t. t \<noteq> Producer i \<Longrightarrow> qlock s' = Some t \<longleftrightarrow> qlock s = Some t"
  shows "locks_ok s'"
proof -
  have "locked (epc (enqueuers s' ! j)) \<longleftrightarrow> qlock s' = Some (Producer j)" if "j < length (enqueuers s)" for j
    using ok that lock i by (cases "j = i") (auto simp: locks_ok_def s')
  moreover have "j < length (enqueuers s)" if "qlock s' = Some (Producer j)" for j
    using ok that lock(2) [of "Producer j"] i by (cases "j = i") (auto simp: locks_ok_def)
  ultimately show ?thesis
    using ok s' lock(2) [of Consumer] lock(2) [of Stopper] by (simp add: locks_ok_def)
qed

lemma walk_ok_enqueuer:
  assumes "walk_ok as s" "enqueuers s' = (enqueuers s)[i := e']"
    and "epc e' = E_walk \<Longrightarrow> last_msg e' \<in> set as" "epc e' = E_link \<Longrightarrow> as \<noteq> [] \<and> last_msg e' = last as"
  shows "walk_ok as s'"
  using assms by (auto simp: walk_ok_def nth_updated)

lemma waiting_ok_enqueuer:
  assumes "waiting_ok s" "kpc s' = kpc s" "workq s' = workq s" "running s' = running s" "spc s' = spc s"
    "enqueuers s' = (enqueuers s)[i := e']" "epc (enqueuers s ! i) \<noteq> E_signal"
  shows "waiting_ok s'"
proof -
  have "\<exists>j < length (enqueuers s'). epc (enqueuers s' ! j) = E_signal"
    if "j < length (enqueuers s)" "epc (enqueuers s ! j) = E_signal" for j
    using that assms(6,7) by (intro exI [of _ j]) (auto simp: nth_updated)
  with assms show ?thesis by (auto simp: waiting_ok_def)
qed

lemma enqueuer_moves:
  assumes ok: "cq_ok as s" and i: "i < length (enqueuers s)" and busy: "epc (enqueuers s ! i) \<noteq> E_done"
    and s': "enqueuers s' = (enqueuers s)[i := e']" "cq_main s' = cq_main s" "spc s' = spc s"
      "running s' = running s" "heap s' = heap s" "workq s' = workq s" "taken_msg s' = taken_msg s"
      "processing s' = processing s" "kpc s' = kpc s \<or> kpc s = K_wait \<and> kpc s' = K_relock"
    and e': "edata e' = edata (enqueuers s ! i)" "new_msg e' = new_msg (enqueuers s ! i)"
      "owning (epc e') = owning (epc (enqueuers s ! i))" "unsent (epc e') = unsent (epc (enqueuers s ! i))"
    and lock: "locked (epc e') \<longleftrightarrow> qlock s' = Some (Producer i)"
      "\<And>t. t \<noteq> Producer i \<Longrightarrow> qlock s' = Some t \<longleftrightarrow> qlock s = Some t"
    and walk: "epc e' = E_walk \<Longrightarrow> last_msg e' \<in> set as" "epc e' = E_link \<Longrightarrow> as \<noteq> [] \<and> last_msg e' = last as"
    and wait: "waiting_ok s'"
  shows "cq_ok as s'"
proof -
  have k: "in_hand (kpc s') = in_hand (kpc s)" "uncounted (kpc s') = uncounted (kpc s)" "guarded (kpc s') = guarded (kpc s)"
    using s'(9) by auto
  have own: "owns s' j = owns s j" "node s' j = node s j" "edata (enqueuers s' ! j) = edata (enqueuers s ! j)" for j
    using i e' by (cases "j = i"; simp add: owns_def s')+
  have "heap_ok as s'" using ok own k s' by (simp add: cq_ok_def heap_ok_def)
  moreover have "count_ok as s'"
    using ok e' k by (intro count_ok_enqueuer [OF _ i s'(1)]) (auto simp: cq_ok_def s' outstanding_def)
  moreover have "main_ok s'" using ok by (intro main_ok_enqueuer [OF _ i busy s'(1-4)]) (simp add: cq_ok_def)
  moreover have "locks_ok s'"
    using ok lock by (intro locks_ok_enqueuer [OF _ i s'(1,3) k(3)]) (auto simp: cq_ok_def)
  moreover have "walk_ok as s'"
    using ok walk by (intro walk_ok_enqueuer [OF _ s'(1)]) (auto simp: cq_ok_def)
  ultimately show ?thesis using wait by (simp add: cq_ok_def)
qed

text \<open>A new node: any address that is not in use.\<close>

lemma enqueue_new_ok:
  assumes ok: "cq_ok as s" and i: "i < length (enqueuers s)" and new: "epc (enqueuers s ! i) = E_new"
    and free: "heap s a = None"
    and s': "s' = s\<lparr>enqueuers := (enqueuers s)[i := (enqueuers s ! i)\<lparr>epc := E_lock, new_msg := a\<rparr>],
      heap := (heap s)(a \<mapsto> \<lparr>nxt = None, data = edata (enqueuers s ! i)\<rparr>)\<rparr>"
  shows "cq_ok as s'"
proof -
  let ?e = "(enqueuers s ! i)\<lparr>epc := E_lock, new_msg := a\<rparr>"
  have h: "heap_ok as s" and l: "locks_ok s" using ok by (simp_all add: cq_ok_def)
  have a: "a \<notin> set as" using h free linked_dom [of "heap s" "workq s" as] by (auto simp: heap_ok_def)
  have own: "owns s' j \<longleftrightarrow> j = i \<or> owns s j" for j
    using i by (cases "j = i") (simp_all add: owns_def s')
  have mine: "\<not> owns s i" using new by (simp add: owns_def)
  have node: "node s' j = (if j = i then a else node s j)"
    "edata (enqueuers s' ! j) = edata (enqueuers s ! j)" for j
    using i by (cases "j = i"; simp add: s')+
  have fresh: "node s j \<noteq> a" if "owns s j" for j
    using h that free by (auto simp: heap_ok_def)
  have hand: "taken_msg s \<noteq> a" if "in_hand (kpc s)"
    using h that free by (auto simp: heap_ok_def)
  have eq: "heap s' = (heap s)(a \<mapsto> \<lparr>nxt = None, data = edata (enqueuers s ! i)\<rparr>)" "workq s' = workq s"
    "kpc s' = kpc s" "taken_msg s' = taken_msg s" by (simp_all add: s')
  have "heap_ok as s'"
    unfolding heap_ok_def eq own node
  proof (intro conjI allI impI)
    fix j assume "j = i \<or> owns s j"
    then show "((heap s)(a \<mapsto> \<lparr>nxt = None, data = edata (enqueuers s ! i)\<rparr>)) (if j = i then a else node s j) =
        Some \<lparr>nxt = None, data = edata (enqueuers s ! j)\<rparr>"
      using h fresh by (auto simp: heap_ok_def)
    from \<open>j = i \<or> owns s j\<close> show "(if j = i then a else node s j) \<notin> set as"
      using h a by (auto simp: heap_ok_def)
  next
    fix j k assume "j = i \<or> owns s j" "k = i \<or> owns s k" "j \<noteq> k"
    then show "(if j = i then a else node s j) \<noteq> (if k = i then a else node s k)"
      using h fresh by (auto simp: heap_ok_def)
  next
    fix b assume "((heap s)(a \<mapsto> \<lparr>nxt = None, data = edata (enqueuers s ! i)\<rparr>)) b \<noteq> None"
    then have "b = a \<or> heap s b \<noteq> None" by (simp split: if_splits)
    then show "b \<in> set as \<or> in_hand (kpc s) \<and> b = taken_msg s \<or>
        (\<exists>j. (j = i \<or> owns s j) \<and> b = (if j = i then a else node s j))"
      using h mine unfolding heap_ok_def by metis
  qed (use h a hand fresh in \<open>auto simp: heap_ok_def linked_frame\<close>)
  moreover have "count_ok as s'"
  proof (rule count_ok_enqueuer [where as = as and s = s and i = i and e' = ?e])
    have "image_mset (datum (heap s')) (mset as) = image_mset (datum (heap s)) (mset as)"
      using a by (intro image_mset_cong) (auto simp: datum_def s')
    then show "mset (map (datum (heap s')) as) + outstanding ?e =
      mset (map (datum (heap s)) as) + outstanding (enqueuers s ! i)"
      using new by (simp add: outstanding_def)
    show "datum (heap s') (taken_msg s) = datum (heap s) (taken_msg s)" if "uncounted (kpc s)"
      using hand uncounted_in_hand [OF that] by (simp add: datum_def s')
    show "count_ok as s" using ok by (simp add: cq_ok_def)
  qed (use i in \<open>simp_all add: s'\<close>)
  moreover have "main_ok s'"
    by (rule main_ok_enqueuer [where s = s and i = i and e' = ?e]) (use ok new i in \<open>simp_all add: cq_ok_def s'\<close>)
  moreover have "locks_ok s'"
  proof (rule locks_ok_enqueuer [where s = s and i = i and e' = ?e])
    show "locked (epc ?e) \<longleftrightarrow> qlock s' = Some (Producer i)"
      using l new i by (auto simp: locks_ok_def s')
  qed (use l i in \<open>simp_all add: s'\<close>)
  moreover have "walk_ok as s'"
    by (rule walk_ok_enqueuer [where s = s and i = i and e' = ?e]) (use ok in \<open>simp_all add: cq_ok_def s'\<close>)
  moreover have "waiting_ok s'"
    by (rule waiting_ok_enqueuer [where s = s and i = i and e' = ?e]) (use ok new in \<open>simp_all add: cq_ok_def s'\<close>)
  ultimately show ?thesis by (simp add: cq_ok_def)
qed

text \<open>The node of producer \<open>i\<close> becomes the last one of the list.\<close>

lemma enqueue_link_ok:
  assumes ok: "cq_ok as s" and i: "i < length (enqueuers s)"
    and at: "epc (enqueuers s ! i) = E_test \<and> as = [] \<or> epc (enqueuers s ! i) = E_link"
    and list: "linked (heap s') (workq s') (as @ [node s i])"
    and same: "\<And>a. a \<notin> set as \<Longrightarrow> heap s' a = heap s a" "\<And>a. datum (heap s') a = datum (heap s) a"
      "\<And>a. heap s' a \<noteq> None \<longleftrightarrow> heap s a \<noteq> None"
    and s': "enqueuers s' = (enqueuers s)[i := (enqueuers s ! i)\<lparr>epc := E_signal\<rparr>]" "cq_main s' = cq_main s"
      "spc s' = spc s" "running s' = running s" "qlock s' = qlock s" "taken_msg s' = taken_msg s"
      "processing s' = processing s" "kpc s' = kpc s"
  shows "cq_ok (as @ [node s i]) s'"
proof -
  let ?e = "(enqueuers s ! i)\<lparr>epc := E_signal\<rparr>"
  have h: "heap_ok as s" and l: "locks_ok s" and w: "waiting_ok s" using ok by (simp_all add: cq_ok_def)
  have mine: "owns s i" using at i by (auto simp: owns_def)
  have own: "owns s' j \<longleftrightarrow> j \<noteq> i \<and> owns s j" for j
    using i by (cases "j = i") (simp_all add: owns_def s')
  have node: "node s' j = node s j" "edata (enqueuers s' ! j) = edata (enqueuers s ! j)" for j
    using i by (cases "j = i"; simp add: s')+
  have node_i: "node s i \<notin> set as" "datum (heap s) (node s i) = edata (enqueuers s ! i)"
    using h mine by (auto simp: heap_ok_def datum_def)
  have mutex: "qlock s = Some (Producer i)" using l at i by (auto simp: locks_ok_def)
  have "heap_ok (as @ [node s i]) s'"
    unfolding heap_ok_def own node s'(6,8)
  proof (intro conjI allI impI)
    show "linked (heap s') (workq s') (as @ [node s i])" by (rule list)
    show "distinct (as @ [node s i])" using h node_i by (simp add: heap_ok_def)
  next
    fix j assume "j \<noteq> i \<and> owns s j"
    then show "heap s' (node s j) = Some \<lparr>nxt = None, data = edata (enqueuers s ! j)\<rparr>"
      "node s j \<notin> set (as @ [node s i])"
      using h mine same(1) [of "node s j"] by (auto simp: heap_ok_def)
  next
    fix a assume "heap s' a \<noteq> None"
    then have "heap s a \<noteq> None" using same(3) by blast
    with h show "a \<in> set (as @ [node s i]) \<or> in_hand (kpc s) \<and> a = taken_msg s \<or>
        (\<exists>j. (j \<noteq> i \<and> owns s j) \<and> a = node s j)"
      unfolding heap_ok_def by auto
  qed (use h mine same(3) in \<open>auto simp: heap_ok_def\<close>)
  moreover have "count_ok (as @ [node s i]) s'"
  proof (rule count_ok_enqueuer [where as = as and s = s and i = i and e' = ?e])
    show "mset (map (datum (heap s')) (as @ [node s i])) + outstanding ?e =
        mset (map (datum (heap s)) as) + outstanding (enqueuers s ! i)"
      using at node_i by (auto simp: same(2) outstanding_def cong: image_mset_cong)
    show "count_ok as s" using ok by (simp add: cq_ok_def)
  qed (use i in \<open>simp_all add: s' same(2)\<close>)
  moreover have "main_ok s'"
    by (rule main_ok_enqueuer [where s = s and i = i and e' = ?e]) (use ok at i in \<open>auto simp: cq_ok_def s'\<close>)
  moreover have "locks_ok s'"
    by (rule locks_ok_enqueuer [where s = s and i = i and e' = ?e]) (use l i mutex in \<open>simp_all add: s'\<close>)
  moreover have "walk_ok (as @ [node s i]) s'"
    unfolding walk_ok_def
  proof (intro allI impI)
    fix j assume "j < length (enqueuers s')"
    then have j: "j < length (enqueuers s)" by (simp add: s')
    have "\<not> locked (epc (enqueuers s ! j))" if "j \<noteq> i"
      using l j mutex that by (auto simp: locks_ok_def)
    then show "(epc (enqueuers s' ! j) = E_walk \<longrightarrow> last_msg (enqueuers s' ! j) \<in> set (as @ [node s i])) \<and>
        (epc (enqueuers s' ! j) = E_link \<longrightarrow>
           as @ [node s i] \<noteq> [] \<and> last_msg (enqueuers s' ! j) = last (as @ [node s i]))"
      using j by (cases "j = i") (auto simp: s' nth_updated)
  qed
  moreover have "waiting_ok s'"
  proof -
    have "\<not> guarded (kpc s)" using l mutex by (auto simp: locks_ok_def)
    moreover have "kpc s \<noteq> K_done"
    proof
      assume k: "kpc s = K_done"
      with w have "\<not> running s" by (simp add: waiting_ok_def)
      moreover have "main_ok s" using ok by (simp add: cq_ok_def)
      moreover have "\<not> all_done s" using at by (intro not_all_done [OF i]) auto
      ultimately show False by (auto simp: main_ok_def split: main_pc.splits)
    qed
    moreover have "\<exists>j < length (enqueuers s'). epc (enqueuers s' ! j) = E_signal"
      using i by (intro exI [of _ i]) (simp add: s')
    moreover have "kpc s = K_wait \<longrightarrow> running s \<or> spc s \<in> {S_unlock, S_signal}"
      using w by (simp add: waiting_ok_def)
    ultimately show ?thesis by (cases "kpc s") (auto simp: waiting_ok_def s')
  qed
  ultimately show ?thesis by (simp add: cq_ok_def)
qed

text \<open>The list after a step of a producer.\<close>

definition enqueued :: "nat \<Rightarrow> cq \<Rightarrow> nat list \<Rightarrow> nat list" where
  "enqueued i s as =
     (if epc (enqueuers s ! i) = E_link \<or> epc (enqueuers s ! i) = E_test \<and> as = [] then as @ [node s i] else as)"

lemma enqueue_step_ok:
  assumes ok: "cq_ok as s" and i: "i < length (enqueuers s)" and step: "enqueue_step a i s = Some s'"
  shows "cq_ok (enqueued i s as) s'"
proof -
  let ?e = "enqueuers s ! i"
  have h: "heap_ok as s" and l: "locks_ok s" and w: "waiting_ok s" and walk: "walk_ok as s"
    using ok by (simp_all add: cq_ok_def)
  have lnk: "linked (heap s) (workq s) as" using h by (simp add: heap_ok_def)
  have empty: "as = [] \<longleftrightarrow> workq s = None" using h by (cases as) (auto simp: heap_ok_def)
  have mutex: "locked (epc ?e) \<Longrightarrow> qlock s = Some (Producer i)" using l i by (simp add: locks_ok_def)
  have busy: "epc ?e \<noteq> E_done" using step by (auto simp: enqueue_step_def Let_def)
  note move = enqueuer_moves [OF ok i busy] and still = waiting_ok_enqueuer [OF w]
  note defs = enqueue_step_def Let_def locking_def enqueued_def
  show ?thesis
  proof (cases "epc ?e")
    case E_new
    with step i show ?thesis
      by (auto simp: defs split: if_splits intro!: enqueue_new_ok [OF ok i E_new])
  next
    case E_lock
    with step have "cq_ok as s'"
      by (intro move [where e' = "?e\<lparr>epc := E_test\<rparr>"] still [where i = i and e' = "?e\<lparr>epc := E_test\<rparr>"])
        (auto simp: defs split: if_splits)
    with E_lock show ?thesis by (simp add: defs)
  next
    case E_test
    show ?thesis
    proof (cases "workq s")
      case None
      with step E_test have s': "s' = s\<lparr>enqueuers := (enqueuers s)[i := ?e\<lparr>epc := E_signal\<rparr>], workq := Some (node s i)\<rparr>"
        by (simp add: defs)
      have "owns s i" using E_test i by (simp add: owns_def)
      with h have "linked (heap s') (workq s') [node s i]" by (auto simp: heap_ok_def s')
      with None empty E_test i have "cq_ok (as @ [node s i]) s'"
        by (intro enqueue_link_ok [OF ok i]) (simp_all add: s')
      with None empty E_test show ?thesis by (simp add: enqueued_def)
    next
      case (Some b)
      with h have "b \<in> set as" by (cases as) (auto simp: heap_ok_def)
      with step E_test Some mutex have "cq_ok as s'"
        by (intro move [where e' = "?e\<lparr>epc := E_walk, last_msg := b\<rparr>"] still [where i = i and e' = "?e\<lparr>epc := E_walk, last_msg := b\<rparr>"])
          (auto simp: defs)
      with E_test Some empty show ?thesis by (simp add: enqueued_def)
    qed
  next
    case E_walk
    then have in_list: "last_msg ?e \<in> set as" using walk i by (simp add: walk_ok_def)
    then obtain m where m: "heap s (last_msg ?e) = Some m" using linked_node [OF lnk] by blast
    show ?thesis
    proof (cases "nxt m")
      case None
      with linked_last [OF lnk in_list m] have "last_msg ?e = last as" by simp
      with step E_walk m None mutex in_list have "cq_ok as s'"
        by (intro move [where e' = "?e\<lparr>epc := E_link\<rparr>"] still [where i = i and e' = "?e\<lparr>epc := E_link\<rparr>"])
          (auto simp: defs)
      with E_walk show ?thesis by (simp add: enqueued_def)
    next
      case (Some b)
      with linked_next_in [OF lnk in_list m] have "b \<in> set as" by simp
      with step E_walk m Some mutex have "cq_ok as s'"
        by (intro move [where e' = "?e\<lparr>last_msg := b\<rparr>"] still [where i = i and e' = "?e\<lparr>last_msg := b\<rparr>"])
          (auto simp: defs)
      with E_walk show ?thesis by (simp add: enqueued_def)
    qed
  next
    case E_link
    then have last: "as \<noteq> []" "last_msg ?e = last as" using walk i by (simp_all add: walk_ok_def)
    then obtain m where m: "heap s (last as) = Some m" using linked_node [OF lnk, of "last as"] by auto
    with step E_link last have s': "s' = s\<lparr>enqueuers := (enqueuers s)[i := ?e\<lparr>epc := E_signal\<rparr>],
        heap := (heap s)(last as \<mapsto> m\<lparr>nxt := Some (node s i)\<rparr>)\<rparr>"
      by (simp add: defs)
    have "owns s i" using E_link i by (simp add: owns_def)
    with h have n: "heap s (node s i) = Some \<lparr>nxt = None, data = edata ?e\<rparr>" "node s i \<notin> set as"
      by (simp_all add: heap_ok_def)
    have "linked (heap s') (workq s') (as @ [node s i])"
      using h last m n by (simp add: s' heap_ok_def linked_snoc [OF _ _ _ m n(1)])
    with E_link i last m have "cq_ok (as @ [node s i]) s'"
      by (intro enqueue_link_ok [OF ok i]) (auto simp: s' datum_def)
    with E_link show ?thesis by (simp add: enqueued_def)
  next
    case E_signal
    let ?k = "if kpc s = K_wait then K_relock else kpc s"
    from step E_signal have "s' = signal (s\<lparr>enqueuers := (enqueuers s)[i := ?e\<lparr>epc := E_unlock\<rparr>]\<rparr>)"
      by (simp add: defs)
    then have s': "s' = s\<lparr>enqueuers := (enqueuers s)[i := ?e\<lparr>epc := E_unlock\<rparr>], kpc := ?k\<rparr>"
      by (cases s) (simp add: signal_def)
    have "waiting_ok s'" using w by (simp add: waiting_ok_def s')
    with E_signal mutex have "cq_ok as s'"
      by (intro move [where e' = "?e\<lparr>epc := E_unlock\<rparr>"]) (simp_all add: s')
    with E_signal show ?thesis by (simp add: enqueued_def)
  next
    case E_unlock
    with step mutex have "cq_ok as s'"
      by (intro move [where e' = "?e\<lparr>epc := E_done\<rparr>"] still [where i = i and e' = "?e\<lparr>epc := E_done\<rparr>"])
        (auto simp: defs)
    with E_unlock show ?thesis by (simp add: enqueued_def)
  qed (use busy in simp)
qed

section \<open>The other steps keep the invariant\<close>

text \<open>A step that changes neither the heap, the list, nor a producer.\<close>

lemma control_moves:
  assumes ok: "cq_ok as s"
    and s': "heap s' = heap s" "workq s' = workq s" "enqueuers s' = enqueuers s" "taken_msg s' = taken_msg s"
      "processing s' = processing s" "kpc s' = kpc s \<or> kpc s = K_wait \<and> kpc s' = K_relock"
    and rest: "locks_ok s'" "waiting_ok s'" "main_ok s'"
  shows "cq_ok as s'"
proof -
  have k: "in_hand (kpc s') = in_hand (kpc s)" "uncounted (kpc s') = uncounted (kpc s)"
    using s'(6) by auto
  have "heap_ok as s'" "walk_ok as s'"
    using ok k by (simp_all add: cq_ok_def heap_ok_def owns_def walk_ok_def s')
  moreover have "count_ok as s'"
    using ok k by (cases "uncounted (kpc s)") (simp_all add: cq_ok_def count_ok_def s')
  ultimately show ?thesis using rest by (simp add: cq_ok_def)
qed

lemma stop_step_ok:
  assumes ok: "cq_ok as s" and at: "cq_main s = M_join_stop" and step: "stop_step s = Some s'"
  shows "cq_ok as s'"
proof -
  have l: "locks_ok s" and w: "waiting_ok s" and m: "main_ok s" using ok by (simp_all add: cq_ok_def)
  note defs = locks_ok_def waiting_ok_def main_ok_def all_done_def
  show ?thesis
  proof (cases "spc s")
    case S_lock
    with step have s': "s' = s\<lparr>qlock := Some Stopper, spc := S_clear\<rparr>" and "qlock s = None"
      by (auto simp: stop_step_def locking_def split: if_splits)
    with S_lock l w m at show ?thesis by (intro control_moves [OF ok]) (auto simp: s' defs)
  next
    case S_clear
    with step have s': "s' = s\<lparr>running := False, spc := S_unlock\<rparr>" by (simp add: stop_step_def)
    have "kpc s \<noteq> K_check" "kpc s \<noteq> K_exit" using l S_clear by (auto simp: locks_ok_def)
    with S_clear l w m at show ?thesis by (intro control_moves [OF ok]) (auto simp: s' defs)
  next
    case S_unlock
    with step have s': "s' = s\<lparr>spc := S_signal, qlock := None\<rparr>" by (simp add: stop_step_def)
    with S_unlock l w m at show ?thesis by (intro control_moves [OF ok]) (auto simp: s' defs)
  next
    case S_signal
    let ?k = "if kpc s = K_wait then K_relock else kpc s"
    from step S_signal have "s' = signal (s\<lparr>spc := S_done\<rparr>)" by (simp add: stop_step_def)
    then have s': "s' = s\<lparr>kpc := ?k, spc := S_done\<rparr>" by (cases s) (simp add: signal_def)
    have "waiting_ok s'" using w by (simp add: waiting_ok_def s')
    moreover have "locks_ok s'" using l S_signal by (auto simp: locks_ok_def s')
    ultimately show ?thesis using S_signal m at by (intro control_moves [OF ok]) (auto simp: s' main_ok_def all_done_def)
  qed (use step in \<open>simp add: stop_step_def\<close>)
qed

lemma cq_main_step_ok:
  assumes ok: "cq_ok as s" and step: "cq_main_step s = Some s'"
  shows "cq_ok as s'"
proof (cases "\<exists>i. cq_main s = M_create i \<and> i < length messages")
  case True
  then obtain i where i: "cq_main s = M_create i" "i < length messages" by blast
  with step have s': "s' = s\<lparr>enqueuers := enqueuers s @ [new_enqueuer i], cq_main := M_create (Suc i)\<rparr>"
    by (simp add: cq_main_step_def)
  have len: "length (enqueuers s) = i" using ok i by (simp add: cq_ok_def main_ok_def)
  have own: "owns s' j = owns s j" "owns s j \<Longrightarrow> enqueuers s' ! j = enqueuers s ! j" for j
    by (auto simp: owns_def s' nth_append new_enqueuer_def less_Suc_eq)
  have eq: "heap s' = heap s" "workq s' = workq s" "kpc s' = kpc s" "taken_msg s' = taken_msg s"
    by (simp_all add: s')
  have "heap_ok as s" using ok by (simp add: cq_ok_def)
  then have "heap_ok as s'"
    unfolding heap_ok_def eq own(1) by (simp add: own(2) cong: conj_cong)
  moreover have "count_ok as s'"
    using ok i len
    by (auto simp: cq_ok_def count_ok_def s' nth_append less_Suc_eq new_enqueuer_def outstanding_def take_Suc_conv_app_nth)
  moreover have "locks_ok s'" "walk_ok as s'"
    using ok by (auto simp: cq_ok_def locks_ok_def walk_ok_def s' nth_append less_Suc_eq new_enqueuer_def)
  moreover have "waiting_ok s'"
    using ok by (auto simp: cq_ok_def waiting_ok_def s' nth_append less_Suc_eq)
  moreover have "main_ok s'" using ok i len by (auto simp: cq_ok_def main_ok_def s')
  ultimately show ?thesis by (simp add: cq_ok_def)
next
  case False
  define m where "m = cq_main s'"
  have s': "s' = s\<lparr>cq_main := m\<rparr>"
    using step False by (auto simp: cq_main_step_def m_def split: main_pc.splits if_splits)
  have "main_ok s" using ok by (simp add: cq_ok_def)
  then have "main_ok s'"
  proof (cases "cq_main s")
    case (M_create i)
    with \<open>main_ok s\<close> step False show ?thesis by (auto simp: main_ok_def cq_main_step_def)
  next
    case (M_join i)
    with \<open>main_ok s\<close> have "i < length messages \<or> all_done s"
      by (auto simp: main_ok_def all_done_def in_set_conv_nth)
    with M_join \<open>main_ok s\<close> step show ?thesis
      by (auto simp: main_ok_def cq_main_step_def all_done_def less_Suc_eq split: if_splits)
  qed (use step in \<open>auto simp: main_ok_def cq_main_step_def all_done_def split: if_splits\<close>)
  moreover have "locks_ok s'" "waiting_ok s'" using ok by (simp_all add: cq_ok_def locks_ok_def waiting_ok_def s')
  ultimately show ?thesis by (intro control_moves [OF ok]) (simp_all add: s')
qed

lemma woken_up_ok:
  assumes ok: "cq_ok as s" and "kpc s = K_wait"
  shows "cq_ok as (s\<lparr>kpc := K_relock\<rparr>)"
  using ok assms(2)
  by (intro control_moves [OF ok])
    (auto simp: cq_ok_def locks_ok_def waiting_ok_def main_ok_def all_done_def split: main_pc.splits)

text \<open>The list of nodes after a step.\<close>

lemma cq_step_ok:
  assumes "cq_ok as s" "cq_step b s s'"
  shows "cq_ok as s' \<or> (kpc s = K_take \<and> as \<noteq> [] \<and> taken_msg s' = hd as \<and> cq_ok (tl as) s') \<or>
    (\<exists>i. owns s i \<and> cq_ok (as @ [node s i]) s')"
  using assms(2)
proof cases
  case consumer
  from process_step_ok [OF assms(1) this] show ?thesis
  proof (cases "kpc s = K_take")
    case True
    have h: "heap_ok as s" and "workq s \<noteq> None" using assms(1) True by (auto simp: cq_ok_def waiting_ok_def)
    then obtain a where a: "workq s = Some a" by blast
    from heap_ok_alloc [OF h a] obtain m bs where "heap s a = Some m" "as = a # bs" by blast
    with True a consumer(2) process_step_ok [OF assms(1) consumer] show ?thesis
      by (auto simp: process_step_def)
  qed simp
next
  case woken_up
  with woken_up_ok [OF assms(1)] show ?thesis by blast
next
  case (enqueuer i a)
  from enqueue_step_ok [OF assms(1) this] enqueuer(1) show ?thesis
    by (cases "epc (enqueuers s ! i)") (auto simp: enqueued_def owns_def split: if_splits)
next
  case stopper
  with stop_step_ok [OF assms(1)] show ?thesis by blast
next
  case main
  with cq_main_step_ok [OF assms(1)] show ?thesis by blast
qed

lemma cq_inv_step: "cq_inv s \<Longrightarrow> cq_step b s s' \<Longrightarrow> cq_inv s'"
  unfolding cq_inv_def using cq_step_ok by blast

section \<open>Every execution without spurious wakeups ends\<close>

definition consumer_left :: "consumer_pc \<Rightarrow> nat" where
  "consumer_left k =
     (case k of
        K_lock \<Rightarrow> 4 | K_relock \<Rightarrow> 4 | K_test \<Rightarrow> 3 | K_check \<Rightarrow> 2 | K_exit \<Rightarrow> 1 | K_take \<Rightarrow> 1 | K_wait \<Rightarrow> 0
      | K_unlock \<Rightarrow> 8 | K_process \<Rightarrow> 7 | K_free \<Rightarrow> 6 | K_done \<Rightarrow> 0)"

definition enqueuer_left :: "heap \<Rightarrow> enqueuer \<Rightarrow> nat" where
  "enqueuer_left h e =
     (case epc e of
        E_new \<Rightarrow> 15 | E_lock \<Rightarrow> 14 | E_test \<Rightarrow> 13 | E_walk \<Rightarrow> 8 + nodes_from h (Some (last_msg e))
      | E_link \<Rightarrow> 8 | E_signal \<Rightarrow> 7 | E_unlock \<Rightarrow> 1 | E_done \<Rightarrow> 0)"

definition stop_left :: "stop_pc \<Rightarrow> nat" where
  "stop_left p = (case p of S_lock \<Rightarrow> 8 | S_clear \<Rightarrow> 7 | S_unlock \<Rightarrow> 6 | S_signal \<Rightarrow> 5 | S_done \<Rightarrow> 0)"

definition main_left :: "main_pc \<Rightarrow> nat" where
  "main_left m =
     (case m of
        M_consumer \<Rightarrow> 100 | M_create i \<Rightarrow> 16 * (4 - i) + 10 | M_join i \<Rightarrow> (4 - i) + 5
      | M_stop \<Rightarrow> 4 | M_join_stop \<Rightarrow> 3 | M_join_consumer \<Rightarrow> 2 | M_done \<Rightarrow> 0)"

text \<open>A message that the consumer has not taken yet counts ten, more than the round it causes.\<close>

definition taken_count :: "cq \<Rightarrow> nat" where
  "taken_count s = length (processing s) + (if uncounted (kpc s) then 1 else 0)"

definition cq_left :: "cq \<Rightarrow> nat" where
  "cq_left s =
     consumer_left (kpc s) + (\<Sum>e \<leftarrow> enqueuers s. enqueuer_left (heap s) e) + stop_left (spc s) +
     main_left (cq_main s) + 10 * (4 - taken_count s)"

lemma messages_4: "length messages = 4"
  by (simp add: messages_def)

lemma count_ok_size:
  assumes "count_ok as s"
  shows "taken_count s + length as + size (\<Sum>e \<leftarrow> enqueuers s. outstanding e) = min (length (enqueuers s)) 4"
  using arg_cong [OF conjunct2 [OF assms [unfolded count_ok_def]], of size]
  by (simp add: taken_count_def messages_4 split: if_splits)

lemma enqueuer_left_heap: "epc e \<noteq> E_walk \<Longrightarrow> enqueuer_left h' e = enqueuer_left h e"
  by (auto simp: enqueuer_left_def split: enqueue_pc.splits)

lemma new_enqueuer_left: "enqueuer_left h (new_enqueuer i) = 15"
  by (simp add: new_enqueuer_def enqueuer_left_def)

text \<open>Changes of the heap outside the list do not touch the walk of a producer.\<close>

lemma walker_left:
  assumes "linked h p as" "linked h' p as" "epc e = E_walk \<Longrightarrow> last_msg e \<in> set as"
  shows "enqueuer_left h' e = enqueuer_left h e"
proof (cases "epc e = E_walk")
  case True
  then obtain xs ys where as: "as = xs @ last_msg e # ys" using assms(3) by (meson split_list)
  have "nodes_from g (Some (last_msg e)) = length (last_msg e # ys)" if "linked g p as" for g
    using linked_next [of g p xs "last_msg e" ys] that as by (intro nodes_from_eq) auto
  with assms(1,2) show ?thesis by (simp add: enqueuer_left_def True)
qed (rule enqueuer_left_heap)

lemma others_left:
  assumes "\<And>j. j < length es \<Longrightarrow> j \<noteq> i \<Longrightarrow> f' (es ! j) = f (es ! j)" and "i < length es"
  shows "(\<Sum>e \<leftarrow> es[i := e']. f' e) + f (es ! i) = (\<Sum>e \<leftarrow> es. f e) + (f' e' :: nat)"
  using assms
proof (induction es arbitrary: i)
  case (Cons e es)
  show ?case
  proof (cases i)
    case 0
    have "f' x = f x" if x: "x \<in> set es" for x
    proof -
      from x obtain j where "j < length es" "x = es ! j" by (metis in_set_conv_nth)
      with Cons.prems(1) [of "Suc j"] 0 show ?thesis by simp
    qed
    then have "map f' es = map f es" by simp
    with 0 show ?thesis by (simp del: map_eq_conv)
  next
    case (Suc j)
    with Cons.prems(1) [of 0] have "f' e = f e" by simp
    moreover have "(\<Sum>e \<leftarrow> es[j := e']. f' e) + f (es ! j) = (\<Sum>e \<leftarrow> es. f e) + f' e'"
    proof (rule Cons.IH)
      fix k assume "k < length es" "k \<noteq> j"
      with Cons.prems(1) [of "Suc k"] Suc show "f' (es ! k) = f (es ! k)" by simp
    qed (use Cons.prems Suc in simp)
    ultimately show ?thesis using Suc by simp
  qed
qed simp

lemma all_left:
  assumes "cq_ok as s" "linked h' (workq s) as"
  shows "(\<Sum>e \<leftarrow> enqueuers s. enqueuer_left h' e) = (\<Sum>e \<leftarrow> enqueuers s. enqueuer_left (heap s) e)"
proof -
  have "enqueuer_left h' x = enqueuer_left (heap s) x" if "x \<in> set (enqueuers s)" for x
    using that assms by (intro walker_left [where p = "workq s" and as = as])
      (auto simp: cq_ok_def heap_ok_def walk_ok_def in_set_conv_nth)
  then have "map (enqueuer_left h') (enqueuers s) = map (enqueuer_left (heap s)) (enqueuers s)" by simp
  then show ?thesis by (simp del: map_eq_conv)
qed

lemma process_step_left:
  assumes ok: "cq_ok as s" and step: "process_step s = Some s'"
  shows "cq_left s' < cq_left s"
proof (cases "kpc s")
  case K_take
  have size: "taken_count s + length as \<le> 4" using ok count_ok_size [of as s] by (simp add: cq_ok_def)
  have h: "heap_ok as s" and w: "workq s \<noteq> None" using ok K_take by (auto simp: cq_ok_def waiting_ok_def)
  then obtain a where a: "workq s = Some a" by blast
  from heap_ok_alloc [OF h a] obtain m bs where m: "heap s a = Some m" "as = a # bs" by blast
  with size have "taken_count s < 4" by simp
  with step K_take a m show ?thesis
    by (auto simp: process_step_def cq_left_def consumer_left_def taken_count_def)
next
  case K_free
  with ok have "linked ((heap s)(taken_msg s := None)) (workq s) as"
    by (simp add: cq_ok_def heap_ok_def linked_frame)
  from all_left [OF ok this] step K_free show ?thesis
    by (auto simp: process_step_def cq_left_def consumer_left_def taken_count_def)
qed (use step in \<open>auto simp: process_step_def locking_def cq_left_def consumer_left_def taken_count_def
    split: if_splits option.splits\<close>)

text \<open>A producer moves, and the consumer goes on only if it was waiting for the signal.\<close>

lemma enqueuer_moves_left:
  assumes i: "i < length (enqueuers s)"
    and s': "enqueuers s' = (enqueuers s)[i := e']" "spc s' = spc s" "cq_main s' = cq_main s"
      "processing s' = processing s" "uncounted (kpc s') = uncounted (kpc s)"
    and others: "\<And>j. j < length (enqueuers s) \<Longrightarrow> j \<noteq> i \<Longrightarrow>
      enqueuer_left (heap s') (enqueuers s ! j) = enqueuer_left (heap s) (enqueuers s ! j)"
    and less: "enqueuer_left (heap s') e' + consumer_left (kpc s') <
      enqueuer_left (heap s) (enqueuers s ! i) + consumer_left (kpc s)"
  shows "cq_left s' < cq_left s"
proof -
  have "(\<Sum>e \<leftarrow> (enqueuers s)[i := e']. enqueuer_left (heap s') e) + enqueuer_left (heap s) (enqueuers s ! i) =
      (\<Sum>e \<leftarrow> enqueuers s. enqueuer_left (heap s) e) + enqueuer_left (heap s') e'"
    by (rule others_left) (use others i in auto)
  with less show ?thesis by (simp add: cq_left_def taken_count_def s')
qed

lemma enqueuer_moves_left_same:
  assumes "i < length (enqueuers s)" "heap s' = heap s"
    and "enqueuers s' = (enqueuers s)[i := e']" "spc s' = spc s" "cq_main s' = cq_main s"
      "processing s' = processing s" "uncounted (kpc s') = uncounted (kpc s)"
    and "enqueuer_left (heap s) e' + consumer_left (kpc s') <
      enqueuer_left (heap s) (enqueuers s ! i) + consumer_left (kpc s)"
  shows "cq_left s' < cq_left s"
  by (rule enqueuer_moves_left [where i = i and e' = e']) (use assms in simp_all)

lemma enqueue_step_left:
  assumes ok: "cq_ok as s" and i: "i < length (enqueuers s)" and step: "enqueue_step a i s = Some s'"
  shows "cq_left s' < cq_left s"
proof -
  let ?e = "enqueuers s ! i"
  have h: "heap_ok as s" and l: "locks_ok s" and walk: "walk_ok as s"
    using ok by (simp_all add: cq_ok_def)
  have lnk: "linked (heap s) (workq s) as" using h by (simp add: heap_ok_def)
  have size: "length as \<le> 4" using ok count_ok_size [of as s] by (simp add: cq_ok_def)
  note moves = enqueuer_moves_left [OF i] and same = enqueuer_moves_left_same [OF i]
  note defs = enqueue_step_def Let_def locking_def enqueuer_left_def
  have locked: "epc (enqueuers s ! j) \<noteq> E_walk" if "locked (epc ?e)" "j < length (enqueuers s)" "j \<noteq> i" for j
    using l that i by (auto simp: locks_ok_def)
  show ?thesis
  proof (cases "epc ?e")
    case E_new
    let ?e' = "?e\<lparr>epc := E_lock, new_msg := a\<rparr>"
    from step E_new have s': "s' = s\<lparr>enqueuers := (enqueuers s)[i := ?e'],
        heap := (heap s)(a \<mapsto> \<lparr>nxt = None, data = edata ?e\<rparr>)\<rparr>" and free: "heap s a = None"
      by (auto simp: enqueue_step_def Let_def split: if_splits)
    have "a \<notin> set as" using linked_dom [OF lnk] free by auto
    then have "linked (heap s') (workq s) as" using lnk by (simp add: s' linked_frame)
    then have "enqueuer_left (heap s') (enqueuers s ! j) = enqueuer_left (heap s) (enqueuers s ! j)"
      if "j < length (enqueuers s)" for j
      using that walk by (intro walker_left [OF lnk]) (auto simp: walk_ok_def)
    with E_new show ?thesis
      by (intro moves [where e' = ?e']) (simp_all add: s' enqueuer_left_def)
  next
    case E_lock
    with step show ?thesis
      by (intro same [where e' = "?e\<lparr>epc := E_test\<rparr>"]) (auto simp: defs split: if_splits)
  next
    case E_test
    show ?thesis
    proof (cases "workq s")
      case None
      with step E_test show ?thesis
        by (intro same [where e' = "?e\<lparr>epc := E_signal\<rparr>"]) (auto simp: defs)
    next
      case (Some b)
      then have "nodes_from (heap s) (Some b) \<le> 4" using nodes_from_eq [OF lnk] size by simp
      with step E_test Some show ?thesis
        by (intro same [where e' = "?e\<lparr>epc := E_walk, last_msg := b\<rparr>"]) (auto simp: defs)
    qed
  next
    case E_walk
    then obtain xs ys where as: "as = xs @ last_msg ?e # ys"
      using walk i by (metis walk_ok_def split_list)
    with linked_next [of "heap s" "workq s" xs "last_msg ?e" ys] lnk obtain m
      where m: "heap s (last_msg ?e) = Some m" "linked (heap s) (nxt m) ys" by auto
    then have n: "nodes_from (heap s) (Some (last_msg ?e)) = Suc (length ys)" "nodes_from (heap s) (nxt m) = length ys"
      using nodes_from_eq [of "heap s" "Some (last_msg ?e)" "last_msg ?e # ys"] nodes_from_eq [of "heap s" "nxt m" ys]
      by simp_all
    show ?thesis
    proof (cases "nxt m")
      case None
      with step E_walk m n show ?thesis
        by (intro same [where e' = "?e\<lparr>epc := E_link\<rparr>"]) (auto simp: defs)
    next
      case (Some b)
      with step E_walk m n show ?thesis
        by (intro same [where e' = "?e\<lparr>last_msg := b\<rparr>"]) (auto simp: defs)
    qed
  next
    case E_link
    from step E_link obtain m where s': "s' = s\<lparr>enqueuers := (enqueuers s)[i := ?e\<lparr>epc := E_signal\<rparr>],
        heap := (heap s)(last_msg ?e \<mapsto> m\<lparr>nxt := Some (node s i)\<rparr>)\<rparr>"
      by (auto simp: enqueue_step_def Let_def split: option.splits)
    show ?thesis
    proof (rule moves [where e' = "?e\<lparr>epc := E_signal\<rparr>"])
      fix j assume "j < length (enqueuers s)" "j \<noteq> i"
      with locked [of j] E_link show "enqueuer_left (heap s') (enqueuers s ! j) = enqueuer_left (heap s) (enqueuers s ! j)"
        by (intro enqueuer_left_heap) simp
    qed (simp_all add: s' E_link enqueuer_left_def)
  next
    case E_signal
    from step E_signal have s': "s' = signal (s\<lparr>enqueuers := (enqueuers s)[i := ?e\<lparr>epc := E_unlock\<rparr>]\<rparr>)"
      by (simp add: defs)
    show ?thesis
      by (rule same [where e' = "?e\<lparr>epc := E_unlock\<rparr>"])
        (use E_signal in \<open>simp_all add: s' signal_def enqueuer_left_def consumer_left_def\<close>)
  next
    case E_unlock
    with step show ?thesis
      by (intro same [where e' = "?e\<lparr>epc := E_done\<rparr>"]) (auto simp: defs)
  qed (use step in \<open>simp add: enqueue_step_def Let_def\<close>)
qed

lemma stop_step_left: "stop_step s = Some s' \<Longrightarrow> cq_left s' < cq_left s"
  by (cases "spc s")
    (auto simp: stop_step_def locking_def signal_def cq_left_def stop_left_def consumer_left_def taken_count_def
      split: if_splits)

lemma cq_main_step_left:
  assumes ok: "cq_ok as s" and step: "cq_main_step s = Some s'"
  shows "cq_left s' < cq_left s"
proof (cases "cq_main s")
  case (M_create i)
  with ok have i: "i \<le> 4" by (simp add: cq_ok_def main_ok_def messages_4)
  show ?thesis
  proof (cases "i < 4")
    case True
    then have "16 * (4 - i) = 16 * (4 - Suc i) + (16 :: nat)" by simp
    with step M_create True show ?thesis
      by (auto simp: cq_main_step_def messages_4 cq_left_def main_left_def taken_count_def new_enqueuer_left)
  next
    case False
    with step M_create show ?thesis
      by (auto simp: cq_main_step_def messages_4 cq_left_def main_left_def taken_count_def)
  qed
qed (use step in \<open>auto simp: cq_main_step_def messages_4 cq_left_def main_left_def taken_count_def split: if_splits\<close>)

section \<open>No deadlock\<close>

lemma free_address: "heap_ok as s \<Longrightarrow> \<exists>a. heap s a = None"
proof -
  assume "heap_ok as s"
  then have "dom (heap s) \<subseteq> set as \<union> {taken_msg s} \<union> node s ` {..<length (enqueuers s)}"
    by (auto simp: heap_ok_def owns_def)
  then have "finite (dom (heap s))" by (rule finite_subset) simp
  then have "dom (heap s) \<noteq> UNIV" by auto
  then show ?thesis by (auto simp: dom_def)
qed

text \<open>The holder of the mutex can go on.\<close>

lemma holder_progress:
  assumes ok: "cq_ok as s" and lock: "qlock s = Some t"
  shows "\<exists>s'. cq_step b s s'"
proof -
  have h: "heap_ok as s" and l: "locks_ok s" and w: "waiting_ok s" and m: "main_ok s" and k: "walk_ok as s"
    using ok by (simp_all add: cq_ok_def)
  have lnk: "linked (heap s) (workq s) as" using h by (simp add: heap_ok_def)
  show ?thesis
  proof (cases t)
    case Consumer
    with l lock have g: "guarded (kpc s)" by (simp add: locks_ok_def)
    with m have active: "cq_main s \<noteq> M_consumer" by (auto simp: main_ok_def)
    have "\<exists>s'. process_step s = Some s'"
    proof (cases "kpc s = K_take")
      case True
      with w obtain a where a: "workq s = Some a" by (auto simp: waiting_ok_def)
      from heap_ok_alloc [OF h a] True a show ?thesis by (auto simp: process_step_def)
    qed (use g in \<open>cases "kpc s"; auto simp: process_step_def\<close>)
    with active show ?thesis by (blast intro: consumer)
  next
    case (Producer i)
    with l lock have i: "i < length (enqueuers s)" "locked (epc (enqueuers s ! i))"
      by (auto simp: locks_ok_def)
    have node: "\<exists>m. heap s (last_msg (enqueuers s ! i)) = Some m"
      if "epc (enqueuers s ! i) = E_walk \<or> epc (enqueuers s ! i) = E_link"
      using k i that linked_node [OF lnk] by (auto simp: walk_ok_def)
    have "\<exists>s'. enqueue_step 0 i s = Some s'"
      using i(2) node by (cases "epc (enqueuers s ! i)") (auto simp: enqueue_step_def Let_def split: option.split)
    with i show ?thesis by (blast intro: enqueuer)
  next
    case Stopper
    with l lock have c: "clearing (spc s)" by (simp add: locks_ok_def)
    with m have "cq_main s = M_join_stop" by (auto simp: main_ok_def split: main_pc.splits)
    moreover have "\<exists>s'. stop_step s = Some s'" using c by (cases "spc s") (auto simp: stop_step_def)
    ultimately show ?thesis by (blast intro: stopper)
  qed
qed

lemma cq_progress:
  assumes "cq_inv s"
  shows "cq_main s = M_done \<or> (\<exists>s'. cq_step b s s')"
proof (cases "qlock s")
  case None
  from assms obtain as where ok: "cq_ok as s" by (auto simp: cq_inv_def)
  have h: "heap_ok as s" and l: "locks_ok s" and w: "waiting_ok s" and m: "main_ok s"
    using ok by (simp_all add: cq_ok_def)
  have free: "\<not> guarded (kpc s)" "\<not> clearing (spc s)"
    "\<And>i. i < length (enqueuers s) \<Longrightarrow> \<not> locked (epc (enqueuers s ! i))"
    using l None by (auto simp: locks_ok_def)
  have main: ?thesis if "cq_main_step s \<noteq> None"
  proof -
    from that obtain s' where "cq_main_step s = Some s'" by blast
    then have "cq_step b s s'" by (rule cq_step.main)
    then show ?thesis by blast
  qed
  show ?thesis
  proof (cases "cq_main s")
    case (M_join i)
    show ?thesis
    proof (cases "i < length messages \<and> epc (enqueuers s ! i) \<noteq> E_done")
      case True
      with m M_join have i: "i < length (enqueuers s)" by (simp add: main_ok_def)
      obtain a where "heap s a = None" using free_address [OF h] by blast
      with True free(3) [OF i] None have "\<exists>s'. enqueue_step a i s = Some s'"
        by (cases "epc (enqueuers s ! i)") (auto simp: enqueue_step_def Let_def locking_def signal_def)
      with i show ?thesis by (blast intro: enqueuer)
    next
      case False
      with M_join show ?thesis by (intro main) (auto simp: cq_main_step_def)
    qed
  next
    case M_join_stop
    show ?thesis
    proof (cases "spc s = S_done")
      case True
      with M_join_stop show ?thesis by (intro main) (simp add: cq_main_step_def)
    next
      case False
      with free(2) None have "\<exists>s'. stop_step s = Some s'"
        by (cases "spc s") (auto simp: stop_step_def locking_def)
      with M_join_stop show ?thesis by (blast intro: stopper)
    qed
  next
    case M_join_consumer
    with m have fin: "spc s = S_done" "\<not> running s" by (auto simp: main_ok_def)
    show ?thesis
    proof (cases "kpc s = K_done")
      case True
      with M_join_consumer show ?thesis by (intro main) (simp add: cq_main_step_def)
    next
      case False
      have "kpc s \<noteq> K_wait" using w fin by (auto simp: waiting_ok_def)
      moreover have "in_hand (kpc s) \<Longrightarrow> \<exists>m. heap s (taken_msg s) = Some m" using h by (auto simp: heap_ok_def)
      ultimately have "\<exists>s'. process_step s = Some s'"
        using False free(1) None by (cases "kpc s") (auto simp: process_step_def locking_def)
      then obtain s' where "process_step s = Some s'" ..
      with M_join_consumer have "cq_step b s s'" by (intro consumer) simp_all
      then show ?thesis by blast
    qed
  next
    case M_consumer
    then show ?thesis by (intro main) (simp add: cq_main_step_def)
  next
    case (M_create i)
    then show ?thesis by (intro main) (simp add: cq_main_step_def)
  next
    case M_stop
    then show ?thesis by (intro main) (simp add: cq_main_step_def)
  qed simp
next
  case (Some t)
  with assms holder_progress show ?thesis by (auto simp: cq_inv_def)
qed

interpretation cq: inductive_invariant cq_init "cq_step b" cq_inv for b
  by unfold_locales (auto intro: cq_inv_init cq_inv_step)

interpretation cq_ends: terminating cq_init "cq_step False" cq_inv cq_left "\<lambda>s. cq_main s = M_done"
proof (unfold_locales, goal_cases)
  case (1 s s')
  then obtain as where ok: "cq_ok as s" by (auto simp: cq_inv_def)
  from 1(2) show ?case
    by cases (use ok in \<open>auto intro: process_step_left enqueue_step_left stop_step_left cq_main_step_left\<close>)
next
  case (2 s)
  then show ?case by (rule cq_progress)
qed

section \<open>The abstract queue\<close>

lemma datum_kept:
  assumes ok: "cq_ok as s" and step: "cq_step b s s'" and a: "a \<in> set as \<or> (\<exists>i. owns s i \<and> a = node s i)"
  shows "datum (heap s') a = datum (heap s) a"
proof -
  have h: "heap_ok as s" using ok by (simp add: cq_ok_def)
  have used: "heap s a \<noteq> None"
    using h a linked_dom [of "heap s" "workq s" as] by (auto simp: heap_ok_def)
  have other: "a \<noteq> taken_msg s" if "in_hand (kpc s)"
    using h a that by (auto simp: heap_ok_def)
  from step show ?thesis
  proof cases
    case consumer
    with other show ?thesis
      by (cases "kpc s") (auto simp: process_step_def locking_def datum_def split: if_splits option.splits)
  next
    case (enqueuer i n)
    with used show ?thesis
      by (cases "epc (enqueuers s ! i)")
        (auto simp: enqueue_step_def Let_def locking_def signal_def datum_def split: if_splits option.splits)
  next
    case stopper
    then show ?thesis by (cases "spc s") (auto simp: stop_step_def locking_def signal_def split: if_splits)
  next
    case main
    then show ?thesis by (cases "cq_main s") (auto simp: cq_main_step_def split: if_splits)
  qed simp
qed

text \<open>The data of the messages in the list, in order.\<close>

definition queue_of :: "cq \<Rightarrow> nat list \<Rightarrow> int list" where
  "queue_of s as = map (datum (heap s)) as"

lemma cq_refines:
  assumes ok: "cq_ok as s" and step: "cq_step b s s'"
  shows "\<exists>as' ev. cq_ok as' s' \<and> queue_step 4 (queue_of s as) ev (queue_of s' as') \<and>
    (\<forall>x. ev = Put x \<longrightarrow> (\<exists>i. owns s i \<and> x = edata (enqueuers s ! i))) \<and>
    (\<forall>x. ev = Get x \<longrightarrow> kpc s = K_take \<and> x = datum (heap s') (taken_msg s'))"
proof -
  note kept = datum_kept [OF ok step]
  have same: "queue_of s' as = queue_of s as" using kept by (simp add: queue_of_def)
  from cq_step_ok [OF ok step] show ?thesis
  proof (elim disjE conjE exE)
    assume "cq_ok as s'"
    with same show ?thesis by (intro exI [of _ as] exI [of _ Idle]) simp
  next
    assume take: "kpc s = K_take" "as \<noteq> []" "taken_msg s' = hd as" "cq_ok (tl as) s'"
    then have "queue_of s as = datum (heap s') (taken_msg s') # queue_of s' (tl as)"
      using same by (cases as) (simp_all add: queue_of_def)
    with take show ?thesis
      by (intro exI [of _ "tl as"] exI [of _ "Get (datum (heap s') (taken_msg s'))"]) simp
  next
    fix i assume i: "owns s i" "cq_ok (as @ [node s i]) s'"
    have "heap_ok as s" using ok by (simp add: cq_ok_def)
    with i have "datum (heap s) (node s i) = edata (enqueuers s ! i)" by (simp add: heap_ok_def datum_def)
    with kept [of "node s i"] i(1) have "datum (heap s') (node s i) = edata (enqueuers s ! i)" by metis
    with same have "queue_of s' (as @ [node s i]) = queue_of s as @ [edata (enqueuers s ! i)]"
      by (simp add: queue_of_def)
    moreover have "length as < 4" using i count_ok_size [of "as @ [node s i]" s'] by (simp add: cq_ok_def)
    ultimately show ?thesis using i
      by (intro exI [of _ "as @ [node s i]"] exI [of _ "Put (edata (enqueuers s ! i))"])
        (auto simp: queue_of_def)
  qed
qed

lemma cq_final:
  assumes "cq_inv s" "cq_main s = M_done"
  shows "mset (processing s) = mset messages \<and> heap s = (\<lambda>_. None) \<and> workq s = None"
proof -
  from assms(1) obtain as where ok: "cq_ok as s" by (auto simp: cq_inv_def)
  have h: "heap_ok as s" and m: "main_ok s" and w: "waiting_ok s" and c: "count_ok as s"
    using ok by (simp_all add: cq_ok_def)
  have fin: "all_done s" "kpc s = K_done" using m assms(2) by (simp_all add: main_ok_def)
  with w have q: "workq s = None" by (simp add: waiting_ok_def)
  with h have as: "as = []" by (simp add: heap_ok_def)
  have none: "\<not> owns s i" for i using fin(1) by (auto simp: owns_def all_done_def)
  have "map outstanding (enqueuers s) = map (\<lambda>_. {#}) (enqueuers s)"
    using fin(1) by (simp add: all_done_def outstanding_def)
  then have "(\<Sum>e \<leftarrow> enqueuers s. outstanding e) = {#}" by (simp del: map_eq_conv)
  with c as fin have "mset (processing s) = mset messages" by (simp add: count_ok_def all_done_def)
  moreover have "heap s = (\<lambda>_. None)" using h as fin(2) none by (auto simp: heap_ok_def)
  ultimately show ?thesis using q by simp
qed

lemma reachable_inv: "reachable cq_init (cq_step b) s \<Longrightarrow> cq_inv s"
  by (rule cq.inv_reachable)

lemma cq_start_reachable: "reachable cq_init (cq_step b) cq_start"
  by (rule reach_init) (simp add: cq_init_def)

lemma reachable_next: "reachable cq_init (cq_step b) s \<Longrightarrow> cq_step b s s' \<Longrightarrow> reachable cq_init (cq_step b) s'"
  by (rule reach_step)

section \<open>Properties\<close>

text \<open>
  C13. The linked list refines a bounded queue: in every reachable state the pointer \<open>workq\<close> leads
  to a list that ends with null, and a step of any thread, a wakeup without a signal included,
  leaves its data alone, or appends the data of a producer, or takes away the oldest, which is the
  message the consumer goes on with.
\<close>

theorem cond_list_refines_queue:
  assumes "reachable cq_init (cq_step b) s" "cq_step b s s'"
  shows "\<exists>as as' ev. linked (heap s) (workq s) as \<and> linked (heap s') (workq s') as' \<and>
    queue_step 4 (queue_of s as) ev (queue_of s' as') \<and>
    (\<forall>x. ev = Put x \<longrightarrow> (\<exists>i. owns s i \<and> x = edata (enqueuers s ! i))) \<and>
    (\<forall>x. ev = Get x \<longrightarrow> kpc s = K_take \<and> x = datum (heap s') (taken_msg s'))"
proof -
  from reachable_inv [OF assms(1)] obtain as where ok: "cq_ok as s" by (auto simp: cq_inv_def)
  have linked: "linked (heap t) (workq t) bs" if "cq_ok bs t" for bs t
    using that by (simp add: cq_ok_def heap_ok_def)
  from cq_refines [OF ok assms(2)] linked ok show ?thesis by blast
qed

theorem cond_list_refines_queue_witness:
  "\<exists>(s :: cq) s' as'. reachable cq_init (cq_step True) s' \<and> workq s = None \<and> linked (heap s') (workq s') as' \<and>
    queue_of s' as' = [2]"
proof -
  let ?s1 = "cq_start\<lparr>cq_main := M_create 0\<rparr>"
  let ?e = "new_enqueuer 0"
  let ?s2 = "?s1\<lparr>enqueuers := [?e], cq_main := M_create 1\<rparr>"
  let ?s3 = "?s2\<lparr>enqueuers := [?e\<lparr>epc := E_lock, new_msg := 7\<rparr>], heap := [7 \<mapsto> \<lparr>nxt = None, data = 2\<rparr>]\<rparr>"
  let ?s4 = "?s3\<lparr>enqueuers := [?e\<lparr>epc := E_test, new_msg := 7\<rparr>], qlock := Some (Producer 0)\<rparr>"
  let ?s5 = "?s4\<lparr>enqueuers := [?e\<lparr>epc := E_signal, new_msg := 7\<rparr>], workq := Some 7\<rparr>"
  note defs = cq_start_def cq_main_step_def enqueue_step_def Let_def messages_def new_enqueuer_def locking_def
  have "cq_step True cq_start ?s1" by (rule cq_step.main) (simp add: defs)
  from reachable_next [OF cq_start_reachable this] have r: "reachable cq_init (cq_step True) ?s1" .
  have "cq_step True ?s1 ?s2" by (rule cq_step.main) (simp add: defs)
  from reachable_next [OF r this] have r: "reachable cq_init (cq_step True) ?s2" .
  have "cq_step True ?s2 ?s3" by (rule cq_step.enqueuer [of 0 _ 7]) (simp_all add: defs)
  from reachable_next [OF r this] have r: "reachable cq_init (cq_step True) ?s3" .
  have "cq_step True ?s3 ?s4" by (rule cq_step.enqueuer [of 0 _ 7]) (simp_all add: defs)
  from reachable_next [OF r this] have r: "reachable cq_init (cq_step True) ?s4" .
  have step: "cq_step True ?s4 ?s5" by (rule cq_step.enqueuer [of 0 _ 7]) (simp_all add: defs)
  from cond_list_refines_queue [OF r step] obtain as' where as': "linked (heap ?s5) (workq ?s5) as'" by blast
  moreover have "linked (heap ?s5) (workq ?s5) [7]" by (simp add: defs)
  ultimately have "as' = [7]" by (rule linked_unique)
  show ?thesis
  proof (intro exI conjI)
    show "reachable cq_init (cq_step True) ?s5" by (rule reachable_next [OF r step])
    show "workq ?s4 = None" by (simp add: defs)
    show "linked (heap ?s5) (workq ?s5) as'" by (rule as')
    show "queue_of ?s5 as' = [2]" by (simp add: \<open>as' = [7]\<close> queue_of_def datum_def)
  qed
qed

text \<open>
  C14. When \<open>main\<close> returns, the consumer has processed every message exactly once, the list is
  empty, and all the memory was freed, wakeups without a signal notwithstanding.
\<close>

theorem cond_all_messages_processed:
  assumes "reachable cq_init (cq_step b) s" "cq_main s = M_done"
  shows "mset (processing s) = {#2, 0, 1, 8#} \<and> heap s = (\<lambda>_. None) \<and> workq s = None"
  using cq_final [OF reachable_inv [OF assms(1)] assms(2)] by (simp add: messages_def)

theorem cond_all_messages_processed_witness:
  "\<exists>s. reachable cq_init (cq_step False) s \<and> mset (processing s) = {#2, 0, 1, 8#} \<and> heap s = (\<lambda>_. None)"
proof -
  from cq_ends.reaches_goal [OF reachable_inv [OF cq_start_reachable]] obtain s
    where s: "(cq_step False)\<^sup>*\<^sup>* cq_start s" "cq_main s = M_done" by blast
  from reachable_run [OF s(1) cq_start_reachable] have "reachable cq_init (cq_step False) s" .
  with cond_all_messages_processed [OF this s(2)] show ?thesis by blast
qed

text \<open>
  Schedules: \<open>None\<close> stands for \<open>main\<close>, and \<open>malloc\<close> returns the address \<open>10 + i\<close> in producer \<open>i\<close>.
\<close>

fun cq_move :: "tid option \<Rightarrow> cq \<Rightarrow> cq option" where
  "cq_move None s = cq_main_step s"
| "cq_move (Some Consumer) s = (if cq_main s = M_consumer then None else process_step s)"
| "cq_move (Some (Producer i)) s = (if i < length (enqueuers s) then enqueue_step (10 + i) i s else None)"
| "cq_move (Some Stopper) s = (if cq_main s = M_join_stop then stop_step s else None)"

lemma cq_move_step: "cq_move t s = Some s' \<Longrightarrow> cq_step b s s'"
proof (cases t)
  case None
  assume "cq_move t s = Some s'"
  with None show ?thesis by (auto intro: cq_step.main)
next
  case (Some u)
  assume "cq_move t s = Some s'"
  with Some show ?thesis
    by (cases u) (auto intro: cq_step.intros split: if_splits)
qed

text \<open>
  Two producers have put their messages into the list, and the consumer is about to take the first
  one; it has taken it, and is about to print it, while a third producer is about to walk along the
  list; the consumer is about to free it, and the producer to link its message to the end.
\<close>

definition to_take :: "tid option list" where
  "to_take = replicate 4 None @ replicate 5 (Some (Producer 0)) @ replicate 7 (Some (Producer 1)) @
     replicate 3 (Some Consumer)"

definition to_process :: "tid option list" where
  "to_process = to_take @ replicate 2 (Some Consumer) @ replicate 3 (Some (Producer 2))"

definition to_free :: "tid option list" where
  "to_free = to_process @ [Some Consumer, Some (Producer 2)]"

lemma cq_schedules:
  "case run_schedule cq_move to_take cq_start of None \<Rightarrow> False | Some s \<Rightarrow> kpc s = K_take"
  "case run_schedule cq_move to_process cq_start of None \<Rightarrow> False
   | Some s \<Rightarrow> kpc s = K_process \<and> length (enqueuers s) = 3 \<and> epc (enqueuers s ! 2) = E_walk"
  "case run_schedule cq_move to_free cq_start of None \<Rightarrow> False
   | Some s \<Rightarrow> kpc s = K_free \<and> length (enqueuers s) = 3 \<and> epc (enqueuers s ! 2) = E_link"
  by code_simp+

lemma cq_schedule_reachable:
  "run_schedule cq_move ts cq_start = Some s \<Longrightarrow> reachable cq_init (cq_step b) s"
  by (rule run_schedule_reachable [OF cq_move_step _ cq_start_reachable])

text \<open>
  C15. No thread follows a null or a freed pointer: when the consumer takes a message, prints it or
  frees it, and when a producer walks along the list, the pointer used leads to a message in use.
\<close>

theorem cond_pointers_valid:
  assumes "reachable cq_init (cq_step b) s"
  shows "(kpc s = K_take \<longrightarrow> (\<exists>a. workq s = Some a \<and> heap s a \<noteq> None)) \<and>
    (kpc s = K_process \<or> kpc s = K_free \<longrightarrow> heap s (taken_msg s) \<noteq> None) \<and>
    (\<forall>i < length (enqueuers s). epc (enqueuers s ! i) = E_walk \<or> epc (enqueuers s ! i) = E_link \<longrightarrow>
       heap s (last_msg (enqueuers s ! i)) \<noteq> None)"
proof -
  from reachable_inv [OF assms] obtain as where ok: "cq_ok as s" by (auto simp: cq_inv_def)
  then have h: "heap_ok as s" and w: "waiting_ok s" and k: "walk_ok as s" by (simp_all add: cq_ok_def)
  have lnk: "linked (heap s) (workq s) as" using h by (simp add: heap_ok_def)
  have "\<exists>a. workq s = Some a \<and> heap s a \<noteq> None" if "kpc s = K_take"
    using w that heap_ok_alloc [OF h] by (auto simp: waiting_ok_def)
  moreover have "heap s (taken_msg s) \<noteq> None" if "kpc s = K_process \<or> kpc s = K_free"
    using h that by (auto simp: heap_ok_def)
  moreover have "heap s (last_msg (enqueuers s ! i)) \<noteq> None"
    if "i < length (enqueuers s)" "epc (enqueuers s ! i) = E_walk \<or> epc (enqueuers s ! i) = E_link" for i
    using k that linked_node [OF lnk] by (fastforce simp: walk_ok_def)
  ultimately show ?thesis by blast
qed

theorem cond_pointers_valid_witness:
  "(\<exists>s a. reachable cq_init (cq_step True) s \<and> kpc s = K_take \<and> workq s = Some a \<and> heap s a \<noteq> None) \<and>
   (\<exists>s. reachable cq_init (cq_step True) s \<and> kpc s = K_process \<and> heap s (taken_msg s) \<noteq> None \<and>
      epc (enqueuers s ! 2) = E_walk \<and> heap s (last_msg (enqueuers s ! 2)) \<noteq> None) \<and>
   (\<exists>s. reachable cq_init (cq_step True) s \<and> kpc s = K_free \<and> heap s (taken_msg s) \<noteq> None \<and>
      epc (enqueuers s ! 2) = E_link \<and> heap s (last_msg (enqueuers s ! 2)) \<noteq> None)"
proof (intro conjI)
  from cq_schedules(1) obtain s where s: "run_schedule cq_move to_take cq_start = Some s" "kpc s = K_take"
    by (auto split: option.splits)
  note r = cq_schedule_reachable [OF s(1), of True]
  from cond_pointers_valid [OF r] r s(2)
  show "\<exists>s a. reachable cq_init (cq_step True) s \<and> kpc s = K_take \<and> workq s = Some a \<and> heap s a \<noteq> None" by blast
next
  from cq_schedules(2) obtain s where s: "run_schedule cq_move to_process cq_start = Some s"
    "kpc s = K_process" "2 < length (enqueuers s)" "epc (enqueuers s ! 2) = E_walk"
    by (auto split: option.splits)
  note r = cq_schedule_reachable [OF s(1), of True]
  from cond_pointers_valid [OF r] r s(2-4)
  show "\<exists>s. reachable cq_init (cq_step True) s \<and> kpc s = K_process \<and> heap s (taken_msg s) \<noteq> None \<and>
      epc (enqueuers s ! 2) = E_walk \<and> heap s (last_msg (enqueuers s ! 2)) \<noteq> None" by blast
next
  from cq_schedules(3) obtain s where s: "run_schedule cq_move to_free cq_start = Some s"
    "kpc s = K_free" "2 < length (enqueuers s)" "epc (enqueuers s ! 2) = E_link"
    by (auto split: option.splits)
  note r = cq_schedule_reachable [OF s(1), of True]
  from cond_pointers_valid [OF r] r s(2-4)
  show "\<exists>s. reachable cq_init (cq_step True) s \<and> kpc s = K_free \<and> heap s (taken_msg s) \<noteq> None \<and>
      epc (enqueuers s ! 2) = E_link \<and> heap s (last_msg (enqueuers s ! 2)) \<noteq> None" by blast
qed

text \<open>
  Without spurious wakeups the program ends: there is no infinite execution and no deadlock,
  so no signal is lost that the consumer needs, and from every reachable state an execution leads
  to the end of \<open>main\<close> with every message processed.
\<close>

theorem cond_terminates:
  "\<not> (\<exists>f. cq_init (f 0) \<and> (\<forall>i. cq_step False (f i) (f (Suc i)))) \<and>
   (\<forall>s. reachable cq_init (cq_step False) s \<longrightarrow>
      (\<exists>s'. (cq_step False)\<^sup>*\<^sup>* s s' \<and> cq_main s' = M_done \<and> mset (processing s') = {#2, 0, 1, 8#}))"
proof (intro conjI allI impI)
  show "\<not> (\<exists>f. cq_init (f 0) \<and> (\<forall>i. cq_step False (f i) (f (Suc i))))"
    by (rule cq_ends.no_infinite_run)
  fix s assume s: "reachable cq_init (cq_step False) s"
  from cq_ends.reaches_goal [OF reachable_inv [OF s]] obtain s'
    where s': "(cq_step False)\<^sup>*\<^sup>* s s'" "cq_main s' = M_done" by blast
  with cq_final [OF reachable_inv [OF reachable_run [OF s'(1) s]]]
  show "\<exists>s'. (cq_step False)\<^sup>*\<^sup>* s s' \<and> cq_main s' = M_done \<and> mset (processing s') = {#2, 0, 1, 8#}"
    by (auto simp: messages_def)
qed

theorem cond_terminates_witness:
  "\<exists>s'. (cq_step False)\<^sup>*\<^sup>* cq_start s' \<and> cq_main s' = M_done"
  using cond_terminates cq_start_reachable by blast

end
