(* ===== verification/Counters.thy ===== *)
theory Counters
  imports Transition
begin

text \<open>
  \<^verbatim>\<open>src/Lecture8/mutex/main.c\<close> and \<^verbatim>\<open>src/Lecture8/non_mutex/main.c\<close>: two threads increment a global
  counter \<open>NLOOP\<close> times each, in the first program under a mutex, in the second one without it.
  The two files differ in the two lines of \<open>doit\<close> that lock and unlock only.

  A step is a statement of a thread; reading \<open>counter\<close> and storing into it are two of them.  The
  calls of the thread library succeed.  Thread 0 is \<open>tidA\<close>, thread 1 is \<open>tidB\<close>.
\<close>

section \<open>The programs\<close>

definition NLOOP :: nat where "NLOOP = 500"

datatype doit_pc = D_enter | D_test | D_lock | D_load | D_print | D_store | D_unlock | D_return

record doit =
  dpc :: doit_pc
  iter :: nat
  val :: int

datatype counting_pc = X_create nat | X_created nat | X_join nat | X_joined nat | X_exit

datatype message = Entering nat | Counted nat int | Created nat | Terminated nat

record counting =
  counter :: int
  counter_mutex :: "nat option"
  doits :: "doit list"
  creator :: counting_pc
  messages_out :: "message list"

definition say_message :: "message \<Rightarrow> counting \<Rightarrow> counting" where
  "say_message m s = s\<lparr>messages_out := messages_out s @ [m]\<rparr>"

definition new_doit :: doit where
  "new_doit = \<lparr>dpc = D_enter, iter = 0, val = 0\<rparr>"

text \<open>A step of \<open>doit\<close> in thread \<open>k\<close>, with the mutex and without.\<close>

definition mutex_doit :: "nat \<Rightarrow> counting \<Rightarrow> counting option" where
  "mutex_doit k s =
     (let d = doits s ! k;
          move = (\<lambda>d'. s\<lparr>doits := (doits s)[k := d']\<rparr>) in
      case dpc d of
        D_enter \<Rightarrow> Some (say_message (Entering k) (move (d\<lparr>dpc := D_test, iter := 0\<rparr>)))
      | D_test \<Rightarrow> Some (move (d\<lparr>dpc := (if iter d < NLOOP then D_lock else D_return)\<rparr>))
      | D_lock \<Rightarrow>
          (if counter_mutex s = None
           then Some ((move (d\<lparr>dpc := D_load\<rparr>))\<lparr>counter_mutex := Some k\<rparr>) else None)
      | D_load \<Rightarrow> Some (move (d\<lparr>dpc := D_print, val := counter s\<rparr>))
      | D_print \<Rightarrow> Some (say_message (Counted k (to_int32 (val d + 1))) (move (d\<lparr>dpc := D_store\<rparr>)))
      | D_store \<Rightarrow> Some ((move (d\<lparr>dpc := D_unlock\<rparr>))\<lparr>counter := to_int32 (val d + 1)\<rparr>)
      | D_unlock \<Rightarrow>
          Some ((move (d\<lparr>dpc := D_test, iter := iter d + 1\<rparr>))\<lparr>counter_mutex := None\<rparr>)
      | D_return \<Rightarrow> None)"

definition plain_doit :: "nat \<Rightarrow> counting \<Rightarrow> counting option" where
  "plain_doit k s =
     (let d = doits s ! k;
          move = (\<lambda>d'. s\<lparr>doits := (doits s)[k := d']\<rparr>) in
      case dpc d of
        D_enter \<Rightarrow> Some (say_message (Entering k) (move (d\<lparr>dpc := D_test, iter := 0\<rparr>)))
      | D_test \<Rightarrow> Some (move (d\<lparr>dpc := (if iter d < NLOOP then D_load else D_return)\<rparr>))
      | D_load \<Rightarrow> Some (move (d\<lparr>dpc := D_print, val := counter s\<rparr>))
      | D_print \<Rightarrow> Some (say_message (Counted k (to_int32 (val d + 1))) (move (d\<lparr>dpc := D_store\<rparr>)))
      | D_store \<Rightarrow>
          Some ((move (d\<lparr>dpc := D_test, iter := iter d + 1\<rparr>))\<lparr>counter := to_int32 (val d + 1)\<rparr>)
      | _ \<Rightarrow> None)"

text \<open>A step of \<open>main\<close>.\<close>

definition creator_step :: "counting \<Rightarrow> counting option" where
  "creator_step s =
     (case creator s of
        X_create k \<Rightarrow> Some (s\<lparr>doits := doits s @ [new_doit], creator := X_created k\<rparr>)
      | X_created k \<Rightarrow>
          Some (say_message (Created k) (s\<lparr>creator := (if k = 0 then X_create 1 else X_join 0)\<rparr>))
      | X_join k \<Rightarrow>
          (if dpc (doits s ! k) = D_return then Some (s\<lparr>creator := X_joined k\<rparr>) else None)
      | X_joined k \<Rightarrow>
          Some (say_message (Terminated k) (s\<lparr>creator := (if k = 0 then X_join 1 else X_exit)\<rparr>))
      | X_exit \<Rightarrow> None)"

inductive counting_step :: "(nat \<Rightarrow> counting \<Rightarrow> counting option) \<Rightarrow> counting \<Rightarrow> counting \<Rightarrow> bool"
  for doit where
  doit_moves: "k < length (doits s) \<Longrightarrow> doit k s = Some s' \<Longrightarrow> counting_step doit s s'"
| creator_moves: "creator_step s = Some s' \<Longrightarrow> counting_step doit s s'"

definition counting_start :: counting where
  "counting_start =
     \<lparr>counter = 0, counter_mutex = None, doits = [], creator = X_create 0, messages_out = []\<rparr>"

text \<open>The values the threads have printed, in the order of printing.\<close>

definition values_of :: "message list \<Rightarrow> int list" where
  "values_of ms = concat (map (\<lambda>m. case m of Counted k v \<Rightarrow> [v] | _ \<Rightarrow> []) ms)"

section \<open>What the two programs have in common\<close>

text \<open>Threads exist from their creation on, and those that are joined have returned.\<close>

fun created_ok :: "counting_pc \<Rightarrow> nat \<Rightarrow> bool" where
  "created_ok (X_create k) n \<longleftrightarrow> n = k \<and> (k = 0 \<or> k = 1)"
| "created_ok (X_created k) n \<longleftrightarrow> n = Suc k \<and> (k = 0 \<or> k = 1)"
| "created_ok (X_join k) n \<longleftrightarrow> n = 2 \<and> (k = 0 \<or> k = 1)"
| "created_ok (X_joined k) n \<longleftrightarrow> n = 2 \<and> (k = 0 \<or> k = 1)"
| "created_ok X_exit n \<longleftrightarrow> n = 2"

fun joined :: "counting_pc \<Rightarrow> nat" where
  "joined (X_join k) = k"
| "joined (X_joined k) = Suc k"
| "joined X_exit = 2"
| "joined _ = 0"

definition creator_ok :: "counting \<Rightarrow> bool" where
  "creator_ok s \<longleftrightarrow>
     created_ok (creator s) (length (doits s)) \<and>
     (\<forall>k < joined (creator s). dpc (doits s ! k) = D_return)"

fun doit_left :: "doit_pc \<Rightarrow> nat" where
  "doit_left D_enter = 9" | "doit_left D_test = 7" | "doit_left D_lock = 6" | "doit_left D_load = 5"
| "doit_left D_print = 4" | "doit_left D_store = 3" | "doit_left D_unlock = 2" | "doit_left D_return = 0"

definition left_of :: "doit \<Rightarrow> nat" where
  "left_of d = (NLOOP - iter d) * 8 + doit_left (dpc d)"

fun creator_left :: "counting_pc \<Rightarrow> nat" where
  "creator_left (X_create k) = (if k = 0 then 20000 else 10000)"
| "creator_left (X_created k) = (if k = 0 then 15000 else 5)"
| "creator_left (X_join k) = (if k = 0 then 4 else 2)"
| "creator_left (X_joined k) = (if k = 0 then 3 else 1)"
| "creator_left X_exit = 0"

definition counting_left :: "counting \<Rightarrow> nat" where
  "counting_left s = creator_left (creator s) + (\<Sum>d \<leftarrow> doits s. left_of d)"

lemma say_message_fields [simp]:
  "counter (say_message m s) = counter s" "counter_mutex (say_message m s) = counter_mutex s"
  "doits (say_message m s) = doits s" "creator (say_message m s) = creator s"
  "messages_out (say_message m s) = messages_out s @ [m]"
  by (simp_all add: say_message_def)

lemma values_of_snoc [simp]:
  "values_of [] = []"
  "values_of (ms @ [m]) = values_of ms @ (case m of Counted k v \<Rightarrow> [v] | _ \<Rightarrow> [])"
  by (simp_all add: values_of_def)

text \<open>
  A counting program: a thread changes its own entry in the list of threads and nothing of
  \<open>main\<close>, does so finitely often, and never once it has returned; \<open>inv\<close> is an invariant of the
  program under which some thread can go on unless all have returned.
\<close>

locale counting_program =
  fixes doit :: "nat \<Rightarrow> counting \<Rightarrow> counting option" and inv :: "counting \<Rightarrow> bool"
  assumes own_entry: "inv s \<Longrightarrow> k < length (doits s) \<Longrightarrow> doit k s = Some s' \<Longrightarrow>
      \<exists>d. doits s' = (doits s)[k := d] \<and> creator s' = creator s \<and> left_of d < left_of (doits s ! k)"
    and returned: "dpc (doits s ! k) = D_return \<Longrightarrow> doit k s = None"
    and inv_start: "inv counting_start"
    and inv_doit: "inv s \<Longrightarrow> k < length (doits s) \<Longrightarrow> doit k s = Some s' \<Longrightarrow> inv s'"
    and inv_main: "inv s \<Longrightarrow> creator_ok s \<Longrightarrow> creator_step s = Some s' \<Longrightarrow> inv s'"
    and some_thread: "inv s \<Longrightarrow> k < length (doits s) \<Longrightarrow> dpc (doits s ! k) \<noteq> D_return \<Longrightarrow>
      \<exists>j s'. j < length (doits s) \<and> doit j s = Some s'"
begin

lemma creator_ok_start: "creator_ok counting_start"
  by (simp add: creator_ok_def counting_start_def)

lemma creator_ok_doit:
  assumes "inv s" "creator_ok s" "k < length (doits s)" "doit k s = Some s'"
  shows "creator_ok s'"
proof -
  obtain d where d: "doits s' = (doits s)[k := d]" "creator s' = creator s"
    using own_entry [OF assms(1,3,4)] by blast
  have "dpc (doits s ! k) \<noteq> D_return"
    using returned assms(4) by force
  then show ?thesis
    using assms(2,3) d by (auto simp: creator_ok_def nth_list_update)
qed

lemma creator_ok_main:
  assumes "creator_ok s" "creator_step s = Some s'"
  shows "creator_ok s'"
  using assms
  by (cases "creator s")
    (auto simp: creator_step_def creator_ok_def nth_append less_Suc_eq numeral_2_eq_2 split: if_splits)

lemma left_doit:
  assumes "inv s" "k < length (doits s)" "doit k s = Some s'"
  shows "counting_left s' < counting_left s"
proof -
  obtain d where d: "doits s' = (doits s)[k := d]" "creator s' = creator s" "left_of d < left_of (doits s ! k)"
    using own_entry [OF assms] by blast
  show ?thesis
    using sum_list_update [OF assms(2), of left_of d] d by (simp add: counting_left_def)
qed

lemma left_main:
  assumes "creator_ok s" "creator_step s = Some s'"
  shows "counting_left s' < counting_left s"
  using assms
  by (cases "creator s")
    (auto simp: creator_step_def creator_ok_def counting_left_def new_doit_def left_of_def NLOOP_def
      split: if_splits)

lemma some_step:
  assumes inv: "inv s" and main: "creator_ok s"
  shows "creator s = X_exit \<or> (\<exists>s'. counting_step doit s s')"
proof (cases "creator_step s")
  case None
  then consider "creator s = X_exit" | k where "creator s = X_join k" "dpc (doits s ! k) \<noteq> D_return"
    by (cases "creator s") (auto simp: creator_step_def split: if_splits)
  then show ?thesis
  proof cases
    case 2
    with main have "k < length (doits s)" by (auto simp: creator_ok_def)
    from some_thread [OF inv this 2(2)] show ?thesis by (blast intro: doit_moves)
  qed blast
qed (blast intro: creator_moves)

sublocale runs: terminating "\<lambda>s. s = counting_start" "counting_step doit"
  "\<lambda>s. inv s \<and> creator_ok s" counting_left "\<lambda>s. creator s = X_exit"
proof (unfold_locales, goal_cases)
  case (1 s) then show ?case using inv_start creator_ok_start by simp
next
  case (2 s s')
  from 2(2,1) show ?case
    by cases (use creator_ok_doit creator_ok_main inv_doit inv_main in blast)+
next
  case (3 s s')
  from 3(2,1) show ?case
    by cases (use left_doit left_main in blast)+
next
  case (4 s) then show ?case using some_step by blast
qed

lemma all_returned: "creator_ok s \<Longrightarrow> creator s = X_exit \<Longrightarrow> length (doits s) = 2 \<and> (\<forall>k < 2. dpc (doits s ! k) = D_return)"
  by (simp add: creator_ok_def)

end

section \<open>With the mutex\<close>

fun in_body :: "doit_pc \<Rightarrow> bool" where
  "in_body D_enter \<longleftrightarrow> False" | "in_body D_test \<longleftrightarrow> False" | "in_body D_return \<longleftrightarrow> False" | "in_body _ \<longleftrightarrow> True"

fun in_critical :: "doit_pc \<Rightarrow> bool" where
  "in_critical D_load \<longleftrightarrow> True" | "in_critical D_print \<longleftrightarrow> True"
| "in_critical D_store \<longleftrightarrow> True" | "in_critical D_unlock \<longleftrightarrow> True" | "in_critical _ \<longleftrightarrow> False"

text \<open>The increments a thread has stored.\<close>

definition stored :: "doit \<Rightarrow> nat" where
  "stored d = iter d + (if dpc d = D_unlock then 1 else 0)"

text \<open>Where a thread is in the loop agrees with its loop variable.\<close>

definition loop_ok :: "doit \<Rightarrow> bool" where
  "loop_ok d \<longleftrightarrow>
     iter d \<le> NLOOP \<and> (in_body (dpc d) \<longrightarrow> iter d < NLOOP) \<and> (dpc d = D_enter \<longrightarrow> iter d = 0) \<and>
     (dpc d = D_return \<longrightarrow> iter d = NLOOP)"

text \<open>In the critical section: what has been read and printed is current.\<close>

definition current :: "counting \<Rightarrow> doit \<Rightarrow> bool" where
  "current s d \<longleftrightarrow>
     (dpc d = D_print \<or> dpc d = D_store \<longrightarrow> val d = counter s)"

definition mutex_inv :: "counting \<Rightarrow> bool" where
  "mutex_inv s \<longleftrightarrow>
     length (doits s) \<le> 2 \<and>
     (\<forall>k < length (doits s). loop_ok (doits s ! k) \<and> current s (doits s ! k) \<and>
        (in_critical (dpc (doits s ! k)) \<longleftrightarrow> counter_mutex s = Some k)) \<and>
     (\<forall>k. counter_mutex s = Some k \<longrightarrow> k < length (doits s)) \<and>
     counter s = int (\<Sum>d \<leftarrow> doits s. stored d) \<and>
     values_of (messages_out s) =
       [1 .. counter s + (case counter_mutex s of
                            Some k \<Rightarrow> if dpc (doits s ! k) = D_store then 1 else 0 | None \<Rightarrow> 0)]"

lemma stored_le: "loop_ok d \<Longrightarrow> stored d \<le> NLOOP"
  by (auto simp: loop_ok_def stored_def)

lemma stored_sum_le:
  "length ds \<le> 2 \<Longrightarrow> (\<And>k. k < length ds \<Longrightarrow> loop_ok (ds ! k)) \<Longrightarrow> (\<Sum>d \<leftarrow> ds. stored d) \<le> 2 * NLOOP"
proof -
  assume "length ds \<le> 2" and ok: "\<And>k. k < length ds \<Longrightarrow> loop_ok (ds ! k)"
  have "(\<Sum>d \<leftarrow> ds. stored d) \<le> (\<Sum>d \<leftarrow> ds. NLOOP)"
    by (rule sum_list_mono) (metis ok stored_le in_set_conv_nth)
  also have "\<dots> \<le> 2 * NLOOP"
    using \<open>length ds \<le> 2\<close> by (simp add: sum_list_triv)
  finally show ?thesis .
qed


lemma mutex_moves:
  assumes inv: "mutex_inv s" and k: "k < length (doits s)" and d: "loop_ok d"
    and s': "doits s' = (doits s)[k := d]"
    and mutex: "counter_mutex s' = (if in_critical (dpc d) then Some k
                  else if in_critical (dpc (doits s ! k)) then None else counter_mutex s)"
    and enter: "in_critical (dpc d) \<Longrightarrow> in_critical (dpc (doits s ! k)) \<or> counter_mutex s = None"
    and counter: "counter s' = counter s + int (stored d) - int (stored (doits s ! k))"
    and alone: "counter s' = counter s \<or> counter_mutex s = Some k"
    and cur: "current s' d"
    and out: "values_of (messages_out s') =
       values_of (messages_out s) @ (if dpc d = D_store then [counter s + 1] else [])"
    and prt: "dpc d = D_store \<Longrightarrow> in_critical (dpc (doits s ! k)) \<and> dpc (doits s ! k) \<noteq> D_store"
    and str: "dpc (doits s ! k) = D_store \<Longrightarrow> counter s' = counter s + 1"
    and str': "dpc (doits s ! k) \<noteq> D_store \<Longrightarrow> counter s' = counter s"
  shows "mutex_inv s'"
proof -
  let ?ds = "doits s"
  have old: "length ?ds \<le> 2" "\<And>j. j < length ?ds \<Longrightarrow> loop_ok (?ds ! j)"
    "\<And>j. j < length ?ds \<Longrightarrow> current s (?ds ! j)"
    "\<And>j. j < length ?ds \<Longrightarrow> in_critical (dpc (?ds ! j)) \<longleftrightarrow> counter_mutex s = Some j"
    "\<And>j. counter_mutex s = Some j \<Longrightarrow> j < length ?ds"
    "counter s = int (\<Sum>d \<leftarrow> ?ds. stored d)"
    "values_of (messages_out s) =
       [1 .. counter s + (case counter_mutex s of
                            Some k \<Rightarrow> if dpc (?ds ! k) = D_store then 1 else 0 | None \<Rightarrow> 0)]"
    using inv by (auto simp: mutex_inv_def)
  have nonneg: "0 \<le> counter s" using old(6) by simp
  have crit: "in_critical (dpc (doits s' ! j)) \<longleftrightarrow> counter_mutex s' = Some j" if "j < length ?ds" for j
    using that old(4) [OF that] old(4) [OF k] k mutex enter by (auto simp: s' nth_list_update)
  have curr: "current s' (doits s' ! j)" if "j < length ?ds" for j
  proof (cases "j = k")
    case False
    from alone show ?thesis
    proof
      assume "counter_mutex s = Some k"
      with False old(4) [OF that] have "\<not> in_critical (dpc (?ds ! j))" by simp
      with False show ?thesis by (cases "dpc (?ds ! j)") (auto simp: s' current_def)
    qed (use False old(3) [OF that] in \<open>simp add: s' current_def\<close>)
  qed (use cur k in \<open>simp add: s'\<close>)
  have sum: "counter s' = int (\<Sum>d \<leftarrow> doits s'. stored d)"
    using counter old(6) sum_list_update [OF k, of stored d] by (simp add: s')
  have vals: "values_of (messages_out s') =
       [1 .. counter s' + (case counter_mutex s' of
                            Some k \<Rightarrow> if dpc (doits s' ! k) = D_store then 1 else 0 | None \<Rightarrow> 0)]"
  proof (cases "dpc d = D_store")
    case True
    with prt old(4) [OF k] have "counter_mutex s = Some k" by blast
    moreover from True have "in_critical (dpc d)" by simp
    ultimately show ?thesis
      using True prt out old(7) nonneg mutex str' k by (simp add: s' upto_rec2)
  next
    case False
    then have "counter s' + (case counter_mutex s' of
                            Some k \<Rightarrow> if dpc (doits s' ! k) = D_store then 1 else 0 | None \<Rightarrow> 0) =
      counter s + (case counter_mutex s of
                            Some k \<Rightarrow> if dpc (?ds ! k) = D_store then 1 else 0 | None \<Rightarrow> 0)"
    proof (cases "counter_mutex s")
      case None
      with old(4) [OF k] have "\<not> in_critical (dpc (?ds ! k))" by simp
      then show ?thesis using None mutex str' k False by (cases "dpc (?ds ! k)") (simp_all add: s')
    next
      case (Some j)
      show ?thesis
      proof (cases "j = k")
        case True
        with Some old(4) [OF k] have "in_critical (dpc (?ds ! k))" by simp
        with True Some mutex str str' k False show ?thesis by (simp add: s')
      next
        case neq: False
        with Some old(4) [OF k] have "\<not> in_critical (dpc (?ds ! k))" by simp
        moreover from this neq Some enter have "\<not> in_critical (dpc d)" by auto
        ultimately show ?thesis using neq Some mutex str' k old(5) [OF Some]
          by (cases "dpc (?ds ! k)") (simp_all add: s')
      qed
    qed
    then show ?thesis using False out old(7) by simp
  qed
  have mtx: "j < length ?ds" if "counter_mutex s' = Some j" for j
    using that mutex k old(5) by (auto split: if_splits)
  show ?thesis
    unfolding mutex_inv_def
    using old(1) crit curr sum vals mtx d old(2) k by (auto simp: s' nth_list_update)
qed

lemma mutex_doit_inv:
  assumes inv: "mutex_inv s" and k: "k < length (doits s)" and step: "mutex_doit k s = Some s'"
  shows "mutex_inv s'"
proof -
  let ?d = "doits s ! k"
  have ok: "loop_ok ?d" "current s ?d" "in_critical (dpc ?d) \<longleftrightarrow> counter_mutex s = Some k"
    using inv k by (auto simp: mutex_inv_def)
  have "counter s \<le> 1000" "0 \<le> counter s"
    using inv stored_sum_le [of "doits s"] by (auto simp: mutex_inv_def NLOOP_def)
  then have [simp]: "to_int32 (counter s + 1) = counter s + 1"
    by (simp add: to_int32_id')
  have move: "mutex_inv s'"
    if "loop_ok d" "doits s' = (doits s)[k := d]" "current s' d"
      "counter_mutex s' = (if in_critical (dpc d) then Some k
                  else if in_critical (dpc ?d) then None else counter_mutex s)"
      "in_critical (dpc d) \<Longrightarrow> in_critical (dpc ?d) \<or> counter_mutex s = None"
      "counter s' = counter s + int (stored d) - int (stored ?d)"
      "counter s' = (if dpc ?d = D_store then counter s + 1 else counter s)"
      "values_of (messages_out s') =
       values_of (messages_out s) @ (if dpc d = D_store then [counter s + 1] else [])"
      "dpc d = D_store \<longleftrightarrow> dpc ?d = D_print" for d
    by (rule mutex_moves [OF inv k, of d]) (use that ok in \<open>auto split: if_splits\<close>)
  from step have s': "s' = the (mutex_doit k s)" and some: "mutex_doit k s \<noteq> None" by simp_all
  show ?thesis
    by (cases "dpc ?d"; rule move [of "doits s' ! k"]; insert ok some k;
        simp add: s' mutex_doit_def Let_def loop_ok_def stored_def current_def split: if_splits)
qed

lemma mutex_main_inv:
  assumes "mutex_inv s" "creator_ok s" "creator_step s = Some s'"
  shows "mutex_inv s'"
proof (cases "\<exists>k. creator s = X_create k")
  case True
  then obtain k where k: "creator s = X_create k" ..
  with assms(2) have "length (doits s) \<le> 1" by (auto simp: creator_ok_def)
  moreover have "k < length (doits s)" if "counter_mutex s = Some k" for k
    using that assms(1) by (simp add: mutex_inv_def)
  moreover have "loop_ok new_doit" "current s' new_doit"
    by (simp_all add: loop_ok_def current_def new_doit_def)
  moreover have "counter_mutex s \<noteq> Some (length (doits s))"
    using calculation(2) by blast
  ultimately show ?thesis
    using assms(1,3) k
    by (auto simp: creator_step_def mutex_inv_def current_def nth_append less_Suc_eq stored_def new_doit_def
        split: option.split)
next
  case False
  then show ?thesis
    using assms(1,3)
    by (cases "creator s") (auto simp: creator_step_def mutex_inv_def current_def split: if_splits option.split)
qed

lemma mutex_some_thread:
  assumes "mutex_inv s" "k < length (doits s)" "dpc (doits s ! k) \<noteq> D_return"
  shows "\<exists>j s'. j < length (doits s) \<and> mutex_doit j s = Some s'"
proof (cases "counter_mutex s")
  case None
  with assms(2,3) show ?thesis
    by (intro exI [of _ k]) (cases "dpc (doits s ! k)"; simp add: mutex_doit_def Let_def)
next
  case (Some j)
  with assms(1) have "j < length (doits s)" "in_critical (dpc (doits s ! j))"
    by (auto simp: mutex_inv_def)
  then show ?thesis
    by (intro exI [of _ j]) (cases "dpc (doits s ! j)"; simp add: mutex_doit_def Let_def)
qed

lemma left_next:
  "i < n \<Longrightarrow> 5 + (n - Suc i) * 8 < (n - i) * 8" "i < n \<Longrightarrow> 4 + (n - Suc i) * 8 < (n - i) * 8"
  for n :: nat
  by arith+

lemma mutex_own_entry:
  assumes "mutex_inv s" "k < length (doits s)" "mutex_doit k s = Some s'"
  shows "\<exists>d. doits s' = (doits s)[k := d] \<and> creator s' = creator s \<and> left_of d < left_of (doits s ! k)"
proof -
  have ok: "loop_ok (doits s ! k)" using assms(1,2) by (simp add: mutex_inv_def)
  from assms(3) have s': "s' = the (mutex_doit k s)" and some: "mutex_doit k s \<noteq> None" by simp_all
  show ?thesis
    by (rule exI [of _ "doits s' ! k"]; insert ok some assms(2); cases "dpc (doits s ! k)";
        simp add: s' mutex_doit_def Let_def loop_ok_def left_of_def left_next split: if_splits)
qed

interpretation mutex: counting_program mutex_doit mutex_inv
proof
  show "mutex_inv counting_start" by (simp add: mutex_inv_def counting_start_def)
  show "mutex_doit k s = None" if "dpc (doits s ! k) = D_return" for s k
    using that by (simp add: mutex_doit_def)
qed (blast intro: mutex_own_entry mutex_doit_inv mutex_main_inv mutex_some_thread)+

lemma finished_length:
  assumes "creator_ok s" "creator s = X_exit" "\<And>k. k < length (doits s) \<Longrightarrow> loop_ok (doits s ! k)"
  shows "(\<Sum>d \<leftarrow> doits s. stored d) = 2 * NLOOP"
proof -
  from assms(1,2) obtain a b where ds: "doits s = [a, b]"
    by (auto simp: creator_ok_def length_Suc_conv numeral_2_eq_2)
  have "dpc a = D_return" "dpc b = D_return"
    using assms(1,2) by (auto simp: creator_ok_def ds nth_Cons split: nat.splits dest: spec [of _ 0] spec [of _ 1])
  moreover have "loop_ok a" "loop_ok b"
    using assms(3) [of 0] assms(3) [of 1] by (simp_all add: ds)
  ultimately show ?thesis by (simp add: ds stored_def loop_ok_def)
qed

section \<open>Without the mutex\<close>

text \<open>
  The values the threads work with: nothing above the number of increments stored so far, nothing
  below 1 after a thread has stored once, and at least 2 in the counter once all have finished.
\<close>

definition all_stored :: "doit list \<Rightarrow> bool" where
  "all_stored ds \<longleftrightarrow> length ds = 2 \<and> (\<forall>d \<in> set ds. iter d = NLOOP)"

definition value_ok :: "counting \<Rightarrow> doit \<Rightarrow> bool" where
  "value_ok s d \<longleftrightarrow>
     (1 \<le> iter d \<longrightarrow> 1 \<le> counter s) \<and>
     (dpc d = D_print \<or> dpc d = D_store \<longrightarrow>
        (if 1 \<le> iter d then 1 else 0) \<le> val d \<and> val d \<le> int (\<Sum>d \<leftarrow> doits s. iter d))"

definition plain_inv :: "counting \<Rightarrow> bool" where
  "plain_inv s \<longleftrightarrow>
     length (doits s) \<le> 2 \<and>
     (\<forall>d \<in> set (doits s). loop_ok d \<and> value_ok s d \<and> dpc d \<noteq> D_lock \<and> dpc d \<noteq> D_unlock) \<and>
     0 \<le> counter s \<and> counter s \<le> int (\<Sum>d \<leftarrow> doits s. iter d) \<and>
     (all_stored (doits s) \<longrightarrow> 2 \<le> counter s) \<and>
     length (values_of (messages_out s)) =
       (\<Sum>d \<leftarrow> doits s. iter d + (if dpc d = D_store then 1 else 0))"

lemma plain_moves:
  assumes inv: "plain_inv s" and k: "k < length (doits s)" and ok: "loop_ok d" "dpc d \<noteq> D_lock" "dpc d \<noteq> D_unlock"
    and s': "doits s' = (doits s)[k := d]"
    and own: "value_ok s' d"
    and iter: "iter d = iter (doits s ! k) + (if dpc (doits s ! k) = D_store then 1 else 0)"
    and counter: "counter s' = (if dpc (doits s ! k) = D_store then val (doits s ! k) + 1 else counter s)"
    and out: "length (values_of (messages_out s')) =
       length (values_of (messages_out s)) + (if dpc d = D_store then 1 else 0)"
    and prt: "dpc d = D_store \<longleftrightarrow> dpc (doits s ! k) = D_print"
  shows "plain_inv s'"
proof -
  let ?ds = "doits s" and ?d = "doits s ! k"
  have old: "length ?ds \<le> 2" "\<And>d. d \<in> set ?ds \<Longrightarrow> loop_ok d \<and> value_ok s d \<and> dpc d \<noteq> D_lock \<and> dpc d \<noteq> D_unlock"
    "0 \<le> counter s" "counter s \<le> int (\<Sum>d \<leftarrow> ?ds. iter d)" "all_stored ?ds \<longrightarrow> 2 \<le> counter s"
    "length (values_of (messages_out s)) = (\<Sum>d \<leftarrow> ?ds. iter d + (if dpc d = D_store then 1 else 0))"
    using inv by (auto simp: plain_inv_def)
  have d: "?d \<in> set ?ds" using k by simp
  have sum: "(\<Sum>d \<leftarrow> doits s'. iter d) = (\<Sum>d \<leftarrow> ?ds. iter d) + (if dpc ?d = D_store then 1 else 0)"
    using sum_list_update [OF k, of iter d] iter by (simp add: s')
  have grows: "1 \<le> counter s'" if "1 \<le> counter s \<or> dpc ?d = D_store"
    using that counter old(2) [OF d] by (auto simp: value_ok_def split: if_splits)
  have vals: "value_ok s' e" if "e \<in> set (doits s')" for e
  proof (cases "e = d")
    case False
    with that have "e \<in> set ?ds" using set_update_subset_insert [of ?ds k d] by (auto simp: s')
    from old(2) [OF this] show ?thesis using sum grows by (auto simp: value_ok_def)
  qed (use own in simp)
  have bounds: "0 \<le> counter s' \<and> counter s' \<le> int (\<Sum>d \<leftarrow> doits s'. iter d)"
    using old(2) [OF d] old(3,4) counter sum by (auto simp: value_ok_def split: if_splits)
  have two: "2 \<le> counter s'" if all: "all_stored (doits s')"
  proof (cases "dpc ?d = D_store")
    case True
    from all k have "iter d = NLOOP" by (simp add: all_stored_def s' set_update_memI)
    with iter True have "1 \<le> iter ?d" by (simp add: NLOOP_def)
    with True old(2) [OF d] counter show ?thesis by (simp add: value_ok_def)
  next
    case False
    with iter have "iter d = map iter ?ds ! k" by (simp add: k)
    then have "map iter ?ds = map iter (doits s')"
      by (simp only: s' map_update list_update_id)
    then have "set (map iter ?ds) = set (map iter (doits s'))" by simp
    with all have "all_stored ?ds" by (auto simp: all_stored_def s')
    with False old(5) counter show ?thesis by simp
  qed
  have len: "length (values_of (messages_out s')) =
       (\<Sum>d \<leftarrow> doits s'. iter d + (if dpc d = D_store then 1 else 0))"
    using sum_list_update [OF k, of "\<lambda>d. iter d + (if dpc d = D_store then 1 else 0)" d] iter out old(6) prt
    by (auto simp: s' split: if_splits)
  have oks: "loop_ok e \<and> dpc e \<noteq> D_lock \<and> dpc e \<noteq> D_unlock" if "e \<in> set (doits s')" for e
    using that set_update_subset_insert [of ?ds k d] old(2) ok by (auto simp: s')
  show ?thesis
    unfolding plain_inv_def using old(1) oks vals bounds two len by (simp add: s')
qed

lemma plain_doit_inv:
  assumes inv: "plain_inv s" and k: "k < length (doits s)" and step: "plain_doit k s = Some s'"
  shows "plain_inv s'"
proof -
  let ?d = "doits s ! k"
  have ok: "loop_ok ?d" "value_ok s ?d" "0 \<le> counter s" "counter s \<le> int (\<Sum>d \<leftarrow> doits s. iter d)"
    using inv k by (auto simp: plain_inv_def)
  have "iter d \<le> stored d" for d by (simp add: stored_def)
  then have "(\<Sum>d \<leftarrow> doits s. iter d) \<le> (\<Sum>d \<leftarrow> doits s. stored d)" by (intro sum_list_mono)
  also have "\<dots> \<le> 2 * NLOOP"
    using inv by (intro stored_sum_le) (auto simp: plain_inv_def)
  finally have total: "(\<Sum>d \<leftarrow> doits s. iter d) \<le> 1000" by (simp add: NLOOP_def)
  have int32: "to_int32 (val ?d + 1) = val ?d + 1" if "dpc ?d = D_print \<or> dpc ?d = D_store"
    using that ok(2) total by (intro to_int32_id') (auto simp: value_ok_def split: if_splits)
  have sum: "(\<Sum>d \<leftarrow> (doits s)[k := y]. iter d) = (\<Sum>d \<leftarrow> doits s. iter d) + iter y - iter ?d" for y
    using sum_list_update [OF k, of iter y] by simp
  have "iter ?d \<le> (\<Sum>d \<leftarrow> doits s. iter d)"
    by (rule sum_list_elem_le [OF k])
  note ok = ok this
  from step have s': "s' = the (plain_doit k s)" and some: "plain_doit k s \<noteq> None" by simp_all
  show ?thesis
    by (rule plain_moves [OF inv k, of "doits s' ! k"]; insert ok some k int32; cases "dpc ?d";
        simp add: s' plain_doit_def Let_def loop_ok_def value_ok_def sum split: if_splits)
qed

lemma plain_main_inv:
  assumes "plain_inv s" "creator_ok s" "creator_step s = Some s'"
  shows "plain_inv s'"
proof (cases "\<exists>k. creator s = X_create k")
  case True
  then obtain k where k: "creator s = X_create k" ..
  with assms(2) have "length (doits s) \<le> 1" by (auto simp: creator_ok_def)
  moreover have "loop_ok new_doit" "value_ok s' new_doit" "dpc new_doit \<noteq> D_lock" "dpc new_doit \<noteq> D_unlock"
    by (simp_all add: loop_ok_def value_ok_def new_doit_def)
  moreover have "iter new_doit = 0" "dpc new_doit \<noteq> D_store" "NLOOP \<noteq> 0"
    by (simp_all add: new_doit_def NLOOP_def)
  ultimately show ?thesis
    using assms(1,3) k
    by (auto simp: creator_step_def plain_inv_def value_ok_def all_stored_def)
next
  case False
  then show ?thesis
    using assms(1,3)
    by (cases "creator s")
      (auto simp: creator_step_def plain_inv_def value_ok_def split: if_splits)
qed

lemma plain_some_thread:
  assumes "plain_inv s" "k < length (doits s)" "dpc (doits s ! k) \<noteq> D_return"
  shows "\<exists>j s'. j < length (doits s) \<and> plain_doit j s = Some s'"
  using assms
  by (intro exI [of _ k]) (cases "dpc (doits s ! k)"; auto simp: plain_doit_def Let_def plain_inv_def)

lemma plain_own_entry:
  assumes "plain_inv s" "k < length (doits s)" "plain_doit k s = Some s'"
  shows "\<exists>d. doits s' = (doits s)[k := d] \<and> creator s' = creator s \<and> left_of d < left_of (doits s ! k)"
proof -
  have ok: "loop_ok (doits s ! k)" using assms(1,2) by (simp add: plain_inv_def)
  from assms(3) have s': "s' = the (plain_doit k s)" and some: "plain_doit k s \<noteq> None" by simp_all
  show ?thesis
    by (rule exI [of _ "doits s' ! k"]; insert ok some assms(2); cases "dpc (doits s ! k)";
        simp add: s' plain_doit_def Let_def loop_ok_def left_of_def left_next split: if_splits)
qed

interpretation plain: counting_program plain_doit plain_inv
proof
  show "plain_inv counting_start" by (simp add: plain_inv_def counting_start_def all_stored_def)
  show "plain_doit k s = None" if "dpc (doits s ! k) = D_return" for s k
    using that by (simp add: plain_doit_def)
qed (blast intro: plain_own_entry plain_doit_inv plain_main_inv plain_some_thread)+

section \<open>Runs that lose updates\<close>

text \<open>A reachable state of the second program, up to what has been printed.\<close>

definition gets_to :: "int \<Rightarrow> doit list \<Rightarrow> counting_pc \<Rightarrow> bool" where
  "gets_to c ds x \<longleftrightarrow>
     (\<exists>s. reachable (\<lambda>s. s = counting_start) (counting_step plain_doit) s \<and>
          counter s = c \<and> doits s = ds \<and> creator s = x)"

lemma gets_to_start: "gets_to 0 [] (X_create 0)"
  unfolding gets_to_def by (rule exI [of _ counting_start]) (simp add: reach_init counting_start_def)

lemma gets_to_thread:
  assumes "gets_to c ds x" "k < length ds"
    and "\<And>s. counter s = c \<Longrightarrow> doits s = ds \<Longrightarrow>
      \<exists>s'. plain_doit k s = Some s' \<and> counter s' = c' \<and> doits s' = ds' \<and> creator s' = creator s"
  shows "gets_to c' ds' x"
proof -
  from assms(1) obtain s where s: "reachable (\<lambda>s. s = counting_start) (counting_step plain_doit) s"
    "counter s = c" "doits s = ds" "creator s = x" by (auto simp: gets_to_def)
  from assms(3) [OF s(2,3)] obtain s' where s': "plain_doit k s = Some s'" "counter s' = c'"
    "doits s' = ds'" "creator s' = creator s" by blast
  with assms(2) s(3) have "counting_step plain_doit s s'" by (auto intro: doit_moves)
  with s s' show ?thesis unfolding gets_to_def by (metis reach_step)
qed

lemma gets_to_main:
  assumes "gets_to c ds x"
    and "\<And>s. counter s = c \<Longrightarrow> doits s = ds \<Longrightarrow> creator s = x \<Longrightarrow>
      \<exists>s'. creator_step s = Some s' \<and> counter s' = c \<and> doits s' = ds' \<and> creator s' = x'"
  shows "gets_to c ds' x'"
proof -
  from assms(1) obtain s where s: "reachable (\<lambda>s. s = counting_start) (counting_step plain_doit) s"
    "counter s = c" "doits s = ds" "creator s = x" by (auto simp: gets_to_def)
  from assms(2) [OF s(2-4)] obtain s' where s': "creator_step s = Some s'" "counter s' = c"
    "doits s' = ds'" "creator s' = x'" by blast
  then have "counting_step plain_doit s s'" by (auto intro: creator_moves)
  with s s' show ?thesis unfolding gets_to_def by (metis reach_step)
qed

abbreviation at_pc :: "doit_pc \<Rightarrow> nat \<Rightarrow> int \<Rightarrow> doit" where
  "at_pc p i v \<equiv> \<lparr>dpc = p, iter = i, val = v\<rparr>"

lemma gets_to_doit:
  assumes "k < length ds"
  shows "gets_to c ds x \<Longrightarrow> ds ! k = at_pc D_enter i v \<Longrightarrow> gets_to c (ds[k := at_pc D_test 0 v]) x"
    and "gets_to c ds x \<Longrightarrow> ds ! k = at_pc D_test i v \<Longrightarrow> i < NLOOP \<Longrightarrow> gets_to c (ds[k := at_pc D_load i v]) x"
    and "gets_to c ds x \<Longrightarrow> ds ! k = at_pc D_test i v \<Longrightarrow> \<not> i < NLOOP \<Longrightarrow> gets_to c (ds[k := at_pc D_return i v]) x"
    and "gets_to c ds x \<Longrightarrow> ds ! k = at_pc D_load i v \<Longrightarrow> gets_to c (ds[k := at_pc D_print i c]) x"
    and "gets_to c ds x \<Longrightarrow> ds ! k = at_pc D_print i v \<Longrightarrow> gets_to c (ds[k := at_pc D_store i v]) x"
    and "gets_to c ds x \<Longrightarrow> ds ! k = at_pc D_store i v \<Longrightarrow>
           gets_to (to_int32 (v + 1)) (ds[k := at_pc D_test (Suc i) v]) x"
  by (erule gets_to_thread [OF _ assms]; simp add: plain_doit_def Let_def)+

text \<open>A thread that runs alone for \<open>m\<close> rounds adds \<open>m\<close>.\<close>

lemma gets_to_round:
  assumes "gets_to c ds x" "k < length ds" "ds ! k = at_pc D_test i v" "i < NLOOP" "0 \<le> c" "c < 1000"
  shows "gets_to (c + 1) (ds[k := at_pc D_test (Suc i) c]) x"
proof -
  from gets_to_doit(2) [OF assms(2,1,3,4)]
  have "gets_to c (ds[k := at_pc D_load i v]) x" .
  from gets_to_doit(4) [OF _ this, of k i v] assms(2)
  have "gets_to c (ds[k := at_pc D_print i c]) x" by simp
  from gets_to_doit(5) [OF _ this, of k i c] assms(2)
  have "gets_to c (ds[k := at_pc D_store i c]) x" by simp
  from gets_to_doit(6) [OF _ this, of k i c] assms(2,5,6)
  show ?thesis by (simp add: to_int32_id')
qed

lemma gets_to_rounds:
  assumes "gets_to c ds x" "k < length ds" "ds ! k = at_pc D_test i v" "i + m \<le> NLOOP" "0 \<le> c" "c + int m \<le> 1000"
  shows "\<exists>v'. gets_to (c + int m) (ds[k := at_pc D_test (i + m) v']) x"
  using assms
proof (induction m)
  case 0
  then have "ds[k := at_pc D_test i v] = ds" by (metis list_update_id)
  with 0 show ?case by (intro exI [of _ v]) simp
next
  case (Suc m)
  then obtain v' where "gets_to (c + int m) (ds[k := at_pc D_test (i + m) v']) x" by auto
  from gets_to_round [OF this, of k "i + m" v'] Suc.prems
  have "gets_to (c + int (Suc m)) (ds[k := at_pc D_test (i + Suc m) (c + int m)]) x"
    by (simp add: ac_simps)
  then show ?case ..
qed

lemma gets_to_threads: "gets_to 0 [new_doit, new_doit] (X_join 0)"
proof -
  have "gets_to 0 [new_doit] (X_created 0)"
    by (rule gets_to_main [OF gets_to_start]) (simp add: creator_step_def)
  then have "gets_to 0 [new_doit] (X_create 1)"
    by (rule gets_to_main) (simp add: creator_step_def)
  then have "gets_to 0 [new_doit, new_doit] (X_created 1)"
    by (rule gets_to_main) (simp add: creator_step_def)
  then show ?thesis
    by (rule gets_to_main) (simp add: creator_step_def)
qed

lemma gets_to_exit:
  assumes "gets_to c [at_pc D_test NLOOP v, at_pc D_test NLOOP v'] (X_join 0)"
  shows "\<exists>ds. gets_to c ds X_exit"
proof -
  from gets_to_doit(3) [OF _ assms, of 0 NLOOP v]
  have "gets_to c [at_pc D_return NLOOP v, at_pc D_test NLOOP v'] (X_join 0)" by simp
  from gets_to_doit(3) [OF _ this, of 1 NLOOP v']
  have "gets_to c [at_pc D_return NLOOP v, at_pc D_return NLOOP v'] (X_join 0)" (is "gets_to c ?ds _") by simp
  then have "gets_to c ?ds (X_joined 0)" by (rule gets_to_main) (simp add: creator_step_def)
  then have "gets_to c ?ds (X_join 1)" by (rule gets_to_main) (simp add: creator_step_def)
  then have "gets_to c ?ds (X_joined 1)" by (rule gets_to_main) (simp add: creator_step_def)
  then have "gets_to c ?ds X_exit" by (rule gets_to_main) (simp add: creator_step_def)
  then show ?thesis by blast
qed

text \<open>Both threads at the start of the loop, the first one having read the counter.\<close>

lemma gets_to_read: "gets_to 0 [at_pc D_print 0 0, at_pc D_test 0 0] (X_join 0)"
proof -
  from gets_to_doit(1) [OF _ gets_to_threads, of 0 0 0]
  have "gets_to 0 [at_pc D_test 0 0, new_doit] (X_join 0)" by (simp add: new_doit_def)
  from gets_to_doit(1) [OF _ this, of 1 0 0]
  have "gets_to 0 [at_pc D_test 0 0, at_pc D_test 0 0] (X_join 0)" by (simp add: new_doit_def)
  from gets_to_doit(2) [OF _ this, of 0 0 0]
  have "gets_to 0 [at_pc D_load 0 0, at_pc D_test 0 0] (X_join 0)" by (simp add: NLOOP_def)
  from gets_to_doit(4) [OF _ this, of 0 0 0] show ?thesis by simp
qed

text \<open>The second thread makes \<open>t\<close> rounds, which the store of the first one undoes.\<close>

lemma gets_to_undone:
  assumes "t \<le> NLOOP"
  shows "\<exists>v. gets_to 1 [at_pc D_test 1 0, at_pc D_test t v] (X_join 0)"
proof -
  from gets_to_rounds [OF gets_to_read, of 1 0 0 t] assms obtain v
    where "gets_to (int t) [at_pc D_print 0 0, at_pc D_test t v] (X_join 0)"
    by (auto simp: NLOOP_def)
  from gets_to_doit(5) [OF _ this, of 0 0 0]
  have "gets_to (int t) [at_pc D_store 0 0, at_pc D_test t v] (X_join 0)" by simp
  from gets_to_doit(6) [OF _ this, of 0 0 0] show ?thesis by (auto simp: to_int32_id')
qed

lemma gets_to_finish:
  assumes "gets_to c [at_pc D_test i v, at_pc D_test j v'] (X_join 0)"
    and "i \<le> NLOOP" "j \<le> NLOOP" "0 \<le> c" "c + int (NLOOP - i) + int (NLOOP - j) \<le> 1000"
  shows "\<exists>ds. gets_to (c + int (NLOOP - i) + int (NLOOP - j)) ds X_exit"
proof -
  from gets_to_rounds [OF assms(1), of 0 i v "NLOOP - i"] assms(2-5) obtain w
    where "gets_to (c + int (NLOOP - i)) [at_pc D_test NLOOP w, at_pc D_test j v'] (X_join 0)" by auto
  from gets_to_rounds [OF this, of 1 j v' "NLOOP - j"] assms(2-5) obtain w'
    where "gets_to (c + int (NLOOP - i) + int (NLOOP - j)) [at_pc D_test NLOOP w, at_pc D_test NLOOP w'] (X_join 0)"
    by auto
  from gets_to_exit [OF this] show ?thesis .
qed

text \<open>
  Undoing \<open>t\<close> rounds of the second thread; and, when only one is left of them, undoing all but
  \<open>u + 1\<close> rounds of the first thread as well.
\<close>

lemma gets_to_high: "t < NLOOP \<Longrightarrow> \<exists>ds. gets_to (1000 - int t) ds X_exit"
proof -
  assume t: "t < NLOOP"
  from gets_to_undone [of t] t obtain v where "gets_to 1 [at_pc D_test 1 0, at_pc D_test t v] (X_join 0)" by auto
  from gets_to_finish [OF this] t show ?thesis by (simp add: NLOOP_def of_nat_diff)
qed

lemma gets_to_low: "u < NLOOP \<Longrightarrow> \<exists>ds. gets_to (2 + int u) ds X_exit"
proof -
  assume u: "u < NLOOP"
  let ?l = "NLOOP - 1"
  from gets_to_undone [of ?l] obtain v where
    "gets_to 1 [at_pc D_test 1 0, at_pc D_test ?l v] (X_join 0)" by auto
  from gets_to_rounds [OF this, of 0 1 0 u] u obtain w where
    "gets_to (1 + int u) [at_pc D_test (1 + u) w, at_pc D_test ?l v] (X_join 0)"
    by (auto simp: NLOOP_def)
  from gets_to_doit(2) [OF _ this, of 1 ?l v]
  have "gets_to (1 + int u) [at_pc D_test (1 + u) w, at_pc D_load ?l v] (X_join 0)" by (simp add: NLOOP_def)
  from gets_to_doit(4) [OF _ this, of 1 ?l v]
  have "gets_to (1 + int u) [at_pc D_test (1 + u) w, at_pc D_print ?l (1 + int u)] (X_join 0)" by simp
  from gets_to_rounds [OF this, of 0 "1 + u" w "NLOOP - (1 + u)"] u obtain w' where
    "gets_to 500 [at_pc D_test NLOOP w', at_pc D_print ?l (1 + int u)] (X_join 0)"
    by (auto simp: NLOOP_def of_nat_diff)
  from gets_to_doit(5) [OF _ this, of 1 ?l "1 + int u"]
  have "gets_to 500 [at_pc D_test NLOOP w', at_pc D_store ?l (1 + int u)] (X_join 0)" by simp
  from gets_to_doit(6) [OF _ this, of 1 ?l "1 + int u"] u
  have "gets_to (2 + int u) [at_pc D_test NLOOP w', at_pc D_test NLOOP (1 + int u)] (X_join 0)"
    by (simp add: NLOOP_def to_int32_id')
  from gets_to_finish [OF this] u show ?thesis by (simp add: NLOOP_def)
qed

section \<open>Properties\<close>

text \<open>
  C16. With the mutex no increment is lost: the values printed are 1, 2, 3 and so on in this
  order at every moment, and when the program ends the counter is 1000 and all of 1 to 1000
  have been printed.
\<close>

theorem mutex_counts_all:
  assumes "reachable (\<lambda>s. s = counting_start) (counting_step mutex_doit) s"
  shows "(\<exists>n. values_of (messages_out s) = [1 .. n]) \<and>
         (creator s = X_exit \<longrightarrow> counter s = 1000 \<and> values_of (messages_out s) = [1 .. 1000])"
proof -
  from mutex.runs.inv_reachable [OF assms] have inv: "mutex_inv s" and main: "creator_ok s" by simp_all
  have "counter s = 1000 \<and> values_of (messages_out s) = [1 .. 1000]" if exit: "creator s = X_exit"
  proof -
    from mutex.all_returned [OF main exit] inv have "counter_mutex s = None"
      by (cases "counter_mutex s") (force simp: mutex_inv_def)+
    with finished_length [OF main exit] inv show ?thesis by (simp add: mutex_inv_def NLOOP_def)
  qed
  with inv show ?thesis by (auto simp: mutex_inv_def)
qed

theorem mutex_counts_all_witness:
  "\<exists>s. reachable (\<lambda>s. s = counting_start) (counting_step mutex_doit) s \<and> creator s = X_exit \<and>
       values_of (messages_out s) = [1 .. 1000]"
proof -
  from mutex.runs.reaches_goal [of counting_start] obtain s
    where s: "(counting_step mutex_doit)\<^sup>*\<^sup>* counting_start s" "creator s = X_exit"
    using mutex.inv_start mutex.creator_ok_start by blast
  then have "reachable (\<lambda>s. s = counting_start) (counting_step mutex_doit) s"
    by (simp add: reachable_run reach_init)
  with mutex_counts_all [OF this] s(2) show ?thesis by blast
qed

text \<open>
  C17. Without the mutex the final value of the counter can be any number from 2 to 1000, and no
  other.
\<close>

theorem non_mutex_results:
  "(\<exists>s. reachable (\<lambda>s. s = counting_start) (counting_step plain_doit) s \<and> creator s = X_exit \<and> counter s = c)
   \<longleftrightarrow> 2 \<le> c \<and> c \<le> 1000"
proof
  assume "\<exists>s. reachable (\<lambda>s. s = counting_start) (counting_step plain_doit) s \<and> creator s = X_exit \<and> counter s = c"
  then obtain s where s: "reachable (\<lambda>s. s = counting_start) (counting_step plain_doit) s"
    "creator s = X_exit" "counter s = c" by blast
  from plain.runs.inv_reachable [OF s(1)] have inv: "plain_inv s" and main: "creator_ok s" by simp_all
  have "iter d = NLOOP" if "d \<in> set (doits s)" for d
  proof -
    from that plain.all_returned [OF main s(2)] have "dpc d = D_return" by (auto simp: in_set_conv_nth)
    with that inv show ?thesis by (auto simp: plain_inv_def loop_ok_def)
  qed
  with plain.all_returned [OF main s(2)] have "all_stored (doits s)" by (simp add: all_stored_def)
  moreover from this have "(\<Sum>d \<leftarrow> doits s. iter d) = 2 * NLOOP"
    by (auto simp: all_stored_def length_Suc_conv numeral_2_eq_2)
  ultimately show "2 \<le> c \<and> c \<le> 1000" using inv s(3) by (auto simp: plain_inv_def NLOOP_def)
next
  assume c: "2 \<le> c \<and> c \<le> 1000"
  have "\<exists>ds. gets_to c ds X_exit"
  proof (cases "c \<le> 500")
    case True
    then show ?thesis using gets_to_low [of "nat (c - 2)"] c by (simp add: NLOOP_def)
  next
    case False
    then show ?thesis using gets_to_high [of "nat (1000 - c)"] c by (simp add: NLOOP_def)
  qed
  then show "\<exists>s. reachable (\<lambda>s. s = counting_start) (counting_step plain_doit) s \<and> creator s = X_exit \<and> counter s = c"
    by (auto simp: gets_to_def)
qed

text \<open>
  Both programs always end: no run goes on for ever, and from every reachable state \<open>main\<close>
  gets to its \<open>exit\<close>.
\<close>

theorem counters_terminate:
  assumes "doit = mutex_doit \<or> doit = plain_doit"
    and "reachable (\<lambda>s. s = counting_start) (counting_step doit) s"
  shows "\<not> (\<exists>f. f 0 = counting_start \<and> (\<forall>i. counting_step doit (f i) (f (Suc i)))) \<and>
         (\<exists>s'. (counting_step doit)\<^sup>*\<^sup>* s s' \<and> creator s' = X_exit)"
  using assms mutex.runs.no_infinite_run plain.runs.no_infinite_run
    mutex.runs.reaches_goal [OF mutex.runs.inv_reachable] plain.runs.reaches_goal [OF plain.runs.inv_reachable]
  by blast

theorem counters_terminate_witness:
  "\<exists>s'. (counting_step plain_doit)\<^sup>*\<^sup>* counting_start s' \<and> creator s' = X_exit"
  using counters_terminate [of plain_doit counting_start] by (simp add: reach_init)

end
