(* ===== verification/Sections.thy ===== *)
theory Sections
  imports Transition
begin

text \<open>
  The specification that the programs of \<^verbatim>\<open>src/ipc_code\<close> with semaphores implement: several
  processes write a text each, a character at a time, to a place they share, and the texts do not
  mix.  \<open>phase\<close> tells for every process where it is; what has been written so far is one string.
\<close>

datatype phase = Before | Inside string | After | Gone

text \<open>
  A move of process \<open>k\<close>: it starts on its text, writes a character, ends, or goes away because a
  call failed before its section or after it; or nothing changes that the specification sees.
\<close>

inductive section_move ::
  "(nat \<Rightarrow> string) \<Rightarrow> (nat \<Rightarrow> phase) \<Rightarrow> string \<Rightarrow> (nat \<Rightarrow> phase) \<Rightarrow> string \<Rightarrow> bool"
  for text_of where
  enters: "ph k = Before \<Longrightarrow> section_move text_of ph out (ph(k := Inside (text_of k))) out"
| writes: "ph k = Inside (c # cs) \<Longrightarrow> section_move text_of ph out (ph(k := Inside cs)) (out @ [c])"
| leaves: "ph k = Inside [] \<Longrightarrow> section_move text_of ph out (ph(k := After)) out"
| goes_away: "ph k = Before \<or> ph k = After \<Longrightarrow> section_move text_of ph out (ph(k := Gone)) out"
| idles: "section_move text_of ph out ph out"

text \<open>
  \<open>ks\<close> are the processes that have written their whole text, in that order; at most one other
  process is in its section, and has written a part of its text after that.
\<close>

definition whole_texts :: "(nat \<Rightarrow> string) \<Rightarrow> nat list \<Rightarrow> (nat \<Rightarrow> phase) \<Rightarrow> string \<Rightarrow> bool" where
  "whole_texts text_of ks ph out \<longleftrightarrow>
     distinct ks \<and> (\<forall>k. ph k = After \<longrightarrow> k \<in> set ks) \<and>
     (\<forall>k. ph k = Before \<longrightarrow> k \<notin> set ks) \<and> (\<forall>k cs. ph k = Inside cs \<longrightarrow> k \<notin> set ks) \<and>
     (\<forall>k cs. ph k = Inside cs \<longrightarrow>
        (\<exists>part. text_of k = part @ cs \<and> out = concat (map text_of ks) @ part)) \<and>
     ((\<forall>k cs. ph k \<noteq> Inside cs) \<longrightarrow> out = concat (map text_of ks))"

lemma whole_texts_inside:
  "whole_texts text_of ks ph out \<Longrightarrow> ph k = Inside cs \<Longrightarrow>
     k \<notin> set ks \<and> (\<exists>part. text_of k = part @ cs \<and> out = concat (map text_of ks) @ part)"
  unfolding whole_texts_def by blast

lemma whole_texts_start: "(\<And>k. ph k = Before \<or> ph k = Gone) \<Longrightarrow> whole_texts text_of [] ph []"
  by (auto simp: whole_texts_def) (metis phase.distinct)+

lemma whole_texts_move:
  assumes whole: "whole_texts text_of ks ph out" and move: "section_move text_of ph out ph' out'"
    and alone: "\<And>j k x y. ph' j = Inside x \<Longrightarrow> ph' k = Inside y \<Longrightarrow> j = k"
    and alone': "\<And>j k x y. ph j = Inside x \<Longrightarrow> ph k = Inside y \<Longrightarrow> j = k"
  shows "\<exists>ks'. whole_texts text_of ks' ph' out'"
  using move
proof cases
  case (enters k)
  have "\<forall>j cs. ph j \<noteq> Inside cs"
  proof (intro allI notI)
    fix j cs assume j: "ph j = Inside cs"
    with enters(3) have "j \<noteq> k" by auto
    with j alone [of j cs k] enters(1) show False by simp
  qed
  with whole enters show ?thesis
    by (intro exI [of _ ks]) (auto simp: whole_texts_def)
next
  case (writes k c cs)
  obtain part where "text_of k = part @ c # cs" "out = concat (map text_of ks) @ part"
    using whole_texts_inside [OF whole writes(3)] by blast
  moreover have "\<forall>j x. j \<noteq> k \<longrightarrow> ph j \<noteq> Inside x" using alone' [OF _ writes(3)] by blast
  ultimately show ?thesis using whole writes
    by (intro exI [of _ ks]) (auto simp: whole_texts_def)
next
  case (leaves k)
  from whole_texts_inside [OF whole leaves(3)]
  have "out = concat (map text_of ks) @ text_of k" "k \<notin> set ks" by auto
  moreover have nobody: "(ph' j = Inside cs) = False" for j cs
    using alone' [OF _ leaves(3)] leaves(1) by auto
  moreover have "(ph' j = After) = (j = k \<or> ph j = After)" "(ph' j = Before) = (ph j = Before)" for j
    using leaves(1,3) by auto
  moreover have "distinct ks" "\<And>j. ph j = After \<Longrightarrow> j \<in> set ks" "\<And>j. ph j = Before \<Longrightarrow> j \<notin> set ks"
    using whole unfolding whole_texts_def by blast+
  ultimately have "whole_texts text_of (ks @ [k]) ph' out'"
    using leaves(2,3) by (auto simp: whole_texts_def)
  then show ?thesis ..
next
  case (goes_away k)
  then have same: "(ph' j = Inside cs) = (ph j = Inside cs)" for j cs by auto
  have "ph' j = After \<Longrightarrow> ph j = After" "ph' j = Before \<Longrightarrow> ph j = Before" for j
    using goes_away(1) by (auto split: if_splits)
  with whole have "whole_texts text_of ks ph' out'"
    unfolding whole_texts_def same goes_away(2) by blast
  then show ?thesis ..
qed (use whole in blast)

text \<open>A program that implements the specification, by mutual exclusion.\<close>

locale writing_sections = inductive_invariant +
  fixes text_of :: "nat \<Rightarrow> string" and phase_of :: "'a \<Rightarrow> nat \<Rightarrow> phase" and written :: "'a \<Rightarrow> string"
  assumes begins: "init s \<Longrightarrow> written s = [] \<and> (\<forall>k. phase_of s k = Before \<or> phase_of s k = Gone)"
    and alone: "inv s \<Longrightarrow> phase_of s j = Inside x \<Longrightarrow> phase_of s k = Inside y \<Longrightarrow> j = k"
    and moves: "inv s \<Longrightarrow> step s s' \<Longrightarrow>
      section_move text_of (phase_of s) (written s) (phase_of s') (written s')"
begin

lemma texts_whole: "reachable init step s \<Longrightarrow> \<exists>ks. whole_texts text_of ks (phase_of s) (written s)"
proof (induction rule: reachable.induct)
  case (reach_init s)
  with begins [of s] whole_texts_start [of "phase_of s"] show ?case by auto
next
  case (reach_step s s')
  then obtain ks where "whole_texts text_of ks (phase_of s) (written s)" by blast
  from whole_texts_move [OF this moves [OF inv_reachable [OF reach_step.hyps(1)] reach_step.hyps(2)]]
    alone [OF inv_reachable [OF reach_step.hyps(1)]]
    alone [OF inv_step [OF inv_reachable [OF reach_step.hyps(1)] reach_step.hyps(2)]]
  show ?case by blast
qed

text \<open>When two processes are to write and both have, the texts are there one after the other.\<close>

lemma two_texts:
  assumes "whole_texts text_of ks (phase_of s) (written s)"
    and "phase_of s i = After" "phase_of s j = After" "i \<noteq> j"
    and "\<And>k. k \<noteq> i \<Longrightarrow> k \<noteq> j \<Longrightarrow> phase_of s k = Before"
  shows "written s = text_of i @ text_of j \<or> written s = text_of j @ text_of i"
proof -
  have "set ks = {i, j}" "distinct ks" "written s = concat (map text_of ks)"
    using assms unfolding whole_texts_def by (auto; metis phase.distinct)+
  moreover from this assms(4) have "length ks = 2"
    by (metis card_2_iff distinct_card)
  ultimately show ?thesis
    by (auto simp: length_Suc_conv numeral_2_eq_2 doubleton_eq_iff)
qed

end

end
