(* ===== verification/Semaphores.thy ===== *)
theory Semaphores
  imports Sections Posix_IO
begin

text \<open>
  \<^verbatim>\<open>src/ipc_code/named_semaphore/named_semaphore.c\<close>,
  \<^verbatim>\<open>src/ipc_code/unnamed_semaphore/unnamed_semaphore.c\<close> and
  \<^verbatim>\<open>src/ipc_code/unnamed_semaphore/main.c\<close>: a process and its child write a text each to standard
  output, a character at a time, inside a section that a semaphore protects.

  What \<open>main\<close> does up to the \<open>fork\<close> is a program of one process; from then on a step is a call
  of one of the two processes.  \<open>sem_wait\<close> waits while the value of the semaphore is 0.  Both
  \<open>sem_wait\<close> and \<open>sem_post\<close> may also fail, where \<open>fails\<close> is true: the process then prints an
  error message and exits.  A second \<open>sem_init\<close> sets the value of the semaphore and
  \<open>sem_destroy\<close> does nothing, as in the Linux C library; POSIX leaves both open here.  The named
  semaphore does not exist before the program starts, so that \<open>sem_open\<close> gives it the value 1.
\<close>

section \<open>Before the fork\<close>

text \<open>
  The result of \<open>shmat\<close> is a pointer, \<open>-1\<close> when it failed; a pointer is never less than 0, and so
  the test of the source is never true and \<open>sem_init\<close> stores through the pointer.
\<close>

definition shmat_sem :: "int \<Rightarrow> (int \<Rightarrow> 'a io) \<Rightarrow> 'a io" where
  "shmat_sem shmid k = bnd (sysi (CSys ''shmat'' [shmid])) k"

definition sem_init_sem :: "int \<Rightarrow> 'a io \<Rightarrow> 'a io" where
  "sem_init_sem semp k =
     (if semp = -1 then c_fault ''sem_init through an invalid pointer''
      else bnd (sysi (CSys ''sem_init'' [semp, 1, 1])) (\<lambda>rc.
        if rc < 0 then thn (c_perror ''sem_init'') (c_exit 1) else k))"

definition fork_two :: "int io" where
  "fork_two = bnd (sysi CFork) (\<lambda>pid. if pid < 0 then thn (c_perror ''fork'') (c_exit 1) else ret pid)"

definition named_setup :: "int io" where
  "named_setup =
     bnd (sysi (CSys ''sem_open /my_semaphore'' [1])) (\<lambda>semp.
     if semp = 0 then thn (c_perror ''sem_open'') (c_exit 1) else fork_two)"

definition unnamed_setup :: "int io" where
  "unnamed_setup =
     bnd (sysi (CSys ''shmget'' [])) (\<lambda>shmid.
     if shmid = -1 then thn (c_perror ''shmget'') (c_exit 1)
     else shmat_sem shmid (\<lambda>semp. sem_init_sem semp fork_two))"

definition twice_setup :: "int io" where
  "twice_setup =
     bnd (sysi (CSys ''shmget'' [])) (\<lambda>shmid.
     if shmid = -1 then thn (c_perror ''shmget'') (c_exit 1)
     else shmat_sem shmid (\<lambda>_. shmat_sem shmid (\<lambda>semp.
       sem_init_sem semp (thn (c_print ''1st sem_init()'') (sem_init_sem semp fork_two)))))"

text \<open>
  What the first part ends with: both processes go on, or the program exits with status 1, or
  \<open>shmat\<close> has failed and the program stores through its result.
\<close>

definition shmat_failed :: "entry \<Rightarrow> bool" where
  "shmat_failed x = (case x of Sys (CSys f i) r \<Rightarrow> f = ''shmat'' \<and> rv r = -1 | _ \<Rightarrow> False)"

definition setup_post :: "bool \<Rightarrow> int io \<Rightarrow> bool" where
  "setup_post shared m \<longleftrightarrow>
     (\<forall>w. case m w of
        Ret pid w' \<Rightarrow> 0 \<le> pid
      | Stop e w' \<Rightarrow> e = Exited 1 \<or> (\<exists>c. e = Blocked c) \<or>
          shared \<and> e = Fault ''sem_init through an invalid pointer'' \<and>
          (\<exists>x \<in> set (trace w'). shmat_failed x))"

lemma setup_outcomes:
  "setup_post False named_setup" "setup_post True unnamed_setup" "setup_post True twice_setup"
  unfolding setup_post_def wp_def [symmetric]
    named_setup_def unnamed_setup_def twice_setup_def shmat_sem_def sem_init_sem_def fork_two_def
  by (auto simp: wp_simps norm_reply_def shmat_failed_def intro!: wp_callI)

section \<open>The two processes\<close>

datatype writer_pc =
    W_wait | W_putc string | W_post | W_close
  | W_init | W_destroy nat | W_wait2 | W_post2 | W_says string writer_pc
  | W_join | W_clean | W_perror string | W_exit int

record writers =
  sem :: nat
  stdout :: string
  errors :: "string list"
  child :: writer_pc
  parent :: writer_pc

definition child_text :: string where
  "child_text = ''Child process wants to print a long string to stdout.'' @ [LF]"

definition parent_text :: string where
  "parent_text =
     ''Parent process is doing something else. The processes are running concurrently.'' @ [LF]"

definition sem_wait :: "bool \<Rightarrow> writer_pc \<Rightarrow> (writer_pc \<Rightarrow> writers \<Rightarrow> writers) \<Rightarrow> writers \<Rightarrow> writers option" where
  "sem_wait fail p at s =
     (if fail then Some (at (W_perror ''sem_wait'') s)
      else if 0 < sem s then Some (at p (s\<lparr>sem := sem s - 1\<rparr>)) else None)"

definition sem_post :: "bool \<Rightarrow> writer_pc \<Rightarrow> (writer_pc \<Rightarrow> writers \<Rightarrow> writers) \<Rightarrow> writers \<Rightarrow> writers option" where
  "sem_post fail p at s =
     (if fail then Some (at (W_perror ''sem_post'') s)
      else Some (at p (s\<lparr>sem := sem s + 1\<rparr>)))"

text \<open>\<open>charatatime\<close>: one character is written, or none is left.\<close>

definition charatatime :: "string \<Rightarrow> (writer_pc \<Rightarrow> writers \<Rightarrow> writers) \<Rightarrow> writers \<Rightarrow> writers option" where
  "charatatime str at s =
     (case str of
        [] \<Rightarrow> Some (at W_post s)
      | c # cs \<Rightarrow> Some (at (W_putc cs) (s\<lparr>stdout := stdout s @ [c]\<rparr>)))"

text \<open>A \<open>printf\<close> to the unbuffered standard output.\<close>

definition prints :: "string \<Rightarrow> writer_pc \<Rightarrow> (writer_pc \<Rightarrow> writers \<Rightarrow> writers) \<Rightarrow> writers \<Rightarrow> writers option" where
  "prints m p at s = Some (at p (s\<lparr>stdout := stdout s @ m\<rparr>))"

definition report_and_exit :: "string \<Rightarrow> (writer_pc \<Rightarrow> writers \<Rightarrow> writers) \<Rightarrow> writers \<Rightarrow> writers option" where
  "report_and_exit m at s = Some (at (W_exit 1) (s\<lparr>errors := errors s @ [m]\<rparr>))"

definition at_child :: "writer_pc \<Rightarrow> writers \<Rightarrow> writers" where "at_child p s = s\<lparr>child := p\<rparr>"
definition at_parent :: "writer_pc \<Rightarrow> writers \<Rightarrow> writers" where "at_parent p s = s\<lparr>parent := p\<rparr>"

fun exited :: "writer_pc \<Rightarrow> bool" where
  "exited (W_exit n) \<longleftrightarrow> True" | "exited _ \<longleftrightarrow> False"

definition named_child :: "bool \<Rightarrow> writers \<Rightarrow> writers option" where
  "named_child fail s =
     (case child s of
        W_wait \<Rightarrow> sem_wait fail (W_putc child_text) at_child s
      | W_putc cs \<Rightarrow> charatatime cs at_child s
      | W_post \<Rightarrow> sem_post fail W_close at_child s
      | W_close \<Rightarrow> Some (at_child (W_exit 0) s)
      | W_perror m \<Rightarrow> report_and_exit m at_child s
      | _ \<Rightarrow> None)"

definition named_parent :: "bool \<Rightarrow> writers \<Rightarrow> writers option" where
  "named_parent fail s =
     (case parent s of
        W_wait \<Rightarrow> sem_wait fail (W_putc parent_text) at_parent s
      | W_putc cs \<Rightarrow> charatatime cs at_parent s
      | W_post \<Rightarrow> sem_post fail W_close at_parent s
      | W_close \<Rightarrow> Some (at_parent W_join s)
      | W_join \<Rightarrow> (if exited (child s) then Some (at_parent W_clean s) else None)
      | W_clean \<Rightarrow> Some (at_parent (W_exit 0) s)
      | W_perror m \<Rightarrow> report_and_exit m at_parent s
      | _ \<Rightarrow> None)"

definition unnamed_child :: "bool \<Rightarrow> writers \<Rightarrow> writers option" where
  "unnamed_child fail s =
     (case child s of
        W_wait \<Rightarrow> sem_wait fail (W_putc child_text) at_child s
      | W_putc cs \<Rightarrow> charatatime cs at_child s
      | W_post \<Rightarrow> sem_post fail (W_exit 0) at_child s
      | W_perror m \<Rightarrow> report_and_exit m at_child s
      | _ \<Rightarrow> None)"

definition unnamed_parent :: "bool \<Rightarrow> writers \<Rightarrow> writers option" where
  "unnamed_parent fail s =
     (case parent s of
        W_wait \<Rightarrow> sem_wait fail (W_putc parent_text) at_parent s
      | W_putc cs \<Rightarrow> charatatime cs at_parent s
      | W_post \<Rightarrow> sem_post fail W_join at_parent s
      | W_join \<Rightarrow> (if exited (child s) then Some (at_parent W_clean s) else None)
      | W_clean \<Rightarrow> Some (at_parent (W_exit 0) s)
      | W_perror m \<Rightarrow> report_and_exit m at_parent s
      | _ \<Rightarrow> None)"

text \<open>
  \<^verbatim>\<open>unnamed_semaphore/main.c\<close>: the child initialises the semaphore again after its section,
  destroys it twice and waits and posts once more; the parent destroys it, waits and posts.
\<close>

definition twice_child :: "bool \<Rightarrow> writers \<Rightarrow> writers option" where
  "twice_child fail s =
     (case child s of
        W_wait \<Rightarrow> sem_wait fail (W_putc child_text) at_child s
      | W_putc cs \<Rightarrow> charatatime cs at_child s
      | W_post \<Rightarrow> sem_post fail W_init at_child s
      | W_init \<Rightarrow>
          if fail then Some (at_child (W_perror ''sem_init'') s)
          else Some (at_child (W_says (''child call sem_init()'' @ [LF]) (W_destroy 0)) (s\<lparr>sem := 1\<rparr>))
      | W_destroy i \<Rightarrow>
          if fail then Some (at_child (W_perror ''child sem_destroy'') s)
          else Some (at_child (if i = 0 then W_destroy 1
                               else W_says (''child call sem_destroy() twice'' @ [LF]) W_wait2) s)
      | W_says m p \<Rightarrow> prints m p at_child s
      | W_wait2 \<Rightarrow> sem_wait fail W_post2 at_child s
      | W_post2 \<Rightarrow> sem_post fail (W_exit 0) at_child s
      | W_perror m \<Rightarrow> report_and_exit m at_child s
      | _ \<Rightarrow> None)"

definition twice_parent :: "bool \<Rightarrow> writers \<Rightarrow> writers option" where
  "twice_parent fail s =
     (case parent s of
        W_wait \<Rightarrow> sem_wait fail (W_putc parent_text) at_parent s
      | W_putc cs \<Rightarrow> charatatime cs at_parent s
      | W_post \<Rightarrow> sem_post fail W_join at_parent s
      | W_join \<Rightarrow> (if exited (child s) then Some (at_parent (W_destroy 0) s) else None)
      | W_destroy i \<Rightarrow> Some (at_parent W_wait2 s)
      | W_wait2 \<Rightarrow> sem_wait fail W_post2 at_parent s
      | W_post2 \<Rightarrow> sem_post fail (W_says (''parent call sem_destroy()'' @ [LF]) W_clean) at_parent s
      | W_says m p \<Rightarrow> prints m p at_parent s
      | W_clean \<Rightarrow> Some (at_parent (W_exit 0) s)
      | W_perror m \<Rightarrow> report_and_exit m at_parent s
      | _ \<Rightarrow> None)"

inductive writers_step ::
  "(bool \<Rightarrow> writers \<Rightarrow> writers option) \<Rightarrow> (bool \<Rightarrow> writers \<Rightarrow> writers option) \<Rightarrow> bool \<Rightarrow> writers \<Rightarrow> writers \<Rightarrow> bool"
  for child_step parent_step fails where
  child_moves: "(fail \<Longrightarrow> fails) \<Longrightarrow> child_step fail s = Some s' \<Longrightarrow> writers_step child_step parent_step fails s s'"
| parent_moves: "(fail \<Longrightarrow> fails) \<Longrightarrow> parent_step fail s = Some s' \<Longrightarrow> writers_step child_step parent_step fails s s'"

definition forked :: writers where
  "forked = \<lparr>sem = 1, stdout = [], errors = [], child = W_wait, parent = W_wait\<rparr>"

section \<open>Mutual exclusion\<close>

fun holder :: "writer_pc \<Rightarrow> nat" where
  "holder (W_putc cs) = 1" | "holder W_post = 1" | "holder W_post2 = 1" | "holder _ = 0"

fun phase_at :: "writer_pc \<Rightarrow> phase" where
  "phase_at W_wait = Before" | "phase_at (W_putc cs) = Inside cs"
| "phase_at (W_perror m) = Gone" | "phase_at (W_exit n) = (if n = 0 then After else Gone)"
| "phase_at _ = After"

text \<open>Process 0 is the parent, process 1 the child.\<close>

definition writer_phase :: "writers \<Rightarrow> nat \<Rightarrow> phase" where
  "writer_phase s = (\<lambda>k. if k = 0 then phase_at (parent s) else if k = 1 then phase_at (child s) else Before)"

definition writer_text :: "nat \<Rightarrow> string" where
  "writer_text k = (if k = 0 then parent_text else child_text)"

definition sem_ok :: "writers \<Rightarrow> bool" where
  "sem_ok s \<longleftrightarrow> sem s + holder (parent s) + holder (child s) \<le> 1"

lemmas writer_steps = sem_wait_def sem_post_def charatatime_def prints_def report_and_exit_def
  at_child_def at_parent_def

text \<open>How a move of one process looks in the specification.\<close>

lemma phase_update:
  "writer_phase (s\<lparr>child := p\<rparr>) = (writer_phase s)(1 := phase_at p)"
  "writer_phase (s\<lparr>parent := p\<rparr>) = (writer_phase s)(0 := phase_at p)"
  "writer_phase (s\<lparr>sem := v\<rparr>) = writer_phase s"
  "writer_phase (s\<lparr>stdout := o'\<rparr>) = writer_phase s"
  "writer_phase (s\<lparr>errors := e\<rparr>) = writer_phase s"
  by (auto simp: writer_phase_def fun_eq_iff)

lemma phase_same: "ph k = x \<Longrightarrow> section_move text_of ph out (ph(k := x)) out"
  using idles by (metis fun_upd_triv)

lemmas section_moves = enters writes leaves goes_away phase_same


lemma writer_phase_at [simp]:
  "writer_phase s 0 = phase_at (parent s)" "writer_phase s (Suc 0) = phase_at (child s)"
  by (simp_all add: writer_phase_def)

lemma child_section_moves:
  "phase_at (child s) = Before \<Longrightarrow>
     section_move writer_text (writer_phase s) out ((writer_phase s)(Suc 0 := Inside child_text)) out"
  "phase_at (child s) = Inside (c # cs) \<Longrightarrow>
     section_move writer_text (writer_phase s) out ((writer_phase s)(Suc 0 := Inside cs)) (out @ [c])"
  "phase_at (child s) = Inside [] \<Longrightarrow>
     section_move writer_text (writer_phase s) out ((writer_phase s)(Suc 0 := After)) out"
  "phase_at (child s) = Before \<or> phase_at (child s) = After \<Longrightarrow>
     section_move writer_text (writer_phase s) out ((writer_phase s)(Suc 0 := Gone)) out"
  "phase_at (child s) = x \<Longrightarrow>
     section_move writer_text (writer_phase s) out ((writer_phase s)(Suc 0 := x)) out"
  using enters [of "writer_phase s" "Suc 0" writer_text out]
  by (auto intro: section_moves simp: writer_text_def)

lemma parent_section_moves:
  "phase_at (parent s) = Before \<Longrightarrow>
     section_move writer_text (writer_phase s) out ((writer_phase s)(0 := Inside parent_text)) out"
  "phase_at (parent s) = Inside (c # cs) \<Longrightarrow>
     section_move writer_text (writer_phase s) out ((writer_phase s)(0 := Inside cs)) (out @ [c])"
  "phase_at (parent s) = Inside [] \<Longrightarrow>
     section_move writer_text (writer_phase s) out ((writer_phase s)(0 := After)) out"
  "phase_at (parent s) = Before \<or> phase_at (parent s) = After \<Longrightarrow>
     section_move writer_text (writer_phase s) out ((writer_phase s)(0 := Gone)) out"
  "phase_at (parent s) = x \<Longrightarrow>
     section_move writer_text (writer_phase s) out ((writer_phase s)(0 := x)) out"
  using enters [of "writer_phase s" 0 writer_text out]
  by (auto intro: section_moves simp: writer_text_def)

text \<open>What a step of one process does to the specification and to the value of the semaphore.\<close>

definition goes_ok :: "writers \<Rightarrow> writers \<Rightarrow> bool" where
  "goes_ok s s' \<longleftrightarrow>
     section_move writer_text (writer_phase s) (stdout s) (writer_phase s') (stdout s') \<and>
     (sem_ok s \<longrightarrow> sem_ok s')"

lemma named_child_ok: "named_child fail s = Some s' \<Longrightarrow> goes_ok s s'"
  by (cases "child s")
    (auto simp: goes_ok_def named_child_def writer_steps phase_update sem_ok_def
      child_section_moves split: if_splits list.splits)

lemma named_parent_ok: "named_parent fail s = Some s' \<Longrightarrow> goes_ok s s'"
  by (cases "parent s")
    (auto simp: goes_ok_def named_parent_def writer_steps phase_update sem_ok_def
      parent_section_moves split: if_splits list.splits)

lemma unnamed_child_ok: "unnamed_child fail s = Some s' \<Longrightarrow> goes_ok s s'"
  by (cases "child s")
    (auto simp: goes_ok_def unnamed_child_def writer_steps phase_update sem_ok_def
      child_section_moves split: if_splits list.splits)

lemma unnamed_parent_ok: "unnamed_parent fail s = Some s' \<Longrightarrow> goes_ok s s'"
  by (cases "parent s")
    (auto simp: goes_ok_def unnamed_parent_def writer_steps phase_update sem_ok_def
      parent_section_moves split: if_splits list.splits)

lemma sem_ok_alone:
  "sem_ok s \<Longrightarrow> writer_phase s j = Inside x \<Longrightarrow> writer_phase s k = Inside y \<Longrightarrow> j = k"
  by (cases "parent s"; cases "child s") (auto simp: sem_ok_def writer_phase_def split: if_splits)


interpretation named: writing_sections "\<lambda>s. s = forked" "writers_step named_child named_parent fails" sem_ok
  writer_text writer_phase stdout
proof (unfold_locales, goal_cases)
  case (2 s s')
  from 2(2,1) show ?case
    by cases (use named_child_ok named_parent_ok in \<open>auto simp: goes_ok_def\<close>)
next
  case (5 s s')
  from 5(2) show ?case
    by cases (use named_child_ok named_parent_ok in \<open>auto simp: goes_ok_def\<close>)
next
  case (4 s j x k y)
  then show ?case by (rule sem_ok_alone)
qed (auto simp: forked_def sem_ok_def writer_phase_def)

interpretation unnamed: writing_sections "\<lambda>s. s = forked" "writers_step unnamed_child unnamed_parent fails" sem_ok
  writer_text writer_phase stdout
proof (unfold_locales, goal_cases)
  case (2 s s')
  from 2(2,1) show ?case
    by cases (use unnamed_child_ok unnamed_parent_ok in \<open>auto simp: goes_ok_def\<close>)
next
  case (5 s s')
  from 5(2) show ?case
    by cases (use unnamed_child_ok unnamed_parent_ok in \<open>auto simp: goes_ok_def\<close>)
next
  case (4 s j x k y)
  then show ?case by (rule sem_ok_alone)
qed (auto simp: forked_def sem_ok_def writer_phase_def)

section \<open>Termination\<close>

fun rank :: "writer_pc \<Rightarrow> nat" where
  "rank W_wait = 200" | "rank (W_putc cs) = 100 + length cs" | "rank W_post = 90" | "rank W_close = 80"
| "rank W_init = 79" | "rank W_join = 70" | "rank (W_destroy i) = (if i = 0 then 60 else 50)"
| "rank W_wait2 = 40" | "rank W_post2 = 30" | "rank W_clean = 10"
| "rank (W_says m p) = Suc (rank p)" | "rank (W_perror m) = 1" | "rank (W_exit n) = 0"

text \<open>
  Two processes that make their steps without failures: each changes its own place only and gets
  nearer to its end, neither takes the last unit of the semaphore without holding it, and a
  process that cannot go on has ended, waits for the semaphore or, the parent, for the child.
\<close>

locale two_writers =
  fixes cstep pstep :: "bool \<Rightarrow> writers \<Rightarrow> writers option"
    and c_at p_at :: "writer_pc \<Rightarrow> bool"
  assumes start_at: "c_at W_wait" "p_at W_wait"
    and child_own: "c_at (child s) \<Longrightarrow> cstep False s = Some s' \<Longrightarrow>
      parent s' = parent s \<and> c_at (child s') \<and> rank (child s') < rank (child s) \<and>
      (0 < sem s + holder (child s) \<longrightarrow> 0 < sem s' + holder (child s'))"
    and child_stops: "c_at (child s) \<Longrightarrow> cstep False s = None \<Longrightarrow>
      child s = W_exit 0 \<or> sem s = 0 \<and> holder (child s) = 0"
    and parent_own: "p_at (parent s) \<Longrightarrow> pstep False s = Some s' \<Longrightarrow>
      child s' = child s \<and> p_at (parent s') \<and> rank (parent s') < rank (parent s) \<and>
      (0 < sem s + holder (parent s) \<longrightarrow> 0 < sem s' + holder (parent s'))"
    and parent_stops: "p_at (parent s) \<Longrightarrow> pstep False s = None \<Longrightarrow>
      parent s = W_exit 0 \<or>
      holder (parent s) = 0 \<and> (sem s = 0 \<or> \<not> exited (child s))"
begin

definition live :: "writers \<Rightarrow> bool" where
  "live s \<longleftrightarrow> c_at (child s) \<and> p_at (parent s) \<and> 0 < sem s + holder (child s) + holder (parent s)"

lemma live_step:
  assumes "live s" "writers_step cstep pstep False s s'"
  shows "live s' \<and> rank (child s') + rank (parent s') < rank (child s) + rank (parent s)"
  using assms(2)
proof cases
  case (child_moves fail)
  then have "cstep False s = Some s'" by (cases fail) auto
  with child_own [of s s'] assms(1) show ?thesis by (auto simp: live_def)
next
  case (parent_moves fail)
  then have "pstep False s = Some s'" by (cases fail) auto
  with parent_own [of s s'] assms(1) show ?thesis by (auto simp: live_def)
qed

lemma live_progress:
  assumes "live s"
  shows "(child s = W_exit 0 \<and> parent s = W_exit 0) \<or> (\<exists>s'. writers_step cstep pstep False s s')"
proof (rule ccontr)
  assume stuck: "\<not> ?thesis"
  have cnone: "cstep False s = None"
  proof (rule ccontr)
    assume "cstep False s \<noteq> None"
    then obtain s' where "cstep False s = Some s'" by blast
    then have "writers_step cstep pstep False s s'" by (rule child_moves [rotated])
    with stuck show False by blast
  qed
  have pnone: "pstep False s = None"
  proof (rule ccontr)
    assume "pstep False s \<noteq> None"
    then obtain s' where "pstep False s = Some s'" by blast
    then have "writers_step cstep pstep False s s'" by (rule parent_moves [rotated])
    with stuck show False by blast
  qed
  from assms have at: "c_at (child s)" "p_at (parent s)"
    and unit: "0 < sem s + holder (child s) + holder (parent s)" by (simp_all add: live_def)
  from child_stops [OF at(1) cnone] parent_stops [OF at(2) pnone] unit
  have "child s = W_exit 0" "parent s = W_exit 0" by auto
  with stuck show False by blast
qed

sublocale ends: terminating "\<lambda>s. s = forked" "writers_step cstep pstep False" live
  "\<lambda>s. rank (child s) + rank (parent s)" "\<lambda>s. child s = W_exit 0 \<and> parent s = W_exit 0"
proof (unfold_locales, goal_cases)
  case (1 s)
  with start_at show ?case by (simp add: live_def forked_def)
next
  case (2 s s')
  with live_step show ?case by blast
next
  case (3 s s')
  with live_step show ?case by blast
next
  case (4 s)
  then show ?case by (rule live_progress)
qed

end

fun at_section :: "writer_pc \<Rightarrow> bool" where
  "at_section W_wait \<longleftrightarrow> True" | "at_section (W_putc cs) \<longleftrightarrow> length cs < 100" | "at_section W_post \<longleftrightarrow> True"
| "at_section (W_exit n) \<longleftrightarrow> n = 0" | "at_section _ \<longleftrightarrow> False"

fun at_again :: "writer_pc \<Rightarrow> bool" where
  "at_again (W_destroy i) \<longleftrightarrow> i \<le> 1" | "at_again W_wait2 \<longleftrightarrow> True" | "at_again W_post2 \<longleftrightarrow> True"
| "at_again _ \<longleftrightarrow> False"

definition at_named_child :: "writer_pc \<Rightarrow> bool" where
  "at_named_child p \<longleftrightarrow> at_section p \<or> p = W_close"

definition at_named_parent :: "writer_pc \<Rightarrow> bool" where
  "at_named_parent p \<longleftrightarrow> at_section p \<or> p = W_close \<or> p = W_join \<or> p = W_clean"

definition at_unnamed_parent :: "writer_pc \<Rightarrow> bool" where
  "at_unnamed_parent p \<longleftrightarrow> at_section p \<or> p = W_join \<or> p = W_clean"

definition at_twice_child :: "writer_pc \<Rightarrow> bool" where
  "at_twice_child p \<longleftrightarrow>
     at_section p \<or> at_again p \<or> p = W_init \<or> (\<exists>m q. p = W_says m q \<and> at_again q \<and> rank q \<le> 60)"

definition at_twice_parent :: "writer_pc \<Rightarrow> bool" where
  "at_twice_parent p \<longleftrightarrow>
     at_section p \<or> at_again p \<or> p = W_join \<or> p = W_clean \<or> (\<exists>m. p = W_says m W_clean)"

lemma text_lengths: "length child_text = 54" "length parent_text = 80"
  by (simp_all add: child_text_def parent_text_def)


lemmas named_stepping = at_named_child_def at_named_parent_def named_child_def named_parent_def writer_steps text_lengths
lemmas unnamed_stepping = at_unnamed_parent_def unnamed_child_def unnamed_parent_def writer_steps text_lengths
lemmas twice_stepping = at_twice_child_def at_twice_parent_def twice_child_def twice_parent_def writer_steps text_lengths

interpretation named: two_writers named_child named_parent at_named_child at_named_parent
proof (unfold_locales, goal_cases)
  case (3 s s') then show ?case
    by (cases "child s") (auto simp: named_stepping split: if_splits list.splits)
next
  case (4 s) then show ?case
    by (cases "child s") (auto simp: named_stepping split: if_splits list.splits)
next
  case (5 s s') then show ?case
    by (cases "parent s") (auto simp: named_stepping split: if_splits list.splits)
next
  case (6 s) then show ?case
    by (cases "parent s") (auto simp: named_stepping split: if_splits list.splits)
qed (simp_all add: at_named_child_def at_named_parent_def)

interpretation unnamed: two_writers unnamed_child unnamed_parent at_section at_unnamed_parent
proof (unfold_locales, goal_cases)
  case (3 s s') then show ?case
    by (cases "child s") (auto simp: unnamed_stepping split: if_splits list.splits)
next
  case (4 s) then show ?case
    by (cases "child s") (auto simp: unnamed_stepping split: if_splits list.splits)
next
  case (5 s s') then show ?case
    by (cases "parent s") (auto simp: unnamed_stepping split: if_splits list.splits)
next
  case (6 s) then show ?case
    by (cases "parent s") (auto simp: unnamed_stepping split: if_splits list.splits)
qed (simp_all add: at_unnamed_parent_def)

interpretation twice: two_writers twice_child twice_parent at_twice_child at_twice_parent
proof (unfold_locales, goal_cases)
  case (3 s s') then show ?case
    by (cases "child s") (auto simp: twice_stepping split: if_splits list.splits)
next
  case (4 s) then show ?case
    by (cases "child s") (auto simp: twice_stepping split: if_splits list.splits)
next
  case (5 s s') then show ?case
    by (cases "parent s") (auto simp: twice_stepping split: if_splits list.splits)
next
  case (6 s) then show ?case
    by (cases "parent s") (auto simp: twice_stepping split: if_splits list.splits)
qed (simp_all add: at_twice_child_def at_twice_parent_def)


section \<open>Runs\<close>

abbreviation running ::
  "(bool \<Rightarrow> writers \<Rightarrow> writers option) \<Rightarrow> (bool \<Rightarrow> writers \<Rightarrow> writers option) \<Rightarrow> bool \<Rightarrow> writers \<Rightarrow> bool" where
  "running cstep pstep fails \<equiv> reachable (\<lambda>s. s = forked) (writers_step cstep pstep fails)"

lemma running_start: "running cstep pstep fails forked"
  by (simp add: reach_init)

lemma running_child:
  "running cstep pstep fails s \<Longrightarrow> cstep fail s = Some s' \<Longrightarrow> fail \<le> fails \<Longrightarrow> running cstep pstep fails s'"
  by (rule reach_step, assumption, rule child_moves) auto

lemma running_parent:
  "running cstep pstep fails s \<Longrightarrow> pstep fail s = Some s' \<Longrightarrow> fail \<le> fails \<Longrightarrow> running cstep pstep fails s'"
  by (rule reach_step, assumption, rule parent_moves) auto

lemma running_child_puts:
  assumes "\<And>s cs. child s = W_putc cs \<Longrightarrow> cstep False s = charatatime cs at_child s"
  shows "running cstep pstep fails s \<Longrightarrow> child s = W_putc (cs @ ds) \<Longrightarrow>
    running cstep pstep fails (s\<lparr>child := W_putc ds, stdout := stdout s @ cs\<rparr>)"
proof (induction cs arbitrary: s)
  case Nil
  then have "s\<lparr>child := W_putc ds, stdout := stdout s @ []\<rparr> = s" by (cases s) simp
  with Nil(1) show ?case by (simp only:)
next
  case (Cons c cs)
  let ?s = "s\<lparr>child := W_putc (cs @ ds), stdout := stdout s @ [c]\<rparr>"
  from Cons.prems assms have "cstep False s = Some ?s" by (simp add: writer_steps)
  with Cons.prems(1) have "running cstep pstep fails ?s" by (rule running_child) simp
  from Cons.IH [OF this] show ?case by simp
qed

lemma running_parent_puts:
  assumes "\<And>s cs. parent s = W_putc cs \<Longrightarrow> pstep False s = charatatime cs at_parent s"
  shows "running cstep pstep fails s \<Longrightarrow> parent s = W_putc (cs @ ds) \<Longrightarrow>
    running cstep pstep fails (s\<lparr>parent := W_putc ds, stdout := stdout s @ cs\<rparr>)"
proof (induction cs arbitrary: s)
  case Nil
  then have "s\<lparr>parent := W_putc ds, stdout := stdout s @ []\<rparr> = s" by (cases s) simp
  with Nil(1) show ?case by (simp only:)
next
  case (Cons c cs)
  let ?s = "s\<lparr>parent := W_putc (cs @ ds), stdout := stdout s @ [c]\<rparr>"
  from Cons.prems assms have "pstep False s = Some ?s" by (simp add: writer_steps)
  with Cons.prems(1) have "running cstep pstep fails ?s" by (rule running_parent) simp
  from Cons.IH [OF this] show ?case by simp
qed

text \<open>The child has written its text and is about to post.\<close>

lemma running_child_text:
  assumes "\<And>s cs. child s = W_putc cs \<Longrightarrow> cstep False s = charatatime cs at_child s"
    and "\<And>s. child s = W_wait \<Longrightarrow> cstep False s = sem_wait False (W_putc child_text) at_child s"
  shows "running cstep pstep fails
    \<lparr>sem = 0, stdout = child_text, errors = [], child = W_post, parent = W_wait\<rparr>"
proof -
  let ?s = "\<lparr>sem = 0, stdout = [], errors = [], child = W_putc child_text, parent = W_wait\<rparr>"
  have "cstep False forked = Some ?s"
    using assms(2) [of forked] by (simp add: forked_def writer_steps)
  with running_start have "running cstep pstep fails ?s" by (rule running_child) simp
  from running_child_puts [OF assms(1) this, of child_text "[]"]
  have "running cstep pstep fails
    \<lparr>sem = 0, stdout = child_text, errors = [], child = W_putc [], parent = W_wait\<rparr>" (is "running _ _ _ ?t") by simp
  moreover have "cstep False ?t = Some
    \<lparr>sem = 0, stdout = child_text, errors = [], child = W_post, parent = W_wait\<rparr>"
    using assms(1) [of ?t "[]"] by (simp add: writer_steps)
  ultimately show ?thesis by (rule running_child) simp
qed

section \<open>Properties\<close>

text \<open>
  C18. In the programs with a named and with an unnamed semaphore the texts of the two processes do
  not mix, whatever calls fail: standard output is always the complete texts of the processes
  that have written theirs, in some order, and a part of the text of the one that is writing;
  when both have exited with status 0 it is the two texts one after the other.
\<close>

theorem semaphore_texts_whole:
  assumes program: "cstep = named_child \<and> pstep = named_parent \<or> cstep = unnamed_child \<and> pstep = unnamed_parent"
    and run: "reachable (\<lambda>s. s = forked) (writers_step cstep pstep fails) s"
  shows "(\<exists>ks. whole_texts writer_text ks (writer_phase s) (stdout s)) \<and>
         (child s = W_exit 0 \<and> parent s = W_exit 0 \<longrightarrow>
            stdout s = child_text @ parent_text \<or> stdout s = parent_text @ child_text)"
proof -
  from program run named.texts_whole [of fails s] unnamed.texts_whole [of fails s]
  obtain ks where ks: "whole_texts writer_text ks (writer_phase s) (stdout s)" by blast
  moreover have "stdout s = writer_text 0 @ writer_text 1 \<or> stdout s = writer_text 1 @ writer_text 0"
    if "child s = W_exit 0" "parent s = W_exit 0"
    by (rule named.two_texts [OF ks]) (use that in \<open>auto simp: writer_phase_def\<close>)
  ultimately show ?thesis by (auto simp: writer_text_def)
qed

theorem semaphore_texts_whole_witness:
  "\<exists>s. reachable (\<lambda>s. s = forked) (writers_step named_child named_parent False) s \<and>
       (stdout s = child_text @ parent_text \<or> stdout s = parent_text @ child_text)"
proof -
  obtain s where s: "(writers_step named_child named_parent False)\<^sup>*\<^sup>* forked s"
    "child s = W_exit 0" "parent s = W_exit 0"
    using named.ends.reaches_goal [OF named.ends.inv_init [OF refl]] by blast
  with running_start have "reachable (\<lambda>s. s = forked) (writers_step named_child named_parent False) s"
    by (blast intro: reachable_run)
  with semaphore_texts_whole [OF _ this] s show ?thesis by blast
qed

text \<open>
  When no call fails all three programs end: no run goes on for ever, and from every reachable
  state the child and the parent get to their exit with status 0.
\<close>

theorem semaphore_programs_end:
  assumes "cstep = named_child \<and> pstep = named_parent \<or> cstep = unnamed_child \<and> pstep = unnamed_parent \<or>
           cstep = twice_child \<and> pstep = twice_parent"
    and "reachable (\<lambda>s. s = forked) (writers_step cstep pstep False) s"
  shows "\<not> (\<exists>f. f 0 = forked \<and> (\<forall>i. writers_step cstep pstep False (f i) (f (Suc i)))) \<and>
         (\<exists>s'. (writers_step cstep pstep False)\<^sup>*\<^sup>* s s' \<and> child s' = W_exit 0 \<and> parent s' = W_exit 0)"
proof -
  from assms(1) consider "cstep = named_child" "pstep = named_parent"
    | "cstep = unnamed_child" "pstep = unnamed_parent" | "cstep = twice_child" "pstep = twice_parent" by blast
  then show ?thesis
  proof cases
    case 1
    with assms(2) show ?thesis
      using named.ends.no_infinite_run named.ends.reaches_goal [OF named.ends.inv_reachable] by blast
  next
    case 2
    with assms(2) show ?thesis
      using unnamed.ends.no_infinite_run unnamed.ends.reaches_goal [OF unnamed.ends.inv_reachable] by blast
  next
    case 3
    with assms(2) show ?thesis
      using twice.ends.no_infinite_run twice.ends.reaches_goal [OF twice.ends.inv_reachable] by blast
  qed
qed

theorem semaphore_programs_end_witness:
  "\<exists>s'. (writers_step twice_child twice_parent False)\<^sup>*\<^sup>* forked s' \<and> child s' = W_exit 0 \<and> parent s' = W_exit 0"
  using semaphore_programs_end [of twice_child twice_parent forked] by (simp add: reach_init)

text \<open>
  A process whose \<open>sem_post\<close> fails exits and keeps the semaphore: the other process waits for
  ever, unless a signal interrupts its call.
\<close>

theorem lost_post_blocks:
  "(\<exists>s. reachable (\<lambda>s. s = forked) (writers_step named_child named_parent True) s \<and>
        child s = W_exit 1 \<and> parent s = W_wait \<and> (\<forall>s'. \<not> writers_step named_child named_parent False s s')) \<and>
   (\<exists>s. reachable (\<lambda>s. s = forked) (writers_step unnamed_child unnamed_parent True) s \<and>
        child s = W_exit 1 \<and> parent s = W_wait \<and> (\<forall>s'. \<not> writers_step unnamed_child unnamed_parent False s s'))"
proof -
  let ?s = "\<lparr>sem = 0, stdout = child_text, errors = [''sem_post''], child = W_exit 1, parent = W_wait\<rparr>"
  let ?t = "\<lparr>sem = 0, stdout = child_text, errors = [], child = W_perror ''sem_post'', parent = W_wait\<rparr>"
  have "running named_child named_parent True ?t"
    by (rule running_child [where fail = True, OF running_child_text])
      (simp_all add: named_child_def writer_steps)
  then have n: "running named_child named_parent True ?s"
    by (rule running_child [where fail = False]) (simp_all add: named_child_def writer_steps)
  have "running unnamed_child unnamed_parent True ?t"
    by (rule running_child [where fail = True, OF running_child_text])
      (simp_all add: unnamed_child_def writer_steps)
  then have u: "running unnamed_child unnamed_parent True ?s"
    by (rule running_child [where fail = False]) (simp_all add: unnamed_child_def writer_steps)
  have "\<not> writers_step named_child named_parent False ?s s'" for s'
    by (auto simp: named_child_def named_parent_def sem_wait_def elim!: writers_step.cases split: if_splits)
  moreover have "\<not> writers_step unnamed_child unnamed_parent False ?s s'" for s'
    by (auto simp: unnamed_child_def unnamed_parent_def sem_wait_def elim!: writers_step.cases split: if_splits)
  ultimately show ?thesis using n u by (intro conjI exI [of _ ?s]) simp_all
qed

text \<open>
  In \<^verbatim>\<open>unnamed_semaphore/main.c\<close> the texts can mix: the child prints a message outside its
  section while the parent is in the middle of its text, and the second \<open>sem_init\<close> gives the
  semaphore a unit although the parent holds it.
\<close>

theorem twice_texts_mix:
  "\<exists>s. reachable (\<lambda>s. s = forked) (writers_step twice_child twice_parent False) s \<and>
       stdout s = child_text @ take 6 parent_text @ ''child call sem_init()'' @ [LF] \<and>
       parent s = W_putc (drop 6 parent_text) \<and> sem s = 1"
proof -
  let ?st = "\<lambda>v out c p. \<lparr>sem = v, stdout = out, errors = [], child = c, parent = p\<rparr>"
  have "running twice_child twice_parent False (?st 0 child_text W_post W_wait)"
    by (rule running_child_text) (simp_all add: twice_child_def)
  then have "running twice_child twice_parent False (?st 1 child_text W_init W_wait)"
    by (rule running_child [where fail = False]) (simp_all add: twice_child_def writer_steps)
  then have "running twice_child twice_parent False (?st 0 child_text W_init (W_putc parent_text))"
    by (rule running_parent [where fail = False]) (simp_all add: twice_parent_def writer_steps)
  from running_parent_puts [OF _ this, of "take 6 parent_text" "drop 6 parent_text"]
  have "running twice_child twice_parent False
     (?st 0 (child_text @ take 6 parent_text) W_init (W_putc (drop 6 parent_text)))"
    by (simp add: twice_parent_def)
  then have "running twice_child twice_parent False
     (?st 1 (child_text @ take 6 parent_text) (W_says (''child call sem_init()'' @ [LF]) (W_destroy 0))
        (W_putc (drop 6 parent_text)))"
    by (rule running_child [where fail = False]) (simp_all add: twice_child_def writer_steps)
  then have "running twice_child twice_parent False
     (?st 1 ((child_text @ take 6 parent_text) @ ''child call sem_init()'' @ [LF]) (W_destroy 0)
        (W_putc (drop 6 parent_text)))"
    by (rule running_child [where fail = False]) (simp_all add: twice_child_def writer_steps)
  then show ?thesis by (intro exI conjI) (assumption | simp)+
qed

end
