(* ===== verification/Process_Semaphore.thy ===== *)
theory Process_Semaphore
  imports Sections Posix_IO
begin

text \<open>
  \<^verbatim>\<open>src/ipc_code/process_semaphore/process_semaphore.c\<close>: two children append a text each to a string
  in shared memory, in a section that a System V semaphore protects; the parent waits for both
  and prints the string.

  A step is a call of a process, or the store of one character by \<open>sprintf\<close>.  Where \<open>fails\<close> is
  true, \<open>semop\<close> and \<open>fork\<close> may fail.  The operations on the semaphore are made with \<open>SEM_UNDO\<close>: the
  kernel adds up for every process what it has to give back, and does so when the process exits.
  A store outside the shared memory would be \<open>Q_fault\<close>.
\<close>

section \<open>The program\<close>

definition SHM_SIZE :: nat where "SHM_SIZE = 1024"

datatype kid_pc =
    Q_start | Q_wait | Q_strlen | Q_put nat string | Q_post
  | Q_perror | Q_leave int | Q_exit int | Q_fault

record kid =
  qpc :: kid_pc
  undo :: nat

datatype boss_pc = B_fork nat | B_perror | B_wait nat | B_print | B_remove | B_exit int

record psem =
  semval :: nat
  shm :: string
  console :: string
  kids :: "kid list"
  boss :: boss_pc

text \<open>What \<open>main\<close> does before the first \<open>fork\<close>.\<close>

definition psem_setup :: "unit io" where
  "psem_setup =
     bnd (sysi (CSys ''shmget'' [int SHM_SIZE])) (\<lambda>shmid.
     if shmid = -1 then thn (c_perror ''shmget'') (c_exit 1)
     else bnd (sysi (CSys ''shmat'' [shmid])) (\<lambda>shmaddr.
     if shmaddr = -1 then thn (c_perror ''shmat'') (c_exit 1)
     else bnd (sysi (CSys ''semget'' [1])) (\<lambda>semid.
     if semid = -1 then thn (c_perror ''semget'') (c_exit 1)
     else bnd (sysi (CSys ''semctl SETVAL'' [semid, 0, 1])) (\<lambda>rc.
     if rc = -1 then thn (c_perror ''semctl'') (c_exit 1) else ret ()))))"

text \<open>The shared memory is zeroed and the semaphore is 1.\<close>

definition psem_start :: psem where
  "psem_start =
     \<lparr>semval = 1, shm = replicate SHM_SIZE NUL, console = [], kids = [], boss = B_fork 0\<rparr>"

definition kid_text :: "nat \<Rightarrow> string" where
  "kid_text k = ''Child process '' @ show_nat (k + 1) @ '' wrote to shared memory'' @ [LF]"

definition put_kid :: "nat \<Rightarrow> kid \<Rightarrow> psem \<Rightarrow> psem" where
  "put_kid k q s = s\<lparr>kids := (kids s)[k := q]\<rparr>"

definition psem_wait :: "bool \<Rightarrow> nat \<Rightarrow> psem \<Rightarrow> psem option" where
  "psem_wait fail k s =
     (let q = kids s ! k in
      if fail then Some (put_kid k (q\<lparr>qpc := Q_perror\<rparr>) s)
      else if 0 < semval s
      then Some (put_kid k (q\<lparr>qpc := Q_strlen, undo := undo q + 1\<rparr>) (s\<lparr>semval := semval s - 1\<rparr>))
      else None)"

definition psem_post :: "bool \<Rightarrow> nat \<Rightarrow> psem \<Rightarrow> psem option" where
  "psem_post fail k s =
     (let q = kids s ! k in
      if fail then Some (put_kid k (q\<lparr>qpc := Q_perror\<rparr>) s)
      else Some (put_kid k (q\<lparr>qpc := Q_leave 0, undo := undo q - 1\<rparr>) (s\<lparr>semval := semval s + 1\<rparr>)))"

text \<open>The string in the shared memory.\<close>

definition contents :: "psem \<Rightarrow> string" where
  "contents s = cstr (shm s)"

text \<open>A step of child \<open>k + 1\<close>.\<close>

definition kid_step :: "bool \<Rightarrow> nat \<Rightarrow> psem \<Rightarrow> psem option" where
  "kid_step fail k s =
     (let q = kids s ! k; at = (\<lambda>p. put_kid k (q\<lparr>qpc := p\<rparr>)) in
      case qpc q of
        Q_start \<Rightarrow>
          Some (at Q_wait (s\<lparr>console := console s @ ''Child process '' @ show_nat (k + 1) @ '' starts'' @ [LF]\<rparr>))
      | Q_wait \<Rightarrow> psem_wait fail k s
      | Q_strlen \<Rightarrow>
          Some (at (if NUL \<in> set (shm s) then Q_put (length (contents s)) (kid_text k @ [NUL]) else Q_fault) s)
      | Q_put pos (c # cs) \<Rightarrow>
          Some (if pos < length (shm s) then at (Q_put (pos + 1) cs) (s\<lparr>shm := (shm s)[pos := c]\<rparr>)
                else at Q_fault s)
      | Q_put pos [] \<Rightarrow> Some (at Q_post s)
      | Q_post \<Rightarrow> psem_post fail k s
      | Q_perror \<Rightarrow> Some (at (Q_leave 1) s)
      | Q_leave n \<Rightarrow>
          Some (put_kid k (q\<lparr>qpc := Q_exit n, undo := 0\<rparr>) (s\<lparr>semval := semval s + undo q\<rparr>))
      | Q_exit n \<Rightarrow> None
      | Q_fault \<Rightarrow> None)"

fun has_exited :: "kid_pc \<Rightarrow> bool" where
  "has_exited (Q_exit n) \<longleftrightarrow> True" | "has_exited _ \<longleftrightarrow> False"

text \<open>A step of the parent; \<open>B_wait j\<close>: it has waited for \<open>j\<close> children.\<close>

definition boss_step :: "bool \<Rightarrow> psem \<Rightarrow> psem option" where
  "boss_step fail s =
     (case boss s of
        B_fork i \<Rightarrow>
          if i < 2
          then if fail then Some (s\<lparr>boss := B_perror\<rparr>)
               else Some (s\<lparr>kids := kids s @ [\<lparr>qpc = Q_start, undo = 0\<rparr>], boss := B_fork (i + 1)\<rparr>)
          else Some (s\<lparr>boss := B_wait 0\<rparr>)
      | B_perror \<Rightarrow> Some (s\<lparr>boss := B_exit 1\<rparr>)
      | B_wait j \<Rightarrow>
          if j < 2
          then if j < length (filter (\<lambda>q. has_exited (qpc q)) (kids s)) then Some (s\<lparr>boss := B_wait (j + 1)\<rparr>)
               else None
          else Some (s\<lparr>boss := B_print\<rparr>)
      | B_print \<Rightarrow>
          Some (s\<lparr>console := console s @ ''parent read:'' @ [LF] @ contents s, boss := B_remove\<rparr>)
      | B_remove \<Rightarrow> Some (s\<lparr>boss := B_exit 0\<rparr>)
      | B_exit n \<Rightarrow> None)"

inductive psem_step :: "bool \<Rightarrow> psem \<Rightarrow> psem \<Rightarrow> bool" for fails where
  kid_moves: "(fail \<Longrightarrow> fails) \<Longrightarrow> k < length (kids s) \<Longrightarrow> kid_step fail k s = Some s' \<Longrightarrow> psem_step fails s s'"
| boss_moves: "(fail \<Longrightarrow> fails) \<Longrightarrow> boss_step fail s = Some s' \<Longrightarrow> psem_step fails s s'"

section \<open>The invariant\<close>

text \<open>What a child holds of the semaphore, by its place.\<close>

fun kid_ok :: "kid_pc \<Rightarrow> nat \<Rightarrow> bool" where
  "kid_ok Q_start u \<longleftrightarrow> u = 0" | "kid_ok Q_wait u \<longleftrightarrow> u = 0" | "kid_ok Q_strlen u \<longleftrightarrow> u = 1"
| "kid_ok (Q_put pos cs) u \<longleftrightarrow> u = 1" | "kid_ok Q_post u \<longleftrightarrow> u = 1" | "kid_ok Q_perror u \<longleftrightarrow> u \<le> 1"
| "kid_ok (Q_leave n) u \<longleftrightarrow> u \<le> 1" | "kid_ok (Q_exit n) u \<longleftrightarrow> u = 0" | "kid_ok Q_fault u \<longleftrightarrow> False"

text \<open>A child that writes does so at the end of the string, and ends with a NUL.\<close>

definition put_ok :: "psem \<Rightarrow> kid_pc \<Rightarrow> bool" where
  "put_ok s p \<longleftrightarrow>
     (case p of
        Q_put pos cs \<Rightarrow> cs = [] \<or> last cs = NUL \<and> NUL \<notin> set (butlast cs) \<and> pos = length (contents s)
      | _ \<Rightarrow> True)"

text \<open>The characters a child still has to write, at most.\<close>

fun to_write :: "kid_pc \<Rightarrow> nat" where
  "to_write Q_start = 50" | "to_write Q_wait = 50" | "to_write Q_strlen = 50"
| "to_write (Q_put pos cs) = length cs" | "to_write _ = 0"

definition shm_ok :: "psem \<Rightarrow> bool" where
  "shm_ok s \<longleftrightarrow>
     shm s = contents s @ replicate (SHM_SIZE - length (contents s)) NUL \<and>
     length (contents s) + (\<Sum>q \<leftarrow> kids s. to_write (qpc q)) + (2 - length (kids s)) * 50 \<le> 100"

fun boss_ok :: "boss_pc \<Rightarrow> kid list \<Rightarrow> bool" where
  "boss_ok (B_fork i) qs \<longleftrightarrow> length qs = i \<and> i \<le> 2"
| "boss_ok B_perror qs \<longleftrightarrow> length qs < 2"
| "boss_ok (B_wait j) qs \<longleftrightarrow> length qs = 2 \<and> j \<le> length (filter (\<lambda>q. has_exited (qpc q)) qs)"
| "boss_ok (B_exit n) qs \<longleftrightarrow>
     (if n = 0 then length qs = 2 \<and> (\<forall>q \<in> set qs. has_exited (qpc q)) else length qs < 2)"
| "boss_ok _ qs \<longleftrightarrow> length qs = 2 \<and> (\<forall>q \<in> set qs. has_exited (qpc q))"

fun has_printed :: "boss_pc \<Rightarrow> bool" where
  "has_printed B_remove \<longleftrightarrow> True" | "has_printed (B_exit n) \<longleftrightarrow> n = 0" | "has_printed _ \<longleftrightarrow> False"

definition report_ok :: "psem \<Rightarrow> bool" where
  "report_ok s \<longleftrightarrow>
     (has_printed (boss s) \<longrightarrow> (\<exists>pre. console s = pre @ ''parent read:'' @ [LF] @ contents s))"

definition psem_ok :: "psem \<Rightarrow> bool" where
  "psem_ok s \<longleftrightarrow>
     semval s + (\<Sum>q \<leftarrow> kids s. undo q) = 1 \<and>
     (\<forall>q \<in> set (kids s). kid_ok (qpc q) (undo q) \<and> put_ok s (qpc q)) \<and>
     shm_ok s \<and> boss_ok (boss s) (kids s) \<and> report_ok s"

lemmas psem_ok_defs = psem_ok_def report_ok_def

lemma kid_text_eq:
  "kid_text 0 = ''Child process 1 wrote to shared memory'' @ [LF]"
  "kid_text (Suc 0) = ''Child process 2 wrote to shared memory'' @ [LF]"
proof -
  have "show_nat (Suc 0) = ''1''" "show_nat (Suc (Suc 0)) = ''2''" by code_simp+
  then show "kid_text 0 = ''Child process 1 wrote to shared memory'' @ [LF]"
    "kid_text (Suc 0) = ''Child process 2 wrote to shared memory'' @ [LF]" by (simp_all add: kid_text_def numeral_2_eq_2)
qed

lemma kid_text_length: "k < 2 \<Longrightarrow> length (kid_text k) = 39 \<and> NUL \<notin> set (kid_text k)"
proof -
  assume "k < 2"
  then consider "k = 0" | "k = 1" by linarith
  then show ?thesis by cases (simp_all add: kid_text_eq)
qed

section \<open>Stores into the shared memory\<close>

lemma shm_shape:
  assumes "shm s = contents s @ replicate n NUL"
  shows "(shm s)[length (contents s) := NUL] = shm s"
    and "0 < n \<Longrightarrow> (shm s)[length (contents s) := c] = contents s @ c # replicate (n - 1) NUL"
    and "length (shm s) = length (contents s) + n"
    and "0 < n \<Longrightarrow> NUL \<in> set (shm s)"
proof -
  let ?w = "contents s"
  show "(shm s)[length ?w := NUL] = shm s"
    unfolding assms by (cases n) (simp_all add: list_update_append list_update_beyond)
  show "(shm s)[length ?w := c] = ?w @ c # replicate (n - 1) NUL" if "0 < n"
    using that unfolding assms by (cases n) (simp_all add: list_update_append)
  show "length (shm s) = length ?w + n" by (subst assms) simp
  show "NUL \<in> set (shm s)" if "0 < n" using that by (subst assms) simp
qed

lemma cstr_extended: "NUL \<notin> set w \<Longrightarrow> c \<noteq> NUL \<Longrightarrow> cstr (w @ c # replicate n NUL) = w @ [c]"
  using cstr_append_NUL [of "w @ [c]"] cstr_id [of "w @ [c]"] by (cases n) auto

lemma contents_put:
  assumes "shm_ok s" "length (contents s) < 200" "c \<noteq> NUL" "shm s' = (shm s)[length (contents s) := c]"
  shows "contents s' = contents s @ [c]"
    and "shm s' = contents s' @ replicate (SHM_SIZE - length (contents s')) NUL"
proof -
  let ?n = "SHM_SIZE - length (contents s)"
  have n: "0 < ?n" "?n - 1 = SHM_SIZE - length (contents s @ [c])"
    using assms(2) by (simp_all add: SHM_SIZE_def)
  from assms(1) have shm: "shm s = contents s @ replicate ?n NUL" by (simp add: shm_ok_def)
  from shm_shape(2) [OF this n(1)] assms(4)
  have eq: "shm s' = contents s @ c # replicate (?n - 1) NUL" by (simp only:)
  then show w: "contents s' = contents s @ [c]"
    using assms(3) by (simp add: contents_def cstr_extended)
  show "shm s' = contents s' @ replicate (SHM_SIZE - length (contents s')) NUL"
    unfolding w eq n(2) by simp
qed

lemma contents_put_NUL:
  assumes "shm_ok s" "shm s' = (shm s)[length (contents s) := NUL]"
  shows "shm s' = shm s" "contents s' = contents s"
proof -
  from assms(1) have "shm s = contents s @ replicate (SHM_SIZE - length (contents s)) NUL" by (simp add: shm_ok_def)
  from shm_shape(1) [OF this] assms(2) show "shm s' = shm s" by simp
  then show "contents s' = contents s" by (simp add: contents_def)
qed

section \<open>The invariant holds\<close>

text \<open>A child that holds the semaphore is the only one.\<close>

lemma only_holder:
  assumes "psem_ok s" "j < length (kids s)" "k < length (kids s)"
    and "undo (kids s ! j) = 1" "undo (kids s ! k) = 1"
  shows "j = k"
proof (rule ccontr)
  assume "j \<noteq> k"
  with sum_list_two_le [OF assms(2,3), of undo] assms(4,5) have "2 \<le> (\<Sum>q \<leftarrow> kids s. undo q)" by simp
  with assms(1) show False by (simp add: psem_ok_def)
qed

text \<open>A move of child \<open>k\<close> that leaves the string as it is.\<close>

lemma kid_moves_ok:
  assumes ok: "psem_ok s" and k: "k < length (kids s)" and not_exited: "\<not> has_exited (qpc (kids s ! k))"
    and kids: "kids s' = (kids s)[k := q]" and shm: "shm s' = shm s" and boss: "boss s' = boss s"
    and units: "semval s' + undo q = semval s + undo (kids s ! k)"
    and q: "kid_ok (qpc q) (undo q)" "put_ok s (qpc q)" "to_write (qpc q) \<le> to_write (qpc (kids s ! k))"
    and console: "\<not> has_printed (boss s) \<or> console s' = console s"
  shows "psem_ok s'"
proof -
  have cont [simp]: "contents s' = contents s" by (simp add: contents_def shm)
  have put: "put_ok s' p = put_ok s p" for p by (cases p) (simp_all add: put_ok_def)
  have sum: "semval s' + (\<Sum>q \<leftarrow> kids s'. undo q) = 1"
    using ok sum_list_update [OF k, of undo q] units by (simp add: psem_ok_def kids)
  have each: "kid_ok (qpc e) (undo e) \<and> put_ok s' (qpc e)" if "e \<in> set (kids s')" for e
    using that ok q set_update_subset_insert [of "kids s" k q] by (auto simp: psem_ok_def kids put)
  have mem: "shm_ok s'"
    using ok sum_list_update [OF k, of "\<lambda>q. to_write (qpc q)" q] q(3) by (simp add: psem_ok_def shm_ok_def kids shm)
  have "\<not> (\<forall>q \<in> set (kids s). has_exited (qpc q))" using k not_exited nth_mem by blast
  moreover have "length (filter (\<lambda>q. has_exited (qpc q)) (kids s)) \<le> length (filter (\<lambda>q. has_exited (qpc q)) (kids s'))"
    using k not_exited sum_list_update [OF k, of "\<lambda>q. if has_exited (qpc q) then 1 else 0 :: nat" q]
    by (simp add: kids length_filter_sum)
  ultimately have main: "boss_ok (boss s') (kids s')"
    using ok by (cases "boss s") (auto simp: psem_ok_def boss kids split: if_splits)
  have rep: "report_ok s'"
    using ok console by (auto simp: psem_ok_def report_ok_def boss)
  show ?thesis unfolding psem_ok_def using sum each mem main rep by blast
qed

text \<open>The store of a character by the child that holds the semaphore.\<close>

lemma kid_stores_ok:
  assumes ok: "psem_ok s" and k: "k < length (kids s)" and q: "kids s ! k = \<lparr>qpc = Q_put pos (c # cs), undo = u\<rparr>"
    and s': "s' = s\<lparr>shm := (shm s)[pos := c], kids := (kids s)[k := \<lparr>qpc = Q_put (pos + 1) cs, undo = u\<rparr>]\<rparr>"
  shows "psem_ok s' \<and> pos < length (shm s) \<and> contents s' = contents s @ (if cs = [] then [] else [c])"
proof -
  have "kids s ! k \<in> set (kids s)" using k by simp
  with ok q have u: "u = 1" and put: "last (c # cs) = NUL" "NUL \<notin> set (butlast (c # cs))" "pos = length (contents s)"
    by (auto simp: psem_ok_def put_ok_def)
  have mem: "shm_ok s" using ok by (simp add: psem_ok_def)
  have short: "length (contents s) < 200" using mem by (auto simp: shm_ok_def)
  then have room: "pos < length (shm s)"
    using put(3) shm_shape(3) [of s "SHM_SIZE - length (contents s)"] mem by (simp add: shm_ok_def SHM_SIZE_def)
  have shm': "shm s' = (shm s)[length (contents s) := c]" by (simp add: s' put(3))
  have conts: "contents s' = contents s @ (if cs = [] then [] else [c])"
    and shape: "shm s' = contents s' @ replicate (SHM_SIZE - length (contents s')) NUL"
  proof -
    have "contents s' = contents s @ (if cs = [] then [] else [c]) \<and>
      shm s' = contents s' @ replicate (SHM_SIZE - length (contents s')) NUL"
    proof (cases "cs = []")
      case True
      with put(1) shm' have "shm s' = (shm s)[length (contents s) := NUL]" by simp
      from contents_put_NUL [OF mem this] mem True show ?thesis by (simp add: shm_ok_def)
    next
      case False
      with put(2) have "c \<noteq> NUL" by auto
      from contents_put [OF mem short this shm'] False show ?thesis by simp
    qed
    then show "contents s' = contents s @ (if cs = [] then [] else [c])"
      "shm s' = contents s' @ replicate (SHM_SIZE - length (contents s')) NUL" by blast+
  qed
  have others: "put_ok s' (qpc e)" if "e \<in> set (kids s')" for e
  proof -
    from that obtain j where j: "j < length (kids s)" "e = kids s' ! j"
      by (auto simp: s' in_set_conv_nth)
    show ?thesis
    proof (cases "j = k")
      case True
      with j k put conts show ?thesis by (auto simp: s' put_ok_def)
    next
      case False
      with j have e: "e = kids s ! j" by (simp add: s')
      moreover have "undo (kids s ! j) \<noteq> 1" using only_holder [OF ok j(1) k] False q u by auto
      moreover have "kid_ok (qpc (kids s ! j)) (undo (kids s ! j))" using ok j(1) by (simp add: psem_ok_def)
      ultimately show ?thesis by (cases "qpc (kids s ! j)") (auto simp: put_ok_def)
    qed
  qed
  have same_undo: "map undo (kids s') = map undo (kids s)"
    using k q by (simp add: s' map_update list_update_same_conv)
  have fewer: "(\<Sum>q \<leftarrow> kids s'. to_write (qpc q)) + 1 = (\<Sum>q \<leftarrow> kids s. to_write (qpc q))"
    using sum_list_update [OF k, of "\<lambda>q. to_write (qpc q)" "\<lparr>qpc = Q_put (pos + 1) cs, undo = u\<rparr>"] q
    by (simp add: s')
  have mem': "shm_ok s'"
    using mem shape fewer conts by (auto simp: shm_ok_def s' split: if_splits)
  have "\<not> has_exited (qpc (kids s ! k))" by (simp add: q)
  then have all: "\<not> (\<forall>q \<in> set (kids s). has_exited (qpc q))" using k nth_mem by blast
  have "length (filter (\<lambda>q. has_exited (qpc q)) (kids s')) = length (filter (\<lambda>q. has_exited (qpc q)) (kids s))"
    using sum_list_update [OF k, of "\<lambda>q. if has_exited (qpc q) then 1 else 0 :: nat" "\<lparr>qpc = Q_put (pos + 1) cs, undo = u\<rparr>"] q
    by (simp add: s' length_filter_sum)
  with all have main: "boss_ok (boss s') (kids s')" "report_ok s'"
    using ok by (cases "boss s"; auto simp: psem_ok_def report_ok_def s' split: if_splits)+
  have own: "kid_ok (qpc e) (undo e)" if "e \<in> set (kids s')" for e
    using that ok u set_update_subset_insert [of "kids s" k "\<lparr>qpc = Q_put (pos + 1) cs, undo = u\<rparr>"]
    by (auto simp: psem_ok_def s')
  have "semval s' + (\<Sum>q \<leftarrow> kids s'. undo q) = 1"
    using ok by (simp add: psem_ok_def same_undo) (simp add: s')
  then show ?thesis unfolding psem_ok_def using own others mem' main room conts by blast
qed

section \<open>The children in the specification\<close>

fun kid_phase :: "kid_pc \<Rightarrow> phase" where
  "kid_phase (Q_put pos cs) = (if cs = [] then After else Inside (butlast cs))"
| "kid_phase Q_post = After" | "kid_phase Q_perror = Gone"
| "kid_phase (Q_leave n) = (if n = 0 then After else Gone)"
| "kid_phase (Q_exit n) = (if n = 0 then After else Gone)"
| "kid_phase Q_fault = Gone" | "kid_phase _ = Before"

definition psem_phase :: "psem \<Rightarrow> nat \<Rightarrow> phase" where
  "psem_phase s = (\<lambda>k. if k < length (kids s) then kid_phase (qpc (kids s ! k)) else Before)"

lemma psem_phase_update:
  "k < length (kids s) \<Longrightarrow> kids s' = (kids s)[k := q] \<Longrightarrow>
     psem_phase s' = (psem_phase s)(k := kid_phase (qpc q))"
  by (auto simp: psem_phase_def fun_eq_iff)

lemma psem_phase_at: "k < length (kids s) \<Longrightarrow> psem_phase s k = kid_phase (qpc (kids s ! k))"
  by (simp add: psem_phase_def)

lemma psem_phase_alone:
  assumes "psem_ok s" "psem_phase s j = Inside x" "psem_phase s k = Inside y"
  shows "j = k"
proof -
  have holds: "i < length (kids s) \<and> undo (kids s ! i) = 1" if "psem_phase s i = Inside z" for i z
  proof -
    from that have i: "i < length (kids s)" "kid_phase (qpc (kids s ! i)) = Inside z"
      by (auto simp: psem_phase_def split: if_splits)
    moreover from assms(1) i(1) have "kid_ok (qpc (kids s ! i)) (undo (kids s ! i))" by (simp add: psem_ok_def)
    ultimately show ?thesis by (cases "qpc (kids s ! i)") (auto split: if_splits)
  qed
  from holds [OF assms(2)] holds [OF assms(3)] only_holder [OF assms(1)] show ?thesis by blast
qed

lemma kids_two: "psem_ok s \<Longrightarrow> length (kids s) \<le> 2"
  by (cases "boss s") (auto simp: psem_ok_def split: if_splits)

lemma not_printed: "psem_ok s \<Longrightarrow> k < length (kids s) \<Longrightarrow> \<not> has_exited (qpc (kids s ! k)) \<Longrightarrow> \<not> has_printed (boss s)"
  using nth_mem by (cases "boss s") (fastforce simp: psem_ok_def split: if_splits)+

text \<open>One move of child \<open>k\<close> in the specification.\<close>

lemma kid_phase_moves:
  assumes "k < length (kids s)" "kids s' = (kids s)[k := q]"
    and "contents s' = contents s \<and>
           (kid_phase (qpc (kids s ! k)) = kid_phase (qpc q) \<or>
            kid_phase (qpc (kids s ! k)) = Before \<and> kid_phase (qpc q) = Inside (kid_text k) \<or>
            kid_phase (qpc (kids s ! k)) = Inside [] \<and> kid_phase (qpc q) = After \<or>
            kid_phase (qpc (kids s ! k)) \<in> {Before, After} \<and> kid_phase (qpc q) = Gone) \<or>
         (\<exists>c cs. contents s' = contents s @ [c] \<and> kid_phase (qpc (kids s ! k)) = Inside (c # cs) \<and>
            kid_phase (qpc q) = Inside cs)"
  shows "section_move kid_text (psem_phase s) (contents s) (psem_phase s') (contents s')"
  using assms(3) enters [of "psem_phase s" k kid_text] writes [of "psem_phase s" k]
    leaves [of "psem_phase s" k] goes_away [of "psem_phase s" k] idles [of kid_text "psem_phase s"]
  unfolding psem_phase_update [OF assms(1,2)] psem_phase_at [OF assms(1), symmetric]
  by (auto simp: fun_upd_triv) (metis fun_upd_triv idles)+

lemma kid_step_writes:
  assumes ok: "psem_ok s" and k: "k < length (kids s)" and q: "kids s ! k = \<lparr>qpc = Q_put pos (c # cs), undo = u\<rparr>"
    and step: "kid_step fail k s = Some s'"
  shows "psem_ok s' \<and> section_move kid_text (psem_phase s) (contents s) (psem_phase s') (contents s')"
proof -
  let ?s = "s\<lparr>shm := (shm s)[pos := c], kids := (kids s)[k := \<lparr>qpc = Q_put (pos + 1) cs, undo = u\<rparr>]\<rparr>"
  from kid_stores_ok [OF ok k q refl]
  have new: "psem_ok ?s" "pos < length (shm s)" "contents ?s = contents s @ (if cs = [] then [] else [c])" by blast+
  with step q k have s': "s' = ?s" by (simp add: kid_step_def put_kid_def)
  have "section_move kid_text (psem_phase s) (contents s) (psem_phase ?s) (contents ?s)"
    by (rule kid_phase_moves [OF k, where q = "\<lparr>qpc = Q_put (pos + 1) cs, undo = u\<rparr>"])
      (use q new(3) in \<open>auto\<close>)
  with new(1) s' show ?thesis by simp
qed

lemma kid_step_ok:
  assumes ok: "psem_ok s" and k: "k < length (kids s)" and step: "kid_step fail k s = Some s'"
  shows "psem_ok s' \<and> section_move kid_text (psem_phase s) (contents s) (psem_phase s') (contents s')"
proof (cases "\<exists>pos c cs. qpc (kids s ! k) = Q_put pos (c # cs)")
  case True
  then obtain pos c cs where "kids s ! k = \<lparr>qpc = Q_put pos (c # cs), undo = undo (kids s ! k)\<rparr>"
    by (metis kid.surjective old.unit.exhaust)
  from kid_step_writes [OF ok k this step] show ?thesis .
next
  case False
  let ?q = "kids s ! k"
  have kid: "kid_ok (qpc ?q) (undo ?q)" using ok k by (simp add: psem_ok_def)
  have mem: "shm_ok s" using ok by (simp add: psem_ok_def)
  then have "shm s = contents s @ replicate (SHM_SIZE - length (contents s)) NUL" "length (contents s) \<le> 100"
    by (auto simp: shm_ok_def)
  then have NUL: "NUL \<in> set (shm s)"
    using shm_shape(4) [of s "SHM_SIZE - length (contents s)"] by (simp add: SHM_SIZE_def)
  have len: "length (kid_text k) = 39" "NUL \<notin> set (kid_text k)"
    using kid_text_length [of k] k kids_two [OF ok] by linarith+
  from step have s': "s' = the (kid_step fail k s)" and some: "kid_step fail k s \<noteq> None" by simp_all
  from some have live: "\<not> has_exited (qpc ?q)" by (cases "qpc ?q") (auto simp: kid_step_def)
  have eqs: "kids s' = (kids s)[k := kids s' ! k]" "shm s' = shm s" "boss s' = boss s"
    "qpc ?q = Q_start \<or> console s' = console s"
    using some k False NUL
    by (cases "qpc ?q"; simp add: s' kid_step_def Let_def put_kid_def psem_wait_def psem_post_def
        split: if_splits list.splits)+
  have new: "semval s' + undo (kids s' ! k) = semval s + undo ?q \<and>
      kid_ok (qpc (kids s' ! k)) (undo (kids s' ! k)) \<and> put_ok s (qpc (kids s' ! k)) \<and>
      to_write (qpc (kids s' ! k)) \<le> to_write (qpc ?q) \<and>
      (kid_phase (qpc ?q) = kid_phase (qpc (kids s' ! k)) \<or>
       kid_phase (qpc ?q) = Before \<and> kid_phase (qpc (kids s' ! k)) = Inside (kid_text k) \<or>
       kid_phase (qpc ?q) = Inside [] \<and> kid_phase (qpc (kids s' ! k)) = After \<or>
       kid_phase (qpc ?q) \<in> {Before, After} \<and> kid_phase (qpc (kids s' ! k)) = Gone)"
    using some k kid False NUL len
    by (cases "qpc ?q"; simp add: s' kid_step_def Let_def put_kid_def psem_wait_def psem_post_def put_ok_def
        split: if_splits list.splits)
  have conts: "contents s' = contents s" by (simp add: contents_def eqs(2))
  have "psem_ok s'"
    by (rule kid_moves_ok [OF ok k live eqs(1-3)]) (use new eqs(4) not_printed [OF ok k live] in blast)+
  moreover have "section_move kid_text (psem_phase s) (contents s) (psem_phase s') (contents s')"
    by (rule kid_phase_moves [OF k eqs(1)]) (use new conts in blast)
  ultimately show ?thesis ..
qed

lemma all_have_exited:
  "n \<le> length (filter (\<lambda>q. has_exited (qpc q)) qs) \<Longrightarrow> \<not> n < 2 \<Longrightarrow> length qs = 2 \<Longrightarrow> q \<in> set qs \<Longrightarrow>
     has_exited (qpc q)"
  using length_filter_less [of q qs "\<lambda>q. has_exited (qpc q)"] by linarith

lemma boss_step_ok:
  assumes ok: "psem_ok s" and step: "boss_step fail s = Some s'"
  shows "psem_ok s' \<and> section_move kid_text (psem_phase s) (contents s) (psem_phase s') (contents s')"
proof -
  have conts: "contents s' = contents s"
    using step by (cases "boss s") (auto simp: boss_step_def contents_def split: if_splits)
  have "psem_phase s' = psem_phase s"
    using step by (cases "boss s") (auto simp: boss_step_def psem_phase_def fun_eq_iff nth_append split: if_splits)
  moreover have "put_ok s' p = put_ok s p" for p by (cases p) (simp_all add: put_ok_def conts)
  moreover have "put_ok s' Q_start" by (simp add: put_ok_def)
  ultimately show ?thesis
    using ok step conts idles
    by (cases "boss s") (auto simp: boss_step_def psem_ok_def shm_ok_def report_ok_def Suc_le_eq
        dest: all_have_exited split: if_splits)
qed


lemma psem_step_ok:
  assumes ok: "psem_ok s" and step: "psem_step fails s s'"
  shows "psem_ok s' \<and> section_move kid_text (psem_phase s) (contents s) (psem_phase s') (contents s')"
  using step
proof cases
  case (kid_moves fail k)
  from kid_step_ok [OF ok kid_moves(2,3)] show ?thesis .
next
  case (boss_moves fail)
  from boss_step_ok [OF ok boss_moves(2)] show ?thesis .
qed

lemma cstr_NULs: "cstr (replicate n NUL) = []"
  by (cases n) (simp_all add: cstr_def)

lemma psem_ok_start: "psem_ok psem_start"
  by (simp add: psem_ok_def psem_start_def shm_ok_def report_ok_def contents_def cstr_NULs)

interpretation psem: writing_sections "\<lambda>s. s = psem_start" "psem_step fails" psem_ok
  kid_text psem_phase contents
proof (unfold_locales, goal_cases)
  case (1 s)
  then show ?case using psem_ok_start by simp
next
  case (2 s s')
  then show ?case using psem_step_ok by blast
next
  case (3 s)
  then show ?case by (simp add: psem_start_def psem_phase_def contents_def cstr_NULs)
next
  case (4 s j x k y)
  then show ?case by (rule psem_phase_alone)
next
  case (5 s s')
  then show ?case using psem_step_ok by blast
qed

section \<open>Termination\<close>

fun kid_left :: "kid_pc \<Rightarrow> nat" where
  "kid_left Q_start = 70" | "kid_left Q_wait = 60" | "kid_left Q_strlen = 50"
| "kid_left (Q_put pos cs) = 5 + length cs" | "kid_left Q_post = 4" | "kid_left Q_perror = 3"
| "kid_left (Q_leave n) = 2" | "kid_left (Q_exit n) = 0" | "kid_left Q_fault = 0"

fun boss_left :: "boss_pc \<Rightarrow> nat" where
  "boss_left (B_fork i) = 10 + (2 - i) * 100" | "boss_left (B_wait j) = 3 + (2 - j)"
| "boss_left B_perror = 1" | "boss_left B_print = 2" | "boss_left B_remove = 1" | "boss_left (B_exit n) = 0"

definition psem_left :: "psem \<Rightarrow> nat" where
  "psem_left s = (\<Sum>q \<leftarrow> kids s. kid_left (qpc q)) + boss_left (boss s)"

definition psem_done :: "psem \<Rightarrow> bool" where
  "psem_done s \<longleftrightarrow> (\<forall>q \<in> set (kids s). has_exited (qpc q)) \<and> (\<exists>n. boss s = B_exit n)"

lemma kid_step_left:
  assumes ok: "psem_ok s" and k: "k < length (kids s)" and step: "kid_step fail k s = Some s'"
  shows "psem_left s' < psem_left s"
proof -
  let ?q = "kids s ! k"
  have len: "length (kid_text k) = 39" using kid_text_length [of k] k kids_two [OF ok] by linarith
  from step have s': "s' = the (kid_step fail k s)" and some: "kid_step fail k s \<noteq> None" by simp_all
  have eqs: "kids s' = (kids s)[k := kids s' ! k]" "boss s' = boss s"
    "kid_left (qpc (kids s' ! k)) < kid_left (qpc ?q)"
    using some k len
    by (cases "qpc ?q"; simp add: s' kid_step_def Let_def put_kid_def psem_wait_def psem_post_def
        split: if_splits list.splits)+
  from sum_list_update [OF k, of "\<lambda>q. kid_left (qpc q)" "kids s' ! k"] eqs show ?thesis
    by (simp add: psem_left_def)
qed

lemma boss_step_left: "psem_ok s \<Longrightarrow> boss_step fail s = Some s' \<Longrightarrow> psem_left s' < psem_left s"
  by (cases "boss s") (auto simp: boss_step_def psem_left_def psem_ok_def split: if_splits)

lemma kid_goes_on:
  assumes "psem_ok s" "k < length (kids s)" "\<not> has_exited (qpc (kids s ! k))"
    and "0 < semval s \<or> undo (kids s ! k) = 1"
  shows "kid_step False k s \<noteq> None"
proof -
  have "kid_ok (qpc (kids s ! k)) (undo (kids s ! k))" using assms(1,2) by (simp add: psem_ok_def)
  with assms(3,4) show ?thesis
    by (cases "qpc (kids s ! k)") (auto simp: kid_step_def Let_def psem_wait_def psem_post_def split: list.split)
qed

lemma psem_progress:
  assumes ok: "psem_ok s"
  shows "psem_done s \<or> (\<exists>s'. psem_step False s s')"
proof (cases "\<forall>q \<in> set (kids s). has_exited (qpc q)")
  case True
  show ?thesis
  proof (cases "\<exists>n. boss s = B_exit n")
    case False
    with ok True have "boss_step False s \<noteq> None"
      by (cases "boss s") (auto simp: boss_step_def psem_ok_def)
    then obtain s' where "boss_step False s = Some s'" by blast
    then have "psem_step False s s'" by (rule boss_moves [rotated])
    then show ?thesis by blast
  qed (use True in \<open>simp add: psem_done_def\<close>)
next
  case False
  then obtain k where k: "k < length (kids s)" "\<not> has_exited (qpc (kids s ! k))"
    by (auto simp: in_set_conv_nth)
  have "\<exists>j < length (kids s). \<not> has_exited (qpc (kids s ! j)) \<and> (0 < semval s \<or> undo (kids s ! j) = 1)"
  proof (cases "0 < semval s")
    case True
    with k show ?thesis by blast
  next
    case no: False
    have "\<exists>q \<in> set (kids s). undo q \<noteq> 0"
    proof (rule ccontr)
      assume "\<not> ?thesis"
      then have "(\<Sum>q \<leftarrow> kids s. undo q) = 0" by (simp add: sum_list_eq_0_iff)
      with ok no show False by (simp add: psem_ok_def)
    qed
    then obtain j where j: "j < length (kids s)" "undo (kids s ! j) \<noteq> 0" by (auto simp: in_set_conv_nth)
    have "kid_ok (qpc (kids s ! j)) (undo (kids s ! j))" using ok j(1) by (simp add: psem_ok_def)
    with j show ?thesis by (intro exI [of _ j]) (cases "qpc (kids s ! j)"; simp)
  qed
  then obtain j where j: "j < length (kids s)" "kid_step False j s \<noteq> None" using kid_goes_on [OF ok] by blast
  then obtain s' where "kid_step False j s = Some s'" by blast
  with j(1) kid_moves [of False False j s s'] have "psem_step False s s'" by simp
  then show ?thesis by blast
qed

interpretation psem_run: terminating "\<lambda>s. s = psem_start" "psem_step False" psem_ok psem_left psem_done
proof (unfold_locales, goal_cases)
  case (1 s s')
  from 1(2,1) show ?case
    by cases (use kid_step_left boss_step_left in blast)+
next
  case (2 s)
  then show ?case by (rule psem_progress)
qed

section \<open>Properties\<close>

text \<open>
  C19. The children never write outside the shared memory and their texts do not mix, whatever calls
  fail: the string there is always the complete texts of the children that have written theirs
  and a part of the text of the one that is writing.  When both have exited with status 0 and the
  parent has too, the last thing the parent printed is the two texts one after the other.
\<close>

theorem shared_string_whole:
  assumes "reachable (\<lambda>s. s = psem_start) (psem_step fails) s"
  shows "(\<exists>ks. whole_texts kid_text ks (psem_phase s) (contents s)) \<and>
         (\<forall>q \<in> set (kids s). qpc q \<noteq> Q_fault) \<and>
         (boss s = B_exit 0 \<and> (\<forall>q \<in> set (kids s). qpc q = Q_exit 0) \<longrightarrow>
            (\<exists>pre. console s = pre @ ''parent read:'' @ [LF] @ kid_text 0 @ kid_text 1 \<or>
                   console s = pre @ ''parent read:'' @ [LF] @ kid_text 1 @ kid_text 0))"
proof -
  from psem.texts_whole [OF assms] obtain ks where ks: "whole_texts kid_text ks (psem_phase s) (contents s)" ..
  from psem.inv_reachable [OF assms] have ok: "psem_ok s" .
  have "qpc q \<noteq> Q_fault" if "q \<in> set (kids s)" for q
    using ok that by (auto simp: psem_ok_def)
  moreover have "\<exists>pre. console s = pre @ ''parent read:'' @ [LF] @ kid_text 0 @ kid_text 1 \<or>
                   console s = pre @ ''parent read:'' @ [LF] @ kid_text 1 @ kid_text 0"
    if exit: "boss s = B_exit 0" "\<forall>q \<in> set (kids s). qpc q = Q_exit 0"
  proof -
    from exit(1) ok have "length (kids s) = 2" by (simp add: psem_ok_def)
    then have "psem_phase s 0 = After" "psem_phase s 1 = After" "\<And>k. k \<noteq> 0 \<Longrightarrow> k \<noteq> 1 \<Longrightarrow> psem_phase s k = Before"
      using exit(2) by (auto simp: psem_phase_def)
    from psem.two_texts [OF ks this(1,2) _ this(3)]
    have "contents s = kid_text 0 @ kid_text 1 \<or> contents s = kid_text 1 @ kid_text 0" by simp
    then show ?thesis using ok exit(1) by (auto simp: psem_ok_def report_ok_def)
  qed
  ultimately show ?thesis using ks by blast
qed

theorem shared_string_whole_witness:
  "\<exists>s. reachable (\<lambda>s. s = psem_start) (psem_step True) s \<and> psem_done s \<and>
       (\<exists>ks. whole_texts kid_text ks (psem_phase s) (contents s))"
proof -
  from psem_run.reaches_goal [OF psem_ok_start] obtain s
    where s: "(psem_step False)\<^sup>*\<^sup>* psem_start s" "psem_done s" by blast
  have "psem_step True t u" if "psem_step False t u" for t u
    using that by cases (auto intro: psem_step.intros)
  then have "(psem_step True)\<^sup>*\<^sup>* psem_start s" using s(1) by (rule mono_rtranclp [rule_format])
  then have "reachable (\<lambda>s. s = psem_start) (psem_step True) s"
    by (simp add: reachable_run reach_init)
  with shared_string_whole [OF this] s(2) show ?thesis by blast
qed

text \<open>
  C20. Whatever calls have failed so far, the program gets to its end when no more do: \<open>SEM_UNDO\<close>
  gives back what a child holds when it exits.
\<close>

theorem undo_prevents_deadlock:
  assumes "reachable (\<lambda>s. s = psem_start) (psem_step fails) s"
  shows "\<exists>s'. (psem_step False)\<^sup>*\<^sup>* s s' \<and> (\<forall>q \<in> set (kids s'). has_exited (qpc q)) \<and>
              (\<exists>n. boss s' = B_exit n) \<and> semval s' = 1"
proof -
  from psem.inv_reachable [OF assms] have "psem_ok s" .
  from psem_run.reaches_goal [OF this] obtain s' where s': "(psem_step False)\<^sup>*\<^sup>* s s'" "psem_done s'" by blast
  from s'(1) \<open>psem_ok s\<close> have ok: "psem_ok s'"
    by (induction rule: rtranclp_induct) (use psem_step_ok in blast)+
  have "undo q = 0" if "q \<in> set (kids s')" for q
  proof -
    from that ok s'(2) have "kid_ok (qpc q) (undo q)" "has_exited (qpc q)" by (auto simp: psem_ok_def psem_done_def)
    then show ?thesis by (cases "qpc q") auto
  qed
  then have "(\<Sum>q \<leftarrow> kids s'. undo q) = 0" by (simp add: sum_list_eq_0_iff)
  with ok s' show ?thesis by (auto simp: psem_ok_def psem_done_def)
qed

theorem undo_prevents_deadlock_witness:
  "\<exists>s s'. boss s = B_perror \<and> (psem_step False)\<^sup>*\<^sup>* s s' \<and> boss s' = B_exit 1 \<and> semval s' = 1"
proof -
  let ?s = "psem_start\<lparr>boss := B_perror\<rparr>"
  have "psem_step True psem_start ?s"
    by (rule boss_moves [of True]) (simp_all add: boss_step_def psem_start_def)
  then have "reachable (\<lambda>s. s = psem_start) (psem_step True) ?s" by (blast intro: reachable.intros)
  from undo_prevents_deadlock [OF this] obtain s' n where s': "(psem_step False)\<^sup>*\<^sup>* ?s s'"
    "boss s' = B_exit n" "semval s' = 1" by blast
  from s'(1) have "boss s' = B_perror \<or> boss s' = B_exit 1"
  proof (induction rule: rtranclp_induct)
    case (step t u)
    from step(2,3) show ?case
      by cases (auto simp: kid_step_def boss_step_def Let_def put_kid_def psem_wait_def psem_post_def
          split: kid_pc.splits list.splits if_splits)
  qed simp
  with s' show ?thesis by (intro exI [of _ ?s] exI [of _ s']) auto
qed

end
