(* ===== verification/Shared_Races.thy ===== *)
theory Shared_Races
  imports Transition
begin

text \<open>
  Two programs whose result depends on the order in which their processes run:
  \<^verbatim>\<open>src/Lecture7/race_condition\<close>, where parent and child print a line each, a character at a time, and
  \<^verbatim>\<open>src/ipc_code/shared_memory\<close>, where the child increments a number in shared memory fifty times and
  the parent stores 10 there.  Which results there are is stated exactly.
\<close>

section \<open>Printing a character at a time\<close>

text \<open>
  A process in \<open>charatatime\<close>: \<open>setbuf\<close>, the loop with what \<open>ptr\<close> still points to, and \<open>exit\<close>.
  The first process is the child.
\<close>

datatype putter = T_setbuf string | T_loop string | T_exit

record race =
  forking :: bool
  putters :: "putter list"
  screen :: string
  fork_error :: bool

definition child_line :: string where
  "child_line = ''Child process wants to print a long string.'' @ [LF]"

definition parent_line :: string where
  "parent_line = ''Parent process is doing something else.'' @ [LF]"

definition race_start :: race where
  "race_start = \<lparr>forking = True, putters = [], screen = [], fork_error = False\<rparr>"

definition putter_step :: "nat \<Rightarrow> race \<Rightarrow> race option" where
  "putter_step k s =
     (let move = (\<lambda>p. s\<lparr>putters := (putters s)[k := p]\<rparr>) in
      case putters s ! k of
        T_setbuf str \<Rightarrow> Some (move (T_loop str))
      | T_loop [] \<Rightarrow> Some (move T_exit)
      | T_loop (c # ptr) \<Rightarrow> Some ((move (T_loop ptr))\<lparr>screen := screen s @ [c]\<rparr>)
      | T_exit \<Rightarrow> None)"

definition fork_step :: "bool \<Rightarrow> race \<Rightarrow> race option" where
  "fork_step ok s =
     (if forking s
      then Some (if ok then s\<lparr>forking := False, putters := [T_setbuf child_line, T_setbuf parent_line]\<rparr>
                 else s\<lparr>forking := False, fork_error := True\<rparr>)
      else None)"

inductive race_step :: "race \<Rightarrow> race \<Rightarrow> bool" where
  forks: "fork_step ok s = Some s' \<Longrightarrow> race_step s s'"
| puts: "k < length (putters s) \<Longrightarrow> putter_step k s = Some s' \<Longrightarrow> race_step s s'"

abbreviation race_reachable :: "race \<Rightarrow> bool" where
  "race_reachable \<equiv> reachable (\<lambda>s. s = race_start) race_step"

definition race_over :: "race \<Rightarrow> bool" where
  "race_over s \<longleftrightarrow> putters s = [T_exit, T_exit]"

text \<open>What a process has still to print.\<close>

fun to_put :: "putter \<Rightarrow> string" where
  "to_put (T_setbuf str) = str"
| "to_put (T_loop str) = str"
| "to_put T_exit = []"

lemma shuffles_snoc:
  "zs \<in> shuffles xs ys \<Longrightarrow> zs @ [c] \<in> shuffles (xs @ [c]) ys \<and> zs @ [c] \<in> shuffles xs (ys @ [c])"
proof (induction xs ys arbitrary: zs rule: shuffles.induct)
  case (1 ys)
  have "ys @ [c] \<in> shuffles [c] ys" for ys by (induction ys) auto
  with 1 show ?case by auto
next
  case (2 xs)
  have "xs @ [c] \<in> shuffles xs [c]" for xs by (induction xs) auto
  with 2 show ?case by auto
next
  case (3 x xs y ys)
  then show ?case by auto
qed

lemma shuffles_append:
  "zs \<in> shuffles xs ys \<Longrightarrow> zs @ w \<in> shuffles (xs @ w) ys \<and> zs @ w \<in> shuffles xs (ys @ w)"
proof (induction w arbitrary: xs ys zs)
  case (Cons c w)
  from shuffles_snoc [OF Cons.prems, of c] Cons.IH [of "zs @ [c]" "xs @ [c]" ys]
    Cons.IH [of "zs @ [c]" xs "ys @ [c]"]
  show ?case by simp
qed simp

text \<open>A step of a process prints the beginning of what it has to print.\<close>

lemma putter_prints:
  assumes "putter_step k s = Some s'"
  shows "\<exists>p w. s' = s\<lparr>putters := (putters s)[k := p], screen := screen s @ w\<rparr> \<and>
    to_put (putters s ! k) = w @ to_put p"
proof (cases "putters s ! k")
  case (T_setbuf str)
  with assms show ?thesis
    by (intro exI [of _ "T_loop str"] exI [of _ "[]"]) (auto simp: putter_step_def)
next
  case (T_loop str)
  show ?thesis
  proof (cases str)
    case Nil
    with T_loop assms show ?thesis
      by (intro exI [of _ T_exit] exI [of _ "[]"]) (auto simp: putter_step_def)
  next
    case (Cons c ptr)
    with T_loop assms show ?thesis
      by (intro exI [of _ "T_loop ptr"] exI [of _ "[c]"]) (auto simp: putter_step_def)
  qed
qed (use assms in \<open>simp add: putter_step_def\<close>)

definition race_inv :: "race \<Rightarrow> bool" where
  "race_inv s \<longleftrightarrow>
     (if forking s \<or> fork_error s then putters s = [] \<and> screen s = [] \<and> forking s \<noteq> fork_error s
      else (\<exists>p q xs ys. putters s = [p, q] \<and> child_line = xs @ to_put p \<and> parent_line = ys @ to_put q \<and>
              screen s \<in> shuffles xs ys))"

lemma race_invI:
  "\<not> forking s \<Longrightarrow> \<not> fork_error s \<Longrightarrow> putters s = [p, q] \<Longrightarrow> child_line = xs @ to_put p \<Longrightarrow>
   parent_line = ys @ to_put q \<Longrightarrow> screen s \<in> shuffles xs ys \<Longrightarrow> race_inv s"
  unfolding race_inv_def by auto

lemma race_keeps:
  assumes inv: "race_inv s" and step: "race_step s s'"
  shows "race_inv s'"
  using step
proof cases
  case (forks ok)
  with inv show ?thesis
    by (auto simp: race_inv_def fork_step_def split: if_splits)
next
  case (puts k)
  then have running: "\<not> (forking s \<or> fork_error s)"
    using inv by (auto simp: race_inv_def)
  with inv obtain p q xs ys where s: "putters s = [p, q]" "child_line = xs @ to_put p"
      "parent_line = ys @ to_put q" "screen s \<in> shuffles xs ys"
    by (auto simp: race_inv_def)
  from putter_prints [OF puts(2)] obtain p' w where
    s': "s' = s\<lparr>putters := (putters s)[k := p'], screen := screen s @ w\<rparr>"
      "to_put (putters s ! k) = w @ to_put p'" by blast
  consider "k = 0" | "k = 1" using puts(1) s(1) by (auto simp: less_Suc_eq)
  then show ?thesis
  proof cases
    case 1
    then have "putters s' = [p', q]" "child_line = (xs @ w) @ to_put p'" "screen s' \<in> shuffles (xs @ w) ys"
      using s s' shuffles_append [OF s(4), of w] by auto
    with s(3) running s'(1) show ?thesis by (intro race_invI) auto
  next
    case 2
    then have "putters s' = [p, p']" "parent_line = (ys @ w) @ to_put p'" "screen s' \<in> shuffles xs (ys @ w)"
      using s s' shuffles_append [OF s(4), of w] by auto
    with s(2) running s'(1) show ?thesis by (intro race_invI) auto
  qed
qed

interpretation race_runs: inductive_invariant "\<lambda>s. s = race_start" race_step race_inv
proof (unfold_locales, goal_cases)
  case 1
  then show ?case by (simp add: race_inv_def race_start_def)
next
  case 2
  then show ?case by (rule race_keeps)
qed

lemma race_ends_shuffled:
  assumes "race_reachable s" "race_over s"
  shows "screen s \<in> shuffles child_line parent_line"
proof -
  from race_runs.inv_reachable [OF assms(1)] assms(2) show ?thesis
    by (auto simp: race_inv_def race_over_def split: if_splits)
qed

text \<open>Every shuffle of what is left to print can be printed.\<close>

lemma putter_moves:
  assumes "putters s = [T_loop xs, T_loop ys]"
  shows "xs = c # xs' \<Longrightarrow> race_step s (s\<lparr>putters := [T_loop xs', T_loop ys], screen := screen s @ [c]\<rparr>)"
    and "ys = c # ys' \<Longrightarrow> race_step s (s\<lparr>putters := [T_loop xs, T_loop ys'], screen := screen s @ [c]\<rparr>)"
  using puts [of 0 s] puts [of 1 s] assms by (auto simp: putter_step_def Let_def)

lemma shuffle_printed:
  "zs \<in> shuffles xs ys \<Longrightarrow> putters s = [T_loop xs, T_loop ys] \<Longrightarrow>
   \<exists>s'. race_step\<^sup>*\<^sup>* s s' \<and> putters s' = [T_loop [], T_loop []] \<and> screen s' = screen s @ zs"
proof (induction zs arbitrary: xs ys s)
  case (Cons z zs)
  then consider xs' where "xs = z # xs'" "zs \<in> shuffles xs' ys" | ys' where "ys = z # ys'" "zs \<in> shuffles xs ys'"
    by (auto simp: Cons_in_shuffles_iff neq_Nil_conv)
  then show ?case
  proof cases
    case 1
    from putter_moves(1) [OF Cons.prems(2) 1(1)]
      Cons.IH [OF 1(2), of "s\<lparr>putters := [T_loop xs', T_loop ys], screen := screen s @ [z]\<rparr>"]
    show ?thesis by (auto intro: converse_rtranclp_into_rtranclp)
  next
    case 2
    from putter_moves(2) [OF Cons.prems(2) 2(1)]
      Cons.IH [OF 2(2), of "s\<lparr>putters := [T_loop xs, T_loop ys'], screen := screen s @ [z]\<rparr>"]
    show ?thesis by (auto intro: converse_rtranclp_into_rtranclp)
  qed
qed (auto simp: Nil_in_shuffles)

lemma shuffles_reached:
  assumes "zs \<in> shuffles child_line parent_line"
  shows "\<exists>s. race_reachable s \<and> race_over s \<and> screen s = zs"
proof -
  let ?s0 = "race_start\<lparr>forking := False, putters := [T_setbuf child_line, T_setbuf parent_line]\<rparr>"
  let ?s1 = "?s0\<lparr>putters := [T_loop child_line, T_setbuf parent_line]\<rparr>"
  let ?s2 = "?s0\<lparr>putters := [T_loop child_line, T_loop parent_line]\<rparr>"
  have start: "race_reachable race_start" by (rule reach_init) simp
  have step0: "race_step race_start ?s0"
    by (rule forks [of True]) (simp add: fork_step_def race_start_def)
  have step1: "race_step ?s0 ?s1"
    by (rule puts [of 0]) (simp_all add: putter_step_def)
  have step2: "race_step ?s1 (?s1\<lparr>putters := [T_loop child_line, T_loop parent_line]\<rparr>)"
    by (rule puts [of 1]) (simp_all add: putter_step_def)
  have r2: "race_reachable ?s2"
    using reach_step [OF reach_step [OF reach_step [OF start step0] step1] step2] by simp
  obtain s where s: "race_step\<^sup>*\<^sup>* ?s2 s" "putters s = [T_loop [], T_loop []]" "screen s = zs"
    using shuffle_printed [OF assms, of ?s2] by (auto simp: race_start_def)
  have "race_step s (s\<lparr>putters := [T_exit, T_loop []]\<rparr>)"
    by (rule puts [of 0]) (simp_all add: putter_step_def s(2))
  moreover have "race_step (s\<lparr>putters := [T_exit, T_loop []]\<rparr>) (s\<lparr>putters := [T_exit, T_exit]\<rparr>)"
    by (rule puts [of 1]) (simp_all add: putter_step_def)
  ultimately have "race_reachable (s\<lparr>putters := [T_exit, T_exit]\<rparr>)"
    using reachable_run [OF s(1) r2] by (meson reach_step)
  then show ?thesis
    by (intro exI [of _ "s\<lparr>putters := [T_exit, T_exit]\<rparr>"]) (simp add: race_over_def s(3))
qed

section \<open>A number in shared memory\<close>

text \<open>
  The statements of the parent and of the child; an increment reads the number and stores it.  What
  the two print is a list of values with the one who printed them.  When \<open>fork\<close> fails, the parent
  goes on as if it had a child; \<open>wait\<close> returns at once then.  The set-up of the segment succeeds.
\<close>

datatype adder_pc = N_show | N_test | N_load | N_store | N_tell | N_exit

datatype setter_pc = V_show0 | V_fork | V_show | V_set | V_tell | V_waiting | V_wait | V_result | V_return

datatype printer = Adder int | Setter int | Waiting | No_process

record memory =
  shared_memory :: int
  adder :: "adder_pc option"
  loops :: nat
  loaded :: int
  setter :: setter_pc
  shown :: "printer list"

definition memory_start :: memory where
  "memory_start =
     \<lparr>shared_memory = 0, adder = None, loops = 0, loaded = 0, setter = V_show0, shown = []\<rparr>"

definition show_value :: "printer \<Rightarrow> memory \<Rightarrow> memory" where
  "show_value p s = s\<lparr>shown := shown s @ [p]\<rparr>"

definition adder_step :: "memory \<Rightarrow> memory option" where
  "adder_step s =
     (case adder s of
        None \<Rightarrow> None
      | Some pc \<Rightarrow>
          (case pc of
             N_show \<Rightarrow> Some (show_value (Adder (shared_memory s)) (s\<lparr>adder := Some N_test, loops := 0\<rparr>))
           | N_test \<Rightarrow> Some (s\<lparr>adder := Some (if loops s < 50 then N_load else N_tell)\<rparr>)
           | N_load \<Rightarrow> Some (s\<lparr>adder := Some N_store, loaded := shared_memory s\<rparr>)
           | N_store \<Rightarrow>
               Some (s\<lparr>adder := Some N_test, loops := loops s + 1, shared_memory := to_int32 (loaded s + 1)\<rparr>)
           | N_tell \<Rightarrow> Some (show_value (Adder (shared_memory s)) (s\<lparr>adder := Some N_exit\<rparr>))
           | N_exit \<Rightarrow> None))"

definition setter_step :: "bool \<Rightarrow> memory \<Rightarrow> memory option" where
  "setter_step ok s =
     (case setter s of
        V_show0 \<Rightarrow> Some (show_value (Setter (shared_memory s)) (s\<lparr>setter := V_fork\<rparr>))
      | V_fork \<Rightarrow>
          Some (if ok then s\<lparr>setter := V_show, adder := Some N_show\<rparr>
                else show_value No_process (s\<lparr>setter := V_waiting\<rparr>))
      | V_show \<Rightarrow> Some (show_value (Setter (shared_memory s)) (s\<lparr>setter := V_set\<rparr>))
      | V_set \<Rightarrow> Some (s\<lparr>setter := V_tell, shared_memory := 10\<rparr>)
      | V_tell \<Rightarrow> Some (show_value (Setter (shared_memory s)) (s\<lparr>setter := V_waiting\<rparr>))
      | V_waiting \<Rightarrow> Some (show_value Waiting (s\<lparr>setter := V_wait\<rparr>))
      | V_wait \<Rightarrow> (if adder s = None \<or> adder s = Some N_exit then Some (s\<lparr>setter := V_result\<rparr>) else None)
      | V_result \<Rightarrow> Some (show_value (Setter (shared_memory s)) (s\<lparr>setter := V_return\<rparr>))
      | V_return \<Rightarrow> None)"

inductive memory_step :: "memory \<Rightarrow> memory \<Rightarrow> bool" where
  adder_moves: "adder_step s = Some s' \<Longrightarrow> memory_step s s'"
| setter_moves: "setter_step ok s = Some s' \<Longrightarrow> memory_step s s'"

abbreviation memory_reachable :: "memory \<Rightarrow> bool" where
  "memory_reachable \<equiv> reachable (\<lambda>s. s = memory_start) memory_step"

text \<open>
  The number is what the child has counted, until the parent stores 10.  After that it has also
  counted on from 10, unless a store of the child has undone that of the parent.
\<close>

fun before_set :: "setter_pc \<Rightarrow> bool" where
  "before_set V_show0 \<longleftrightarrow> True" | "before_set V_fork \<longleftrightarrow> True" | "before_set V_show \<longleftrightarrow> True"
| "before_set V_set \<longleftrightarrow> True" | "before_set _ \<longleftrightarrow> False"

fun counted :: "adder_pc option \<Rightarrow> nat \<Rightarrow> bool" where
  "counted None n \<longleftrightarrow> n = 0" | "counted (Some N_show) n \<longleftrightarrow> n = 0"
| "counted (Some N_test) n \<longleftrightarrow> n \<le> 50" | "counted (Some N_load) n \<longleftrightarrow> n < 50"
| "counted (Some N_store) n \<longleftrightarrow> n < 50" | "counted (Some _) n \<longleftrightarrow> n = 50"

definition number_ok :: "bool \<Rightarrow> bool \<Rightarrow> int \<Rightarrow> int \<Rightarrow> int \<Rightarrow> bool" where
  "number_ok fresh storing x n l \<longleftrightarrow>
     (if fresh then x = n \<and> (storing \<longrightarrow> l = n)
      else 10 \<le> x \<and> x \<le> 10 + n \<and> (storing \<longrightarrow> l = x) \<or> x = n \<and> (storing \<longrightarrow> l = n) \<and> 0 < n \<or>
           x = 10 \<and> storing \<and> l = n)"

definition places_ok :: "setter_pc \<Rightarrow> adder_pc option \<Rightarrow> bool" where
  "places_ok v a \<longleftrightarrow>
     (case v of
        V_show0 \<Rightarrow> a = None | V_fork \<Rightarrow> a = None | V_waiting \<Rightarrow> True | V_wait \<Rightarrow> True
      | V_result \<Rightarrow> a = None \<or> a = Some N_exit | V_return \<Rightarrow> a = None \<or> a = Some N_exit
      | _ \<Rightarrow> a \<noteq> None)"

definition memory_inv :: "memory \<Rightarrow> bool" where
  "memory_inv s \<longleftrightarrow>
     counted (adder s) (loops s) \<and> places_ok (setter s) (adder s) \<and>
     number_ok (before_set (setter s) \<or> adder s = None) (adder s = Some N_store)
       (shared_memory s) (int (loops s)) (loaded s) \<and>
     (setter s = V_return \<longrightarrow> last (shown s) = Setter (shared_memory s))"

lemma number_ok_load: "number_ok f False x n l \<Longrightarrow> number_ok f True x n x"
  by (auto simp: number_ok_def split: if_splits)

lemma number_ok_other: "number_ok f False x n l \<Longrightarrow> number_ok f False x n l'"
  by (auto simp: number_ok_def)

lemma number_ok_store: "number_ok f True x n l \<Longrightarrow> 0 \<le> n \<Longrightarrow> number_ok f False (l + 1) (n + 1) l'"
  by (auto simp: number_ok_def split: if_splits)

lemma number_ok_set: "number_ok True st n' n l \<Longrightarrow> 0 \<le> n \<Longrightarrow> number_ok False st 10 n l"
  by (auto simp: number_ok_def)

lemma number_ok_loaded: "number_ok f True x n l \<Longrightarrow> 0 \<le> n \<Longrightarrow> n \<le> 50 \<Longrightarrow> 0 \<le> l \<and> l \<le> 60"
  by (auto simp: number_ok_def split: if_splits)

lemma show_value_fields [simp]:
  "shared_memory (show_value p s) = shared_memory s" "adder (show_value p s) = adder s"
  "loops (show_value p s) = loops s" "loaded (show_value p s) = loaded s"
  "setter (show_value p s) = setter s" "shown (show_value p s) = shown s @ [p]"
  by (simp_all add: show_value_def)

lemma places_ok_moves:
  "places_ok v (Some a) \<Longrightarrow> a \<noteq> N_exit \<Longrightarrow> places_ok v (Some a') \<and> v \<noteq> V_return"
  by (cases v) (auto simp: places_ok_def)

lemma adder_keeps:
  assumes inv: "memory_inv s" and step: "adder_step s = Some s'"
  shows "memory_inv s'"
proof -
  obtain pc where pc: "adder s = Some pc" "pc \<noteq> N_exit"
    using step by (auto simp: adder_step_def split: option.splits adder_pc.splits)
  have old: "counted (Some pc) (loops s)" "places_ok (setter s) (Some a) \<and> setter s \<noteq> V_return"
      "number_ok (before_set (setter s)) (pc = N_store) (shared_memory s) (int (loops s)) (loaded s)" for a
    using inv pc places_ok_moves [of "setter s" pc] by (auto simp: memory_inv_def)
  show ?thesis
  proof (cases pc)
    case N_store
    then have "0 \<le> loaded s \<and> loaded s \<le> 60"
      using number_ok_loaded old(1,3) by auto
    with N_store pc step old show ?thesis
      using number_ok_store [of "before_set (setter s)" "shared_memory s" "int (loops s)" "loaded s" "loaded s"]
      by (auto simp: adder_step_def memory_inv_def to_int32_id' add.commute)
  next
    case N_load
    with pc step old show ?thesis
      using number_ok_load by (auto simp: adder_step_def memory_inv_def)
  qed (use pc step old in \<open>auto simp: adder_step_def memory_inv_def split: if_splits\<close>)
qed

lemma setter_keeps:
  assumes inv: "memory_inv s" and step: "setter_step ok s = Some s'"
  shows "memory_inv s'"
proof (cases "setter s")
  case V_set
  with inv step show ?thesis
    using number_ok_set by (auto simp: setter_step_def memory_inv_def places_ok_def)
next
  case V_fork
  with inv step show ?thesis
    by (auto simp: setter_step_def memory_inv_def places_ok_def number_ok_def split: if_splits)
qed (use inv step in \<open>auto simp: setter_step_def memory_inv_def places_ok_def split: if_splits\<close>)

interpretation memory_runs: inductive_invariant "\<lambda>s. s = memory_start" memory_step memory_inv
proof (unfold_locales, goal_cases)
  case (1 s)
  then show ?case by (simp add: memory_inv_def memory_start_def places_ok_def number_ok_def)
next
  case (2 s s')
  from 2(2,1) show ?case by cases (use adder_keeps setter_keeps in blast)+
qed

text \<open>The parent has printed its last line, and there was a child.\<close>

definition memory_over :: "memory \<Rightarrow> bool" where
  "memory_over s \<longleftrightarrow> setter s = V_return \<and> adder s \<noteq> None"

lemma memory_result_bounds:
  assumes "memory_reachable s" "memory_over s"
  shows "last (shown s) = Setter (shared_memory s) \<and> 10 \<le> shared_memory s \<and> shared_memory s \<le> 60"
proof -
  have "memory_inv s" by (rule memory_runs.inv_reachable [OF assms(1)])
  moreover from this assms(2) have "adder s = Some N_exit" "setter s = V_return"
    by (auto simp: memory_inv_def memory_over_def places_ok_def)
  ultimately show ?thesis by (auto simp: memory_inv_def number_ok_def)
qed

text \<open>The child alone, \<open>n\<close> times round its loop.\<close>

lemma adder_rounds:
  assumes "adder s = Some N_test" "loops s + n \<le> 50" "0 \<le> shared_memory s" "shared_memory s \<le> 1000"
  shows "\<exists>s'. memory_step\<^sup>*\<^sup>* s s' \<and> adder s' = Some N_test \<and> loops s' = loops s + n \<and>
    shared_memory s' = shared_memory s + int n \<and> setter s' = setter s"
  using assms(2)
proof (induction n)
  case 0
  with assms(1) show ?case by (intro exI [of _ s]) simp
next
  case (Suc n)
  then obtain t where t: "memory_step\<^sup>*\<^sup>* s t" "adder t = Some N_test" "loops t = loops s + n"
      "shared_memory t = shared_memory s + int n" "setter t = setter s" by auto
  let ?a = "t\<lparr>adder := Some N_load\<rparr>"
  let ?b = "?a\<lparr>adder := Some N_store, loaded := shared_memory t\<rparr>"
  let ?c = "?b\<lparr>adder := Some N_test, loops := loops t + 1, shared_memory := shared_memory t + 1\<rparr>"
  have "memory_step t ?a"
    by (rule adder_moves) (use t Suc.prems in \<open>simp add: adder_step_def\<close>)
  moreover have "memory_step ?a ?b"
    by (rule adder_moves) (simp add: adder_step_def)
  moreover have "memory_step ?b ?c"
    by (rule adder_moves) (use t assms Suc.prems in \<open>simp add: adder_step_def to_int32_id'\<close>)
  ultimately have "memory_step\<^sup>*\<^sup>* s ?c" using t(1) by (meson rtranclp.rtrancl_into_rtrancl)
  with t show ?case by (intro exI [of _ ?c]) simp
qed

text \<open>Several steps of the parent, or of the child, one after the other.\<close>

fun alone :: "(memory \<Rightarrow> memory option) \<Rightarrow> nat \<Rightarrow> memory \<Rightarrow> memory option" where
  "alone f 0 s = Some s"
| "alone f (Suc n) s = Option.bind (f s) (alone f n)"

lemma alone_run:
  assumes "\<And>s s'. f s = Some s' \<Longrightarrow> memory_step s s'"
  shows "alone f n s = Some s' \<Longrightarrow> memory_step\<^sup>*\<^sup>* s s'"
  by (induction n arbitrary: s)
    (auto simp: bind_eq_Some_conv dest: assms intro: converse_rtranclp_into_rtranclp)

lemma memory_result_possible:
  assumes "10 \<le> v" "v \<le> 60"
  shows "\<exists>s. memory_reachable s \<and> memory_over s \<and> last (shown s) = Setter v"
proof -
  define k where "k = nat (60 - v)"
  have k: "k \<le> 50" "int k = 60 - v" using assms by (simp_all add: k_def)
  have run: "alone adder_step n x = Some y \<Longrightarrow> memory_step\<^sup>*\<^sup>* x y"
    "alone (setter_step True) n x = Some y \<Longrightarrow> memory_step\<^sup>*\<^sup>* x y" for n x y
    using alone_run [of adder_step] alone_run [of "setter_step True"] adder_moves setter_moves by blast+
  obtain a where a: "alone (setter_step True) 3 memory_start = Some a" "setter a = V_set"
      "adder a = Some N_show" "shared_memory a = 0"
    by (simp add: setter_step_def memory_start_def numeral_3_eq_3)
  obtain b where b: "alone adder_step 1 a = Some b" "setter b = V_set" "adder b = Some N_test"
      "shared_memory b = 0" "loops b = 0"
    using a by (simp add: adder_step_def)
  obtain c where c: "memory_step\<^sup>*\<^sup>* b c" "setter c = V_set" "adder c = Some N_test" "loops c = k"
    using adder_rounds [OF b(3), of k] b k by auto
  obtain d where d: "alone (setter_step True) 1 c = Some d" "setter d = V_tell" "adder d = Some N_test"
      "loops d = k" "shared_memory d = 10"
    using c by (simp add: setter_step_def)
  obtain e where e: "memory_step\<^sup>*\<^sup>* d e" "setter e = V_tell" "adder e = Some N_test" "loops e = 50"
      "shared_memory e = v"
    using adder_rounds [OF d(3), of "50 - k"] d k by auto
  obtain f where f: "alone adder_step 2 e = Some f" "setter f = V_tell" "adder f = Some N_exit"
      "shared_memory f = v"
    using e by (simp add: adder_step_def numeral_2_eq_2)
  obtain g where g: "alone (setter_step True) 4 f = Some g" "setter g = V_return" "adder g = Some N_exit"
      "last (shown g) = Setter v"
    using f by (simp add: setter_step_def numeral_eq_Suc)
  have "memory_step\<^sup>*\<^sup>* memory_start g"
    using run(2) [OF a(1)] run(1) [OF b(1)] c(1) run(2) [OF d(1)] e(1) run(1) [OF f(1)] run(2) [OF g(1)]
    by (meson rtranclp_trans)
  then have "memory_reachable g" by (rule reachable_run) (auto intro: reach_init)
  with g show ?thesis by (auto simp: memory_over_def)
qed

section \<open>Properties\<close>

text \<open>
  C37. What parent and child of \<^verbatim>\<open>race_condition\<close> can print, when both have ended, is every shuffle of
  their two lines and nothing else.
\<close>

theorem race_prints_any_shuffle:
  "(\<exists>s. race_reachable s \<and> race_over s \<and> screen s = zs) \<longleftrightarrow> zs \<in> shuffles child_line parent_line"
  using race_ends_shuffled shuffles_reached by blast

text \<open>
  C38. The number that the parent of \<^verbatim>\<open>shared_memory\<close> prints at the end, when there is a child, can be any
  from 10 to 60 and no other.
\<close>

theorem shared_memory_results:
  "(\<exists>s. memory_reachable s \<and> memory_over s \<and> last (shown s) = Setter v) \<longleftrightarrow> 10 \<le> v \<and> v \<le> 60"
  using memory_result_bounds memory_result_possible by force

end
