(* ===== verification/Thread_Handoff.thy ===== *)
theory Thread_Handoff
  imports Transition
begin

text \<open>
  How a server hands a connection to the thread it makes for it.  \<^verbatim>\<open>src/Assignment3\<close>, thread mode:
  \<open>main\<close> passes the address of its local variable \<open>client\<close>.  \<^verbatim>\<open>src/Lecture8/concurrent_server_thread\<close>:
  \<open>main\<close> passes the address of a cell from \<open>malloc\<close>, which the thread frees.

  The programs of \<open>Conc_Proxy\<close> and \<open>Tcp_Concurrent\<close> say what one thread does with its connection;
  here is how the threads and \<open>main\<close> interleave.  Connections are numbered in the order in which
  they are accepted; the number stands for the descriptor and for the address of the peer.  \<open>accept\<close>
  and \<open>pthread_create\<close> may fail.
\<close>

section \<open>The proxy\<close>

text \<open>
  \<open>client\<close> is declared in the body of the loop.  The variables of all rounds have one address; a
  round stores into the members one after the other, and the thread copies them so.
\<close>

datatype acceptor_pc = A_accept | A_store_fd | A_store_addr | A_create | A_gone

datatype handler_pc = H_copy_fd | H_copy_addr | H_serve | H_done

record handler =
  hpc :: handler_pc
  own :: nat
  h_fd :: "nat option"
  h_addr :: "nat option"

record handoff =
  conns :: nat
  apc :: acceptor_pc
  client_fd :: nat
  client_clifd :: "nat option"
  client_cliaddr :: "nat option"
  handlers :: "handler list"
  hung_up :: "nat option list"

definition handoff_start :: handoff where
  "handoff_start =
     \<lparr>conns = 0, apc = A_accept, client_fd = 0, client_clifd = None, client_cliaddr = None,
      handlers = [], hung_up = []\<rparr>"

definition new_handler :: "nat \<Rightarrow> handler" where
  "new_handler n = \<lparr>hpc = H_copy_fd, own = n, h_fd = None, h_addr = None\<rparr>"

text \<open>A step of \<open>main\<close>; \<open>ok\<close> tells whether the call succeeds.\<close>

definition acceptor_step :: "bool \<Rightarrow> handoff \<Rightarrow> handoff option" where
  "acceptor_step ok s =
     (case apc s of
        A_accept \<Rightarrow>
          Some (if ok then s\<lparr>client_fd := conns s, conns := conns s + 1, apc := A_store_fd\<rparr>
                else s\<lparr>apc := A_gone\<rparr>)
      | A_store_fd \<Rightarrow> Some (s\<lparr>client_clifd := Some (client_fd s), apc := A_store_addr\<rparr>)
      | A_store_addr \<Rightarrow> Some (s\<lparr>client_cliaddr := Some (client_fd s), apc := A_create\<rparr>)
      | A_create \<Rightarrow>
          Some (s\<lparr>handlers := (if ok then handlers s @ [new_handler (client_fd s)] else handlers s),
                  apc := A_accept\<rparr>)
      | A_gone \<Rightarrow> None)"

definition handler_step :: "nat \<Rightarrow> handoff \<Rightarrow> handoff option" where
  "handler_step k s =
     (let h = handlers s ! k; move = (\<lambda>h'. s\<lparr>handlers := (handlers s)[k := h']\<rparr>) in
      case hpc h of
        H_copy_fd \<Rightarrow> Some (move (h\<lparr>hpc := H_copy_addr, h_fd := client_clifd s\<rparr>))
      | H_copy_addr \<Rightarrow> Some (move (h\<lparr>hpc := H_serve, h_addr := client_cliaddr s\<rparr>))
      | H_serve \<Rightarrow> Some ((move (h\<lparr>hpc := H_done\<rparr>))\<lparr>hung_up := hung_up s @ [h_fd h]\<rparr>)
      | H_done \<Rightarrow> None)"

text \<open>When \<open>main\<close> has exited, so have the threads.\<close>

inductive handoff_step :: "handoff \<Rightarrow> handoff \<Rightarrow> bool" where
  acceptor_moves: "acceptor_step ok s = Some s' \<Longrightarrow> handoff_step s s'"
| handler_moves: "apc s \<noteq> A_gone \<Longrightarrow> k < length (handlers s) \<Longrightarrow> handler_step k s = Some s' \<Longrightarrow>
    handoff_step s s'"

abbreviation handoff_reachable :: "handoff \<Rightarrow> bool" where
  "handoff_reachable \<equiv> reachable (\<lambda>s. s = handoff_start) handoff_step"

section \<open>The server of Lecture 8\<close>

text \<open>
  \<open>cells\<close> is the part of the heap that \<open>malloc\<close> has given and nobody has freed; a cell may be given
  again after it was freed.  \<open>malloc\<close> may return null, and the store through it ends the process.
  A thread that loads from a cell that is not there goes wrong, and so does one that frees it.
\<close>

datatype giver_pc = G_malloc | G_accept | G_create | G_gone

datatype server_pc = S_load | S_serve | S_free | S_close | S_done | S_wrong

record server_thread =
  spc :: server_pc
  connection :: nat
  vargp :: nat
  connfd :: "nat option"

record giving =
  accepted_conns :: nat
  gpc :: giver_pc
  new_socket :: nat
  cells :: "nat \<Rightarrow> nat option option"
  servers :: "server_thread list"
  closed_conns :: "nat option list"

definition giving_start :: giving where
  "giving_start =
     \<lparr>accepted_conns = 0, gpc = G_malloc, new_socket = 0, cells = (\<lambda>_. None), servers = [],
      closed_conns = []\<rparr>"

text \<open>\<open>a\<close> is the cell that \<open>malloc\<close> gives when it succeeds.\<close>

definition giver_step :: "bool \<Rightarrow> nat \<Rightarrow> giving \<Rightarrow> giving option" where
  "giver_step ok a s =
     (case gpc s of
        G_malloc \<Rightarrow>
          (if \<not> ok then Some (s\<lparr>gpc := G_gone\<rparr>)
           else if cells s a = None
           then Some (s\<lparr>new_socket := a, cells := (cells s)(a := Some None), gpc := G_accept\<rparr>)
           else None)
      | G_accept \<Rightarrow>
          Some (if ok
                then s\<lparr>cells := (cells s)(new_socket s := Some (Some (accepted_conns s))),
                       accepted_conns := accepted_conns s + 1, gpc := G_create\<rparr>
                else s\<lparr>gpc := G_gone\<rparr>)
      | G_create \<Rightarrow>
          Some (s\<lparr>servers :=
                    (if ok
                     then servers s @ [\<lparr>spc = S_load, connection = accepted_conns s - 1,
                                        vargp = new_socket s, connfd = None\<rparr>]
                     else servers s),
                  gpc := G_malloc\<rparr>)
      | G_gone \<Rightarrow> None)"

definition server_step :: "nat \<Rightarrow> giving \<Rightarrow> giving option" where
  "server_step k s =
     (let t = servers s ! k; move = (\<lambda>t'. s\<lparr>servers := (servers s)[k := t']\<rparr>) in
      case spc t of
        S_load \<Rightarrow>
          (case cells s (vargp t) of
             None \<Rightarrow> Some (move (t\<lparr>spc := S_wrong\<rparr>))
           | Some c \<Rightarrow> Some (move (t\<lparr>spc := S_serve, connfd := c\<rparr>)))
      | S_serve \<Rightarrow> Some (move (t\<lparr>spc := S_free\<rparr>))
      | S_free \<Rightarrow>
          (if cells s (vargp t) = None then Some (move (t\<lparr>spc := S_wrong\<rparr>))
           else Some ((move (t\<lparr>spc := S_close\<rparr>))\<lparr>cells := (cells s)(vargp t := None)\<rparr>))
      | S_close \<Rightarrow> Some ((move (t\<lparr>spc := S_done\<rparr>))\<lparr>closed_conns := closed_conns s @ [connfd t]\<rparr>)
      | _ \<Rightarrow> None)"

inductive giving_step :: "giving \<Rightarrow> giving \<Rightarrow> bool" where
  giver_moves: "giver_step ok a s = Some s' \<Longrightarrow> giving_step s s'"
| server_moves: "gpc s \<noteq> G_gone \<Longrightarrow> k < length (servers s) \<Longrightarrow> server_step k s = Some s' \<Longrightarrow>
    giving_step s s'"

abbreviation giving_reachable :: "giving \<Rightarrow> bool" where
  "giving_reachable \<equiv> reachable (\<lambda>s. s = giving_start) giving_step"

section \<open>A thread of the server has its own connection\<close>

text \<open>A thread holds its cell until it frees it.\<close>

fun holds_cell :: "server_pc \<Rightarrow> bool" where
  "holds_cell S_load \<longleftrightarrow> True" | "holds_cell S_serve \<longleftrightarrow> True" | "holds_cell S_free \<longleftrightarrow> True"
| "holds_cell _ \<longleftrightarrow> False"

definition server_ok :: "giving \<Rightarrow> server_thread \<Rightarrow> bool" where
  "server_ok s t \<longleftrightarrow>
     spc t \<noteq> S_wrong \<and> connection t < accepted_conns s \<and>
     (holds_cell (spc t) \<longrightarrow> cells s (vargp t) = Some (Some (connection t))) \<and>
     (spc t \<noteq> S_load \<longrightarrow> connfd t = Some (connection t))"

definition giving_inv :: "giving \<Rightarrow> bool" where
  "giving_inv s \<longleftrightarrow>
     (\<forall>t \<in> set (servers s). server_ok s t) \<and>
     distinct (map connection (servers s)) \<and>
     (gpc s = G_accept \<longrightarrow> cells s (new_socket s) = Some None) \<and>
     (gpc s = G_create \<longrightarrow>
        0 < accepted_conns s \<and> cells s (new_socket s) = Some (Some (accepted_conns s - 1)) \<and>
        accepted_conns s - 1 \<notin> connection ` set (servers s)) \<and>
     distinct (closed_conns s) \<and>
     set (closed_conns s) = Some ` connection ` {t \<in> set (servers s). spc t = S_done}"

lemma giving_inv_start: "giving_inv giving_start"
  by (simp add: giving_inv_def giving_start_def)

lemma giver_keeps:
  assumes inv: "giving_inv s" and step: "giver_step ok a s = Some s'"
  shows "giving_inv s'"
proof (cases "gpc s")
  case G_malloc
  with step inv show ?thesis
    by (auto simp: giver_step_def giving_inv_def server_ok_def split: if_splits)
next
  case G_accept
  have "vargp t \<noteq> new_socket s" if "t \<in> set (servers s)" "holds_cell (spc t)" for t
    using inv that G_accept by (auto simp: giving_inv_def server_ok_def)
  with step inv G_accept show ?thesis
    by (auto simp: giver_step_def giving_inv_def server_ok_def less_Suc_eq split: if_splits)
next
  case G_create
  with step inv show ?thesis
    by (auto simp: giver_step_def giving_inv_def server_ok_def split: if_splits)
qed (use step in \<open>auto simp: giver_step_def\<close>)

text \<open>A thread changes its own entry, and of the heap only the cell it holds.\<close>

lemma server_keeps:
  assumes inv: "giving_inv s" and k: "k < length (servers s)" and step: "server_step k s = Some s'"
  shows "giving_inv s'"
proof -
  let ?t = "servers s ! k"
  have t: "server_ok s ?t" "?t \<in> set (servers s)" using inv k by (auto simp: giving_inv_def)
  have others: "t \<noteq> ?t \<Longrightarrow> connection t \<noteq> connection ?t" if "t \<in> set (servers s)" for t
    using inv that t(2) by (auto simp: giving_inv_def distinct_map inj_on_def)
  have held: "cells s (vargp t) = Some (Some (connection t))" if "t \<in> set (servers s)" "holds_cell (spc t)" for t
    using inv that by (auto simp: giving_inv_def server_ok_def)
  have distinct: "distinct (servers s)" using inv by (auto simp: giving_inv_def distinct_map)
  have upd: "set ((servers s)[k := t']) = insert t' (set (servers s) - {?t})" for t'
    by (rule set_update_distinct [OF distinct k])
  have conn: "map connection ((servers s)[k := t']) = map connection (servers s)"
    if "connection t' = connection ?t" for t'
    using that k by (simp add: map_update list_update_id [symmetric])
      (metis list_update_id map_update nth_map)
  have fin: "{t \<in> insert t' (set (servers s) - {?t}). spc t = S_done} =
      (if spc t' = S_done then insert t' else (\<lambda>A. A)) {t \<in> set (servers s). spc t = S_done}"
    if "spc ?t \<noteq> S_done" for t'
    using that by auto
  have same: "giving_inv (s\<lparr>servers := (servers s)[k := t']\<rparr>)"
    if "server_ok s t'" "connection t' = connection ?t" "spc t' \<noteq> S_done" "spc ?t \<noteq> S_done" for t'
  proof -
    have "server_ok (s\<lparr>servers := (servers s)[k := t']\<rparr>) t = server_ok s t" for t
      by (simp add: server_ok_def)
    moreover have "connection ` set ((servers s)[k := t']) = connection ` set (servers s)"
      using conn [OF that(2)] by (metis set_map)
    ultimately show ?thesis
      using inv that(1,3) conn [OF that(2)] fin [OF that(4), of t']
      unfolding giving_inv_def by (auto simp: upd)
  qed
  show ?thesis
  proof (cases "spc ?t")
    case S_free
    let ?t' = "?t\<lparr>spc := S_close\<rparr>" and ?c = "(cells s)(vargp ?t := None)"
    have "vargp t \<noteq> vargp ?t" if "t \<in> set (servers s)" "t \<noteq> ?t" "holds_cell (spc t)" for t
      using others [OF that(1,2)] held [OF that(1,3)] held [OF t(2)] S_free by auto
    moreover have "gpc s = G_create \<Longrightarrow> connection ?t \<noteq> accepted_conns s - 1"
      using inv t(2) unfolding giving_inv_def by (metis imageI)
    then have "gpc s = G_accept \<or> gpc s = G_create \<Longrightarrow> new_socket s \<noteq> vargp ?t"
      using held [OF t(2)] S_free inv by (auto simp: giving_inv_def)
    moreover have "giving_inv (s\<lparr>servers := (servers s)[k := ?t']\<rparr>)"
      using t S_free by (intro same) (auto simp: server_ok_def)
    moreover have "s' = s\<lparr>servers := (servers s)[k := ?t'], cells := ?c\<rparr>"
      using step S_free t by (auto simp: server_step_def Let_def server_ok_def)
    ultimately show ?thesis
      using t S_free by (auto simp: giving_inv_def server_ok_def upd)
  next
    case S_close
    let ?t' = "?t\<lparr>spc := S_done\<rparr>"
    have s': "s' = s\<lparr>servers := (servers s)[k := ?t'], closed_conns := closed_conns s @ [Some (connection ?t)]\<rparr>"
      using step S_close t by (auto simp: server_step_def Let_def server_ok_def)
    have image: "connection ` set (servers s') = connection ` set (servers s)"
      using conn [of ?t'] by (simp add: s' flip: set_map)
    have ok: "server_ok s' t = server_ok s t" for t
      by (simp add: server_ok_def s')
    have all: "\<forall>t \<in> set (servers s'). server_ok s' t"
      unfolding ok using inv t S_close by (auto simp: giving_inv_def upd s' server_ok_def)
    have hung: "set (closed_conns s') = Some ` connection ` {t \<in> set (servers s'). spc t = S_done}"
      using inv fin [of ?t'] S_close by (simp add: giving_inv_def upd s')
    have "Some (connection ?t) \<notin> set (closed_conns s)"
    proof
      assume "Some (connection ?t) \<in> set (closed_conns s)"
      then obtain x where "x \<in> set (servers s)" "spc x = S_done" "connection x = connection ?t"
        using inv unfolding giving_inv_def by auto
      with others [of x] S_close show False by (cases "x = ?t") auto
    qed
    then have "distinct (closed_conns s')" using inv by (simp add: giving_inv_def s')
    with all hung image show ?thesis
      using inv conn [of ?t'] unfolding giving_inv_def by (simp add: s')
  qed (use step t in \<open>auto simp: server_step_def Let_def server_ok_def split: option.splits intro!: same\<close>)
qed

interpretation giving_runs: inductive_invariant "\<lambda>s. s = giving_start" giving_step giving_inv
proof (unfold_locales, goal_cases)
  case (1 s)
  then show ?case using giving_inv_start by simp
next
  case (2 s s')
  from 2(2,1) show ?case
    by cases (use giver_keeps server_keeps in blast)+
qed

section \<open>A thread of the proxy has its own connection, or a later one\<close>

definition slot_ok :: "handoff \<Rightarrow> bool" where
  "slot_ok s \<longleftrightarrow>
     (let n = conns s; none = (handlers s = []); stored = (\<lambda>v i. v = Some (n - i) \<and> i \<le> n);
          upto = (\<lambda>i. \<forall>m \<in> own ` set (handlers s). m + i \<le> n) in
      case apc s of
        A_accept \<Rightarrow> upto 1 \<and> (none \<or> stored (client_clifd s) 1 \<and> stored (client_cliaddr s) 1)
      | A_gone \<Rightarrow> upto 1
      | A_store_fd \<Rightarrow>
          client_fd s + 1 = n \<and> upto 2 \<and>
          (none \<or> stored (client_clifd s) 2 \<and> stored (client_cliaddr s) 2)
      | A_store_addr \<Rightarrow>
          client_fd s + 1 = n \<and> upto 2 \<and> stored (client_clifd s) 1 \<and>
          (none \<or> stored (client_cliaddr s) 2)
      | A_create \<Rightarrow>
          client_fd s + 1 = n \<and> upto 2 \<and> stored (client_clifd s) 1 \<and> stored (client_cliaddr s) 1)"

definition copied_ok :: "handoff \<Rightarrow> handler \<Rightarrow> bool" where
  "copied_ok s h \<longleftrightarrow>
     (case hpc h of
        H_copy_fd \<Rightarrow> True
      | H_copy_addr \<Rightarrow>
          (\<exists>c. h_fd h = Some c \<and> own h \<le> c \<and> c < conns s \<and>
             (\<forall>d. client_cliaddr s = Some d \<longrightarrow> c \<le> Suc d))
      | _ \<Rightarrow>
          (\<exists>c d. h_fd h = Some c \<and> h_addr h = Some d \<and> own h \<le> c \<and> own h \<le> d \<and>
             c < conns s \<and> d < conns s \<and> c \<le> Suc d))"

definition handoff_inv :: "handoff \<Rightarrow> bool" where
  "handoff_inv s \<longleftrightarrow> slot_ok s \<and> (\<forall>h \<in> set (handlers s). copied_ok s h)"

lemma handoff_inv_start: "handoff_inv handoff_start"
  by (simp add: handoff_inv_def slot_ok_def handoff_start_def)

lemma acceptor_keeps:
  assumes inv: "handoff_inv s" and step: "acceptor_step ok s = Some s'"
  shows "handoff_inv s'"
proof -
  have "apc s = A_create \<Longrightarrow> \<forall>h \<in> set (handlers s). Suc (own h) \<le> conns s"
    using inv by (auto simp: handoff_inv_def slot_ok_def Let_def dest: bspec Suc_leD)
  then have "slot_ok s'"
    using inv step by (cases "apc s")
      (auto simp: acceptor_step_def handoff_inv_def slot_ok_def Let_def new_handler_def numeral_2_eq_2 split: if_splits)
  moreover have old: "copied_ok s' h" if "h \<in> set (handlers s)" for h
  proof -
    from inv that have "copied_ok s h" "slot_ok s" "handlers s \<noteq> []" by (auto simp: handoff_inv_def)
    then show ?thesis
      using step by (cases "apc s"; cases "hpc h")
        (auto simp: acceptor_step_def slot_ok_def copied_ok_def Let_def split: if_splits)
  qed
  moreover have "h \<in> set (handlers s) \<or> h = new_handler (client_fd s)" if "h \<in> set (handlers s')" for h
    using step that by (cases "apc s") (auto simp: acceptor_step_def split: if_splits)
  moreover have "copied_ok s' (new_handler n)" for n
    by (simp add: copied_ok_def new_handler_def)
  ultimately show ?thesis unfolding handoff_inv_def by blast
qed

lemma handler_keeps:
  assumes inv: "handoff_inv s" and live: "apc s \<noteq> A_gone" and k: "k < length (handlers s)"
    and step: "handler_step k s = Some s'"
  shows "handoff_inv s'"
proof -
  let ?h = "handlers s ! k"
  have mem: "?h \<in> set (handlers s)" using k by simp
  define h' where "h' = handlers s' ! k"
  have h': "handlers s' = (handlers s)[k := h']" "own h' = own ?h"
    unfolding h'_def using step k by (cases "hpc ?h"; auto simp: handler_step_def Let_def)+
  have rest: "conns s' = conns s" "apc s' = apc s" "client_fd s' = client_fd s"
    "client_clifd s' = client_clifd s" "client_cliaddr s' = client_cliaddr s"
    using step by (cases "hpc ?h"; auto simp: handler_step_def Let_def)+
  have sub: "h \<in> set (handlers s') \<Longrightarrow> h = h' \<or> h \<in> set (handlers s)" for h
    using h'(1) set_update_subset_insert [of "handlers s" k h'] by auto
  have slot: "slot_ok s" and copied: "copied_ok s ?h" using inv mem by (auto simp: handoff_inv_def)
  have "copied_ok s h'"
    unfolding h'_def using step slot copied live k
    by (cases "hpc ?h"; cases "apc s")
      (auto simp: handler_step_def Let_def slot_ok_def copied_ok_def dest!: bspec [OF _ mem])
  moreover have "copied_ok s' = copied_ok s"
    by (rule ext) (simp add: copied_ok_def rest split: handler_pc.split)
  moreover have "slot_ok s'"
  proof -
    have "map own (handlers s') = map own (handlers s)"
      by (rule nth_equalityI) (use h' k in \<open>auto simp: nth_list_update\<close>)
    then have "own ` set (handlers s') = own ` set (handlers s)" by (metis set_map)
    moreover have "handlers s \<noteq> []" using k by auto
    ultimately show ?thesis
      using slot unfolding slot_ok_def Let_def rest by (cases "apc s") simp_all
  qed
  ultimately show ?thesis
    using inv sub by (auto simp: handoff_inv_def)
qed

interpretation handoff_runs: inductive_invariant "\<lambda>s. s = handoff_start" handoff_step handoff_inv
proof (unfold_locales, goal_cases)
  case (1 s)
  then show ?case using handoff_inv_start by simp
next
  case (2 s s')
  from 2(2,1) show ?case
    by cases (use acceptor_keeps handler_keeps in blast)+
qed

section \<open>Runs\<close>

text \<open>Schedules: \<open>Inl ok\<close> is a step of \<open>main\<close>, \<open>Inr k\<close> one of thread \<open>k\<close>.\<close>

fun handoff_run :: "(bool + nat) list \<Rightarrow> handoff \<Rightarrow> handoff option" where
  "handoff_run [] s = Some s"
| "handoff_run (Inl ok # cs) s = Option.bind (acceptor_step ok s) (handoff_run cs)"
| "handoff_run (Inr k # cs) s =
     (if apc s \<noteq> A_gone \<and> k < length (handlers s) then Option.bind (handler_step k s) (handoff_run cs) else None)"

fun giving_run :: "(bool \<times> nat + nat) list \<Rightarrow> giving \<Rightarrow> giving option" where
  "giving_run [] s = Some s"
| "giving_run (Inl (ok, a) # cs) s = Option.bind (giver_step ok a s) (giving_run cs)"
| "giving_run (Inr k # cs) s =
     (if gpc s \<noteq> G_gone \<and> k < length (servers s) then Option.bind (server_step k s) (giving_run cs) else None)"

lemma moves_reachable:
  "handoff_reachable s \<Longrightarrow> acceptor_step ok s = Some s' \<Longrightarrow> handoff_reachable s'"
  "handoff_reachable s \<Longrightarrow> apc s \<noteq> A_gone \<Longrightarrow> k < length (handlers s) \<Longrightarrow> handler_step k s = Some s' \<Longrightarrow>
    handoff_reachable s'"
  "giving_reachable g \<Longrightarrow> giver_step ok a g = Some g' \<Longrightarrow> giving_reachable g'"
  "giving_reachable g \<Longrightarrow> gpc g \<noteq> G_gone \<Longrightarrow> k < length (servers g) \<Longrightarrow> server_step k g = Some g' \<Longrightarrow>
    giving_reachable g'"
  by (blast intro: reach_step acceptor_moves handler_moves giver_moves server_moves)+

lemma handoff_run_reachable:
  "handoff_run cs s = Some s' \<Longrightarrow> handoff_reachable s \<Longrightarrow> handoff_reachable s'"
  by (induction cs s rule: handoff_run.induct)
    (auto simp: bind_eq_Some_conv split: if_splits dest: moves_reachable)

lemma giving_run_reachable:
  "giving_run cs s = Some s' \<Longrightarrow> giving_reachable s \<Longrightarrow> giving_reachable s'"
  by (induction cs s rule: giving_run.induct)
    (auto simp: bind_eq_Some_conv split: if_splits dest: moves_reachable)

lemma starts_reachable: "handoff_reachable handoff_start" "giving_reachable giving_start"
  by (auto intro: reach_init)

lemmas handoff_eval =
  acceptor_step_def handler_step_def handoff_start_def new_handler_def Let_def
  giver_step_def server_step_def giving_start_def

section \<open>Properties\<close>

text \<open>
  C30. In the server of Lecture 8 every thread serves the connection it was made for: it never touches
  memory that was freed, no two threads have one connection, and no connection is closed twice.
\<close>

theorem threads_have_own_connections:
  assumes "giving_reachable s" and "k < length (servers s)"
  shows "spc (servers s ! k) \<noteq> S_wrong \<and>
    (spc (servers s ! k) = S_load \<or> connfd (servers s ! k) = Some (connection (servers s ! k))) \<and>
    distinct (map connection (servers s)) \<and> distinct (closed_conns s)"
  using giving_runs.inv_reachable [OF assms(1)] assms(2)
  by (auto simp: giving_inv_def server_ok_def)

theorem threads_have_own_connections_witness:
  "connfd (servers (the (giving_run [Inl (True, 7), Inl (True, 0), Inl (True, 0), Inr 0] giving_start)) ! 0) =
     Some (connection (servers (the (giving_run [Inl (True, 7), Inl (True, 0), Inl (True, 0), Inr 0] giving_start)) ! 0))"
proof -
  let ?r = "giving_run [Inl (True, 7), Inl (True, 0), Inl (True, 0), Inr 0] giving_start"
  obtain s where s: "?r = Some s" "length (servers s) = 1" "spc (servers s ! 0) = S_serve"
    by (simp add: handoff_eval)
  from threads_have_own_connections [OF giving_run_reachable [OF s(1) starts_reachable(2)], of 0] s
  show ?thesis by simp
qed

text \<open>
  A thread of the proxy that has copied its argument serves the connection it was made for or one
  accepted later, with the address of that peer or of another one accepted since, and never an
  indeterminate value.
\<close>

theorem proxy_threads_have_some_connection:
  assumes "handoff_reachable s" and "h \<in> set (handlers s)" and "hpc h = H_serve \<or> hpc h = H_done"
  shows "\<exists>c d. h_fd h = Some c \<and> h_addr h = Some d \<and> own h \<le> c \<and> own h \<le> d \<and> c \<le> Suc d \<and>
    c < conns s \<and> d < conns s"
proof -
  from handoff_runs.inv_reachable [OF assms(1)] assms(2) have "copied_ok s h"
    by (auto simp: handoff_inv_def)
  with assms(3) show ?thesis by (auto simp: copied_ok_def)
qed

theorem proxy_threads_have_some_connection_witness:
  "\<exists>c d. h_fd (handlers (the (handoff_run (replicate 4 (Inl True) @ [Inr 0, Inr 0]) handoff_start)) ! 0) = Some c \<and>
     h_addr (handlers (the (handoff_run (replicate 4 (Inl True) @ [Inr 0, Inr 0]) handoff_start)) ! 0) = Some d"
proof -
  let ?r = "handoff_run (replicate 4 (Inl True) @ [Inr 0, Inr 0]) handoff_start"
  obtain s where s: "?r = Some s" "length (handlers s) = 1" "hpc (handlers s ! 0) = H_serve"
    by (simp add: handoff_eval numeral_eq_Suc)
  from proxy_threads_have_some_connection [OF handoff_run_reachable [OF s(1) starts_reachable(1)],
      of "handlers s ! 0"] s
  show ?thesis by auto
qed

text \<open>
  C31. The address that \<open>main\<close> passes is that of a variable it goes on to change: two threads can
  serve one connection and close it twice, while another connection has no thread and stays open;
  and a thread can log the address of another client.
\<close>

theorem proxy_threads_share_a_connection:
  "(\<exists>s. handoff_reachable s \<and> conns s = 2 \<and> map own (handlers s) = [0, 1] \<and>
      map h_fd (handlers s) = [Some 1, Some 1] \<and> hung_up s = [Some 1, Some 1]) \<and>
   (\<exists>s. handoff_reachable s \<and> map own (handlers s) = [0] \<and> map h_fd (handlers s) = [Some 0] \<and>
      map h_addr (handlers s) = [Some 1])"
proof -
  let ?t = "Inl True"
  let ?round = "[?t, ?t, ?t, ?t]"
  obtain s where s: "handoff_run (?round @ ?round @ [Inr 0, Inr 1, Inr 0, Inr 1, Inr 0, Inr 1]) handoff_start = Some s"
    and "conns s = 2 \<and> map own (handlers s) = [0, 1] \<and> map h_fd (handlers s) = [Some 1, Some 1] \<and>
      hung_up s = [Some 1, Some 1]"
    by (simp add: handoff_eval)
  moreover obtain z where z: "handoff_run (?round @ [Inr 0, ?t, ?t, ?t, Inr 0]) handoff_start = Some z"
    and "map own (handlers z) = [0] \<and> map h_fd (handlers z) = [Some 0] \<and> map h_addr (handlers z) = [Some 1]"
    by (simp add: handoff_eval)
  ultimately show ?thesis
    using handoff_run_reachable [OF s starts_reachable(1)] handoff_run_reachable [OF z starts_reachable(1)]
    by metis
qed

end
