(* ===== verification/Pipes.thy ===== *)
theory Pipes
  imports Sockets Transition
begin

text \<open>
  \<^verbatim>\<open>src/ipc_code/pipe\<close>: a child writes five messages into a pipe, the parent reads until the end of
  the pipe, counting its reads, and sends the count back through a second pipe.

  A pipe is the bytes in it and the number of descriptors open for either end.  A read waits for
  bytes or for the last writer to close; a write to a pipe that nobody can read ends the process
  (\<open>SIGPIPE\<close>).  The five messages fit into the pipe, so writes do not wait.  \<open>pipe\<close> succeeds, and so do
  the reads (the branch for \<open>size < 0\<close> is never taken); \<open>fork\<close> may fail, and the parent goes on as if it had a child.
\<close>

section \<open>Pipes\<close>

record pipe =
  holds :: bytes
  readers :: nat
  writers :: nat

definition pipe_read :: "nat \<Rightarrow> pipe \<Rightarrow> (bytes \<times> pipe) option" where
  "pipe_read n p =
     (if holds p \<noteq> [] then Some (take n (holds p), p\<lparr>holds := drop n (holds p)\<rparr>)
      else if writers p = 0 then Some ([], p) else None)"

definition pipe_write :: "bytes \<Rightarrow> pipe \<Rightarrow> pipe option" where
  "pipe_write d p = (if readers p = 0 then None else Some (p\<lparr>holds := holds p @ d\<rparr>))"

definition close_read :: "pipe \<Rightarrow> pipe" where
  "close_read p = p\<lparr>readers := readers p - 1\<rparr>"

definition close_write :: "pipe \<Rightarrow> pipe" where
  "close_write p = p\<lparr>writers := writers p - 1\<rparr>"

section \<open>The program\<close>

datatype sender_pc =
    K_close_r | K_test nat | K_write nat | K_sleep nat | K_close_w | K_close_w2 | K_read | K_line | K_response
  | K_close_r2 | K_return | K_killed

datatype counter_pc =
    Q_fork | Q_close_w | Q_read | Q_print | Q_close_r | Q_close_r2 | Q_format | Q_write | Q_close_w2 | Q_wait
  | Q_return | Q_killed

record piping =
  fds :: pipe
  fds2 :: pipe
  sender :: "sender_pc option"
  receiver :: counter_pc
  num :: int
  buf :: bytes
  child_buf :: bytes
  parent_out :: "string list"
  child_out :: "string list"

definition hello :: bytes where "hello = ''Hello, World!'' @ [NUL]"

definition piping_start :: "bytes \<Rightarrow> piping" where
  "piping_start b =
     \<lparr>fds = \<lparr>holds = [], readers = 1, writers = 1\<rparr>, fds2 = \<lparr>holds = [], readers = 1, writers = 1\<rparr>,
      sender = None, receiver = Q_fork, num = 0, buf = b, child_buf = b, parent_out = [], child_out = []\<rparr>"

definition say_child :: "string \<Rightarrow> piping \<Rightarrow> piping" where
  "say_child line s = s\<lparr>child_out := child_out s @ [line @ [LF]]\<rparr>"

text \<open>The child has its own copy of \<open>buf\<close>.\<close>

definition sender_step :: "sender_pc \<Rightarrow> piping \<Rightarrow> piping option" where
  "sender_step pc s =
     (let at = (\<lambda>pc'. s\<lparr>sender := Some pc'\<rparr>) in
      case pc of
        K_close_r \<Rightarrow> Some ((at (K_test 0))\<lparr>fds := close_read (fds s)\<rparr>)
      | K_test i \<Rightarrow> Some (at (if i < 5 then K_write i else K_close_w))
      | K_write i \<Rightarrow>
          (case pipe_write hello (fds s) of
             None \<Rightarrow> Some (at K_killed)
           | Some p \<Rightarrow> Some ((at (K_sleep i))\<lparr>fds := p\<rparr>))
      | K_sleep i \<Rightarrow> Some (at (K_test (i + 1)))
      | K_close_w \<Rightarrow> Some ((at K_close_w2)\<lparr>fds := close_write (fds s)\<rparr>)
      | K_close_w2 \<Rightarrow> Some ((at K_read)\<lparr>fds2 := close_write (fds2 s)\<rparr>)
      | K_read \<Rightarrow>
          (case pipe_read 1024 (fds2 s) of
             None \<Rightarrow> None
           | Some (d, p) \<Rightarrow> Some ((at K_line)\<lparr>fds2 := p, child_buf := overwrite d (child_buf s)\<rparr>))
      | K_line \<Rightarrow> Some (say_child ''----------'' (at K_response))
      | K_response \<Rightarrow> Some (say_child (''Response: '' @ cstr (child_buf s)) (at K_close_r2))
      | K_close_r2 \<Rightarrow> Some ((at K_return)\<lparr>fds2 := close_read (fds2 s)\<rparr>)
      | _ \<Rightarrow> None)"

text \<open>A step of the parent; \<open>ok\<close> tells whether \<open>fork\<close> succeeds.\<close>

definition receiver_step :: "bool \<Rightarrow> piping \<Rightarrow> piping option" where
  "receiver_step ok s =
     (let at = (\<lambda>pc. s\<lparr>receiver := pc\<rparr>);
          both = (\<lambda>p. p\<lparr>readers := 2 * readers p, writers := 2 * writers p\<rparr>) in
      case receiver s of
        Q_fork \<Rightarrow>
          Some (if ok then (at Q_close_w)\<lparr>sender := Some K_close_r, fds := both (fds s), fds2 := both (fds2 s)\<rparr>
                else at Q_close_w)
      | Q_close_w \<Rightarrow> Some ((at Q_read)\<lparr>fds := close_write (fds s)\<rparr>)
      | Q_read \<Rightarrow>
          (case pipe_read 1024 (fds s) of
             None \<Rightarrow> None
           | Some (d, p) \<Rightarrow>
               Some (if d = [] then (at Q_close_r)\<lparr>fds := p\<rparr>
                     else (at Q_print)\<lparr>fds := p, buf := overwrite d (buf s)\<rparr>))
      | Q_print \<Rightarrow>
          Some ((at Q_read)\<lparr>num := to_int32 (num s + 1),
                  parent_out := parent_out s @ [''from child: '' @ cstr (buf s) @ [LF]]\<rparr>)
      | Q_close_r \<Rightarrow> Some ((at Q_close_r2)\<lparr>fds := close_read (fds s)\<rparr>)
      | Q_close_r2 \<Rightarrow> Some ((at Q_format)\<lparr>fds2 := close_read (fds2 s)\<rparr>)
      | Q_format \<Rightarrow>
          Some ((at Q_write)\<lparr>buf :=
            overwrite (show_int (num s) @ '' messages received'' @ [NUL]) (replicate 1024 NUL)\<rparr>)
      | Q_write \<Rightarrow>
          (case pipe_write (cstr (buf s) @ [NUL]) (fds2 s) of
             None \<Rightarrow> Some (at Q_killed)
           | Some p \<Rightarrow> Some ((at Q_close_w2)\<lparr>fds2 := p\<rparr>))
      | Q_close_w2 \<Rightarrow> Some ((at Q_wait)\<lparr>fds2 := close_write (fds2 s)\<rparr>)
      | Q_wait \<Rightarrow>
          (if sender s = None \<or> sender s = Some K_return \<or> sender s = Some K_killed then Some (at Q_return)
           else None)
      | _ \<Rightarrow> None)"

inductive piping_step :: "piping \<Rightarrow> piping \<Rightarrow> bool" where
  sender_moves: "sender s = Some pc \<Longrightarrow> sender_step pc s = Some s' \<Longrightarrow> piping_step s s'"
| receiver_moves: "receiver_step ok s = Some s' \<Longrightarrow> piping_step s s'"

definition piping_init :: "piping \<Rightarrow> bool" where
  "piping_init s \<longleftrightarrow> (\<exists>b. length b = 1024 \<and> s = piping_start b)"

abbreviation piping_reachable :: "piping \<Rightarrow> bool" where
  "piping_reachable \<equiv> reachable piping_init piping_step"

section \<open>Who holds which end\<close>

text \<open>How many messages the child has written.\<close>

fun messages_sent :: "sender_pc option \<Rightarrow> nat" where
  "messages_sent None = 0"
| "messages_sent (Some pc) =
     (case pc of K_close_r \<Rightarrow> 0 | K_test i \<Rightarrow> i | K_write i \<Rightarrow> i | K_sleep i \<Rightarrow> i + 1 | _ \<Rightarrow> 5)"

text \<open>
  Which ends of the two pipes the child has open, and the parent: the end to read the first one and
  to write it, and those of the second one.
\<close>

fun k_r :: "sender_pc \<Rightarrow> bool" where "k_r K_close_r \<longleftrightarrow> True" | "k_r _ \<longleftrightarrow> False"

fun k_w :: "sender_pc \<Rightarrow> bool" where
  "k_w K_close_r \<longleftrightarrow> True" | "k_w (K_test i) \<longleftrightarrow> True" | "k_w (K_write i) \<longleftrightarrow> True"
| "k_w (K_sleep i) \<longleftrightarrow> True" | "k_w K_close_w \<longleftrightarrow> True" | "k_w _ \<longleftrightarrow> False"

fun k_r2 :: "sender_pc \<Rightarrow> bool" where
  "k_r2 K_return \<longleftrightarrow> False" | "k_r2 K_killed \<longleftrightarrow> False" | "k_r2 _ \<longleftrightarrow> True"

definition k_w2 :: "sender_pc \<Rightarrow> bool" where "k_w2 pc \<longleftrightarrow> k_w pc \<or> pc = K_close_w2"

definition q_r :: "counter_pc \<Rightarrow> bool" where
  "q_r pc \<longleftrightarrow> pc \<in> {Q_fork, Q_close_w, Q_read, Q_print, Q_close_r}"

definition q_w :: "counter_pc \<Rightarrow> bool" where "q_w pc \<longleftrightarrow> pc \<in> {Q_fork, Q_close_w}"

definition q_r2 :: "counter_pc \<Rightarrow> bool" where
  "q_r2 pc \<longleftrightarrow> pc \<in> {Q_fork, Q_close_w, Q_read, Q_print, Q_close_r, Q_close_r2}"

definition q_w2 :: "counter_pc \<Rightarrow> bool" where
  "q_w2 pc \<longleftrightarrow> pc \<notin> {Q_wait, Q_return}"

definition opens :: "(sender_pc \<Rightarrow> bool) \<Rightarrow> sender_pc option \<Rightarrow> nat" where
  "opens f c = (case c of None \<Rightarrow> 0 | Some pc \<Rightarrow> if f pc then 1 else 0)"

definition held :: "(counter_pc \<Rightarrow> bool) \<Rightarrow> counter_pc \<Rightarrow> nat" where
  "held f pc = (if f pc then 1 else 0)"

definition ends_ok :: "piping \<Rightarrow> bool" where
  "ends_ok s \<longleftrightarrow>
     readers (fds s) = opens k_r (sender s) + held q_r (receiver s) \<and>
     writers (fds s) = opens k_w (sender s) + held q_w (receiver s) \<and>
     readers (fds2 s) = opens k_r2 (sender s) + held q_r2 (receiver s) \<and>
     writers (fds2 s) = opens k_w2 (sender s) + held q_w2 (receiver s)"

lemma opens_simps [simp]: "opens f None = 0" "opens f (Some pc) = (if f pc then 1 else 0)"
  by (simp_all add: opens_def)

lemmas pipe_ops = pipe_write_def pipe_read_def close_read_def close_write_def

lemma sender_keeps_parent:
  assumes "sender_step pc s = Some s'"
  shows "receiver s' = receiver s" "num s' = num s" "buf s' = buf s" "parent_out s' = parent_out s"
  using assms
  by (cases pc; auto simp: sender_step_def Let_def say_child_def split: if_splits option.splits)+

lemma ends_ok_sender:
  assumes "ends_ok s" "sender s = Some pc" "sender_step pc s = Some s'"
    "(\<exists>i. pc = K_write i) \<longrightarrow> readers (fds s) \<noteq> 0"
  shows "ends_ok s'"
proof (cases pc)
  case (K_write i)
  with assms show ?thesis by (auto simp: ends_ok_def sender_step_def pipe_ops k_w2_def)
next
  case K_read
  with assms show ?thesis by (auto simp: ends_ok_def sender_step_def pipe_ops k_w2_def split: if_splits)
next
  case (K_test i)
  with assms show ?thesis by (auto simp: ends_ok_def sender_step_def k_w2_def)
qed (use assms in \<open>auto simp: ends_ok_def sender_step_def close_read_def close_write_def say_child_def k_w2_def\<close>)

lemma ends_ok_receiver:
  assumes "ends_ok s" "receiver s = Q_fork \<longrightarrow> sender s = None" "receiver_step ok s = Some s'"
    and "receiver s = Q_write \<longrightarrow> readers (fds2 s) \<noteq> 0 \<or> sender s = None"
  shows "ends_ok s'"
proof -
  note q = q_r_def q_w_def q_r2_def q_w2_def held_def
  show ?thesis
  proof (cases "receiver s")
    case Q_fork
    with assms show ?thesis by (cases ok) (auto simp: ends_ok_def receiver_step_def q k_w2_def)
  next
    case Q_read
    with assms show ?thesis
      by (auto simp: ends_ok_def receiver_step_def pipe_read_def q split: if_splits)
  next
    case Q_write
    with assms show ?thesis
      by (auto simp: ends_ok_def receiver_step_def pipe_write_def q split: if_splits)
  next
    case Q_wait
    with assms show ?thesis
      by (auto simp: ends_ok_def receiver_step_def q split: if_splits)
  qed (use assms in \<open>auto simp: ends_ok_def receiver_step_def close_read_def close_write_def q\<close>)
qed

section \<open>The messages\<close>

definition past_loop :: "counter_pc \<Rightarrow> bool" where
  "past_loop pc \<longleftrightarrow> pc \<notin> {Q_fork, Q_close_w, Q_read, Q_print}"

fun sender_ok :: "sender_pc option \<Rightarrow> bool" where
  "sender_ok (Some (K_test i)) \<longleftrightarrow> i \<le> 5" | "sender_ok (Some (K_write i)) \<longleftrightarrow> i < 5"
| "sender_ok (Some (K_sleep i)) \<longleftrightarrow> i < 5" | "sender_ok (Some K_killed) \<longleftrightarrow> False" | "sender_ok _ \<longleftrightarrow> True"

text \<open>The reads counted, or about to be.\<close>

definition reads :: "counter_pc \<Rightarrow> int \<Rightarrow> int" where
  "reads pc n = n + (if pc = Q_print then 1 else 0)"

text \<open>
  \<open>m\<close> messages are in the pipe and \<open>t\<close> have been read, with at most as many reads, and at least one
  unless there were none.
\<close>

definition flow :: "nat \<Rightarrow> bytes \<Rightarrow> int \<Rightarrow> bool" where
  "flow sent inside n \<longleftrightarrow>
     (\<exists>m t. sent = t + m \<and> inside = concat (replicate m hello) \<and> n \<le> int t \<and> (0 < t \<longrightarrow> 0 < n))"

definition printed_ok :: "piping \<Rightarrow> bool" where
  "printed_ok s \<longleftrightarrow>
     length (buf s) = 1024 \<and> (receiver s = Q_print \<longrightarrow> cstr (buf s) = ''Hello, World!'') \<and> 0 \<le> num s \<and>
     parent_out s = replicate (nat (num s)) (''from child: Hello, World!'' @ [LF])"

definition flow_ok :: "piping \<Rightarrow> bool" where
  "flow_ok s \<longleftrightarrow>
     sender_ok (sender s) \<and> printed_ok s \<and>
     (receiver s = Q_fork \<longrightarrow> sender s = None \<and> num s = 0) \<and> (receiver s = Q_close_w \<longrightarrow> num s = 0) \<and>
     (past_loop (receiver s) \<longrightarrow> opens k_w (sender s) = 0 \<and> holds (fds s) = []) \<and>
     flow (messages_sent (sender s)) (holds (fds s)) (reads (receiver s) (num s))"

lemma messages_snoc: "concat (replicate m hello) @ hello = concat (replicate (Suc m) hello)"
  by (induction m) auto

lemma length_messages: "length (concat (replicate m hello)) = m * 14"
  by (induction m) (simp_all add: hello_def)

lemma messages_sent_le: "sender_ok c \<Longrightarrow> messages_sent c \<le> 5"
  by (cases c rule: sender_ok.cases) auto

lemma flow_write: "flow k b n \<Longrightarrow> flow (Suc k) (b @ hello) n"
  unfolding flow_def by (metis add_Suc_right messages_snoc)

lemma flow_read:
  assumes "flow k b n" "b \<noteq> []" "0 \<le> n"
  shows "flow k [] (n + 1)"
proof -
  obtain m t where mt: "k = t + m" "b = concat (replicate m hello)" "n \<le> int t" "0 < t \<longrightarrow> 0 < n"
    using assms(1) unfolding flow_def by blast
  with assms(2) have "0 < m" by (cases m) auto
  with mt assms(3) show ?thesis
    unfolding flow_def by (intro exI [of _ 0] exI [of _ k]) auto
qed

lemma flow_cstr:
  assumes "flow k b n" "b \<noteq> []" "k \<le> 5" "length a = 1024"
  shows "length b \<le> 70 \<and> cstr (overwrite b a) = ''Hello, World!''"
proof -
  obtain m t where "k = t + m" and m: "b = concat (replicate m hello)"
    using assms(1) unfolding flow_def by blast
  with assms(3) have "m \<le> 5" by simp
  with assms(2) m obtain m' where "m = Suc m'" by (cases m) auto
  with m have "b = hello @ concat (replicate m' hello)" by simp
  then show ?thesis
    using length_messages [of m] m \<open>m \<le> 5\<close> by (auto simp: overwrite_def cstr_def hello_def)
qed

text \<open>What a step of the child does to the pipe and to what it has sent.\<close>

lemma sender_flow:
  assumes "sender s = Some pc" "sender_step pc s = Some s'" "sender_ok (sender s)"
    "(\<exists>i. pc = K_write i) \<longrightarrow> readers (fds s) \<noteq> 0"
  shows "sender_ok (sender s') \<and> opens k_w (sender s') \<le> opens k_w (sender s) \<and>
    (messages_sent (sender s') = messages_sent (sender s) \<and> holds (fds s') = holds (fds s) \<or>
     opens k_w (sender s) = 1 \<and> messages_sent (sender s') = Suc (messages_sent (sender s)) \<and>
       holds (fds s') = holds (fds s) @ hello)"
proof (cases pc)
  case K_read
  with assms show ?thesis by (auto simp: sender_step_def pipe_ops split: if_splits)
qed (use assms in \<open>auto simp: sender_step_def pipe_ops say_child_def split: if_splits\<close>)

lemma flow_ok_sender:
  assumes flow: "flow_ok s" and pc: "sender s = Some pc" and step: "sender_step pc s = Some s'"
    and open_end: "(\<exists>i. pc = K_write i) \<longrightarrow> readers (fds s) \<noteq> 0"
  shows "flow_ok s'"
proof -
  note same = sender_keeps_parent [OF step]
  note eff = sender_flow [OF pc step _ open_end]
  have ok: "sender_ok (sender s)" and fl: "flow (messages_sent (sender s)) (holds (fds s)) (reads (receiver s) (num s))"
    using flow by (auto simp: flow_ok_def)
  have "sender s' \<noteq> None" using step by (cases pc) (auto simp: sender_step_def Let_def say_child_def split: if_splits option.splits)
  moreover have "flow (messages_sent (sender s')) (holds (fds s')) (reads (receiver s') (num s'))"
    using eff [OF ok] flow_write [OF fl] fl same by auto
  ultimately show ?thesis
    using flow eff [OF ok] same pc unfolding flow_ok_def printed_ok_def by auto
qed

definition reply_text :: "int \<Rightarrow> string" where
  "reply_text n = show_int n @ '' messages received''"

lemma reply_text_props:
  assumes "0 \<le> n" "n \<le> 5"
  shows "NUL \<notin> set (reply_text n)" "length (reply_text n) \<le> 30"
proof -
  have "show_int n = [digit_char (nat n)]"
    using assms by (simp add: show_int_def show_nat.simps)
  moreover have "digit_char (nat n) \<noteq> NUL"
    using assms digit_not_special [OF is_digit_digit_char [of "nat n"]] by auto
  ultimately show "NUL \<notin> set (reply_text n)" "length (reply_text n) \<le> 30"
    by (simp_all add: reply_text_def)
qed

lemma flow_ok_num:
  assumes "flow_ok s"
  shows "reads (receiver s) (num s) \<le> 5" "0 \<le> num s" "num s \<le> 5"
proof -
  obtain t m where "messages_sent (sender s) = t + m" "reads (receiver s) (num s) \<le> int t"
    using assms unfolding flow_ok_def flow_def by blast
  moreover have "messages_sent (sender s) \<le> 5"
    using assms messages_sent_le by (auto simp: flow_ok_def)
  ultimately show "reads (receiver s) (num s) \<le> 5" "num s \<le> 5"
    by (auto simp: reads_def split: if_splits)
  show "0 \<le> num s" using assms by (simp add: flow_ok_def printed_ok_def)
qed

lemma flow_ok_receiver:
  assumes flow: "flow_ok s" and ends: "ends_ok s" and step: "receiver_step ok s = Some s'"
  shows "flow_ok s'"
proof -
  note bound = flow_ok_num [OF flow]
  note fl = flow [unfolded flow_ok_def]
  show ?thesis
  proof (cases "receiver s")
    case Q_fork
    with flow step show ?thesis
      by (cases ok) (auto simp: receiver_step_def flow_ok_def printed_ok_def flow_def reads_def past_loop_def)
  next
    case Q_close_w
    with flow step show ?thesis
      by (auto simp: receiver_step_def flow_ok_def printed_ok_def close_write_def reads_def past_loop_def)
  next
    case Q_read
    let ?b = "holds (fds s)"
    have k: "messages_sent (sender s) \<le> 5" "length (buf s) = 1024"
      using fl messages_sent_le by (auto simp: printed_ok_def)
    show ?thesis
    proof (cases "?b = []")
      case True
      then have "s' = s\<lparr>receiver := Q_close_r\<rparr>" "writers (fds s) = 0"
        using step Q_read by (auto simp: receiver_step_def pipe_read_def split: if_splits)
      with fl True ends Q_read show ?thesis
        by (auto simp: flow_ok_def printed_ok_def reads_def past_loop_def ends_ok_def)
    next
      case False
      have f: "flow (messages_sent (sender s)) ?b (num s)" using fl Q_read by (simp add: reads_def)
      have b: "length ?b \<le> 70" "cstr (overwrite ?b (buf s)) = ''Hello, World!''"
        using flow_cstr [OF f False k] by auto
      then have s': "s' = s\<lparr>receiver := Q_print, fds := (fds s)\<lparr>holds := []\<rparr>, buf := overwrite ?b (buf s)\<rparr>"
        using step Q_read False by (auto simp: receiver_step_def pipe_read_def)
      from flow_read [OF f False] bound(2) fl b k show ?thesis
        by (auto simp: s' flow_ok_def printed_ok_def reads_def past_loop_def)
    qed
  next
    case Q_print
    have num: "to_int32 (num s + 1) = num s + 1" using bound Q_print by (simp add: to_int32_id')
    have "replicate (nat (num s)) x @ [x] = replicate (nat (num s + 1)) x" for x :: string
      using bound(2) by (simp add: nat_add_distrib replicate_append_same flip: replicate_Suc)
    with fl step Q_print num bound show ?thesis
      by (auto simp: receiver_step_def flow_ok_def printed_ok_def reads_def past_loop_def)
  next
    case Q_format
    have "length (overwrite (reply_text (num s) @ [NUL]) (replicate 1024 NUL)) = 1024"
      using reply_text_props(2) [OF bound(2,3)] by (simp add: overwrite_def)
    with fl step Q_format show ?thesis
      by (auto simp: receiver_step_def flow_ok_def printed_ok_def reads_def past_loop_def reply_text_def)
  next
    case Q_write
    with fl step show ?thesis
      by (auto simp: receiver_step_def flow_ok_def printed_ok_def reads_def past_loop_def pipe_write_def split: if_splits)
  next
    case Q_wait
    with fl step show ?thesis
      by (auto simp: receiver_step_def flow_ok_def printed_ok_def reads_def past_loop_def split: if_splits)
  qed (use fl step in \<open>auto simp: receiver_step_def flow_ok_def printed_ok_def reads_def past_loop_def
        close_read_def close_write_def\<close>)
qed

section \<open>The answer\<close>

definition heard :: "sender_pc option \<Rightarrow> bool" where
  "heard c \<longleftrightarrow> c \<in> {Some K_line, Some K_response, Some K_close_r2, Some K_return}"

definition replied :: "counter_pc \<Rightarrow> bool" where
  "replied pc \<longleftrightarrow> pc \<in> {Q_close_w2, Q_wait, Q_return}"

definition child_lines :: "sender_pc option \<Rightarrow> int \<Rightarrow> string list" where
  "child_lines c n =
     (if c = Some K_response then [''----------'' @ [LF]]
      else if c = Some K_close_r2 \<or> c = Some K_return
      then [''----------'' @ [LF], ''Response: '' @ reply_text n @ [LF]] else [])"

definition reply_ok :: "piping \<Rightarrow> bool" where
  "reply_ok s \<longleftrightarrow>
     (receiver s = Q_write \<longrightarrow> cstr (buf s) = reply_text (num s)) \<and>
     (heard (sender s) \<longrightarrow> replied (receiver s) \<and> cstr (child_buf s) = reply_text (num s)) \<and>
     child_out s = child_lines (sender s) (num s) \<and>
     holds (fds2 s) = (if replied (receiver s) \<and> \<not> heard (sender s) then reply_text (num s) @ [NUL] else []) \<and>
     (replied (receiver s) \<longrightarrow> sender s \<noteq> None) \<and> (receiver s = Q_killed \<longrightarrow> sender s = None) \<and>
     (receiver s = Q_return \<longrightarrow> sender s = Some K_return)"

lemma cstr_reply: "NUL \<notin> set r \<Longrightarrow> cstr (overwrite (r @ [NUL]) b) = r"
  by (simp add: overwrite_def cstr_append_NUL)

text \<open>The other steps of the child.\<close>

lemma sender_reply:
  assumes "sender s = Some pc" "sender_step pc s = Some s'" "pc \<noteq> K_read"
  shows "holds (fds2 s') = holds (fds2 s) \<and> child_buf s' = child_buf s \<and> heard (sender s') = heard (sender s) \<and>
    sender s' \<noteq> None \<and> pc \<noteq> K_return \<and>
    (child_out s = child_lines (sender s) n \<and> (heard (sender s) \<longrightarrow> cstr (child_buf s) = reply_text n) \<longrightarrow>
       child_out s' = child_lines (sender s') n)"
  using assms
  by (cases pc) (auto simp: sender_step_def heard_def child_lines_def pipe_write_def close_read_def close_write_def
      say_child_def split: if_splits)

lemma reply_ok_sender:
  assumes reply: "reply_ok s" and flow: "flow_ok s" and ends: "ends_ok s" and pc: "sender s = Some pc"
    and step: "sender_step pc s = Some s'"
  shows "reply_ok s'"
proof -
  note same = sender_keeps_parent [OF step]
  note rtext = reply_text_props [OF flow_ok_num(2,3) [OF flow]]
  show ?thesis
  proof (cases pc)
    case K_read
    have "replied (receiver s)"
    proof (rule ccontr)
      assume not: "\<not> replied (receiver s)"
      then have "writers (fds2 s) \<noteq> 0" "holds (fds2 s) = []"
        using ends reply by (auto simp: ends_ok_def held_def q_w2_def replied_def reply_ok_def)
      with step K_read show False by (simp add: sender_step_def pipe_read_def)
    qed
    then have rep: "holds (fds2 s) = reply_text (num s) @ [NUL]" "replied (receiver s)"
      using reply pc K_read by (auto simp: reply_ok_def heard_def)
    then have s': "s' = s\<lparr>sender := Some K_line, fds2 := (fds2 s)\<lparr>holds := []\<rparr>,
        child_buf := overwrite (reply_text (num s) @ [NUL]) (child_buf s)\<rparr>"
      using step K_read rtext(2) by (auto simp: sender_step_def pipe_read_def)
    have "receiver s \<noteq> Q_return" using reply pc K_read by (auto simp: reply_ok_def)
    with reply rep cstr_reply [OF rtext(1)] pc K_read show ?thesis
      by (auto simp: s' reply_ok_def heard_def child_lines_def)
  qed (use sender_reply [OF pc step, of "num s"] reply same pc in \<open>simp_all add: reply_ok_def\<close>)
qed

lemma receiver_closes:
  assumes "receiver s \<in> {Q_close_w, Q_close_r, Q_close_r2, Q_close_w2}" "receiver_step ok s = Some s'"
  shows "holds (fds2 s') = holds (fds2 s)" "sender s' = sender s" "child_buf s' = child_buf s"
    "child_out s' = child_out s" "num s' = num s" "replied (receiver s') = replied (receiver s)"
    "receiver s' \<notin> {Q_write, Q_killed, Q_return}"
  using assms by (auto simp: receiver_step_def close_read_def close_write_def replied_def)

lemma reply_ok_receiver:
  assumes reply: "reply_ok s" and flow: "flow_ok s" and ends: "ends_ok s" and step: "receiver_step ok s = Some s'"
  shows "reply_ok s'"
proof -
  note rtext = reply_text_props [OF flow_ok_num(2,3) [OF flow]]
  have ok: "sender_ok (sender s)" using flow by (simp add: flow_ok_def)
  show ?thesis
  proof (cases "receiver s")
    case Q_fork
    then have "sender s = None" using flow by (simp add: flow_ok_def)
    with reply step Q_fork show ?thesis
      by (cases ok) (auto simp: receiver_step_def reply_ok_def heard_def replied_def child_lines_def)
  next
    case Q_read
    with reply step show ?thesis
      by (auto simp: receiver_step_def reply_ok_def pipe_read_def heard_def replied_def split: if_splits)
  next
    case Q_print
    with reply step show ?thesis
      by (auto simp: receiver_step_def reply_ok_def replied_def child_lines_def heard_def)
  next
    case Q_format
    with reply step cstr_reply [OF rtext(1)] show ?thesis
      by (auto simp: receiver_step_def reply_ok_def replied_def reply_text_def)
  next
    case Q_write
    show ?thesis
    proof (cases "readers (fds2 s) = 0")
      case True
      have "sender s = None"
      proof (rule ccontr)
        assume "sender s \<noteq> None"
        then obtain pc where "sender s = Some pc" by blast
        with True ends ok reply Q_write show False
          by (cases pc) (auto simp: ends_ok_def reply_ok_def heard_def replied_def)
      qed
      with reply step Q_write True show ?thesis
        by (auto simp: receiver_step_def pipe_write_def reply_ok_def heard_def replied_def)
    next
      case False
      then have "sender s \<noteq> None"
        using ends Q_write by (cases "sender s") (auto simp: ends_ok_def held_def q_r2_def)
      with reply step Q_write False show ?thesis
        by (auto simp: receiver_step_def pipe_write_def reply_ok_def heard_def replied_def)
    qed
  next
    case Q_wait
    with reply step ok show ?thesis
      by (auto simp: receiver_step_def reply_ok_def heard_def replied_def split: if_splits)
  qed (use receiver_closes [OF _ step] reply step in \<open>simp_all add: reply_ok_def receiver_step_def\<close>)
qed

definition piping_inv :: "piping \<Rightarrow> bool" where
  "piping_inv s \<longleftrightarrow> ends_ok s \<and> flow_ok s \<and> reply_ok s"

lemma flow_start: "flow 0 [] 0"
  by (auto simp: flow_def)

lemma piping_inv_init: "piping_init s \<Longrightarrow> piping_inv s"
  unfolding piping_init_def piping_inv_def
  by (elim exE conjE)
    (simp add: piping_start_def ends_ok_def held_def q_r_def q_w_def q_r2_def
      q_w2_def flow_ok_def printed_ok_def past_loop_def flow_start reads_def reply_ok_def heard_def replied_def
      child_lines_def k_w2_def)

text \<open>Nobody writes to a pipe that cannot be read, unless there is no child.\<close>

lemma readable:
  assumes "piping_inv s"
  shows "sender s = Some (K_write i) \<Longrightarrow> readers (fds s) \<noteq> 0"
    and "receiver s = Q_write \<Longrightarrow> readers (fds2 s) \<noteq> 0 \<or> sender s = None"
proof -
  assume "sender s = Some (K_write i)"
  with assms show "readers (fds s) \<noteq> 0"
    by (auto simp: piping_inv_def ends_ok_def flow_ok_def held_def q_r_def past_loop_def)
next
  assume w: "receiver s = Q_write"
  show "readers (fds2 s) \<noteq> 0 \<or> sender s = None"
  proof (cases "sender s")
    case (Some pc)
    with assms w show ?thesis
      by (cases pc) (auto simp: piping_inv_def ends_ok_def flow_ok_def reply_ok_def heard_def replied_def)
  qed simp
qed

lemma piping_keeps:
  assumes inv: "piping_inv s" and step: "piping_step s s'"
  shows "piping_inv s'"
  using step
proof cases
  case (sender_moves pc)
  have w: "(\<exists>i. pc = K_write i) \<longrightarrow> readers (fds s) \<noteq> 0"
    using readable(1) [OF inv] sender_moves(1) by auto
  from inv show ?thesis unfolding piping_inv_def
    using ends_ok_sender [OF _ sender_moves w] flow_ok_sender [OF _ sender_moves w]
      reply_ok_sender [OF _ _ _ sender_moves] by blast
next
  case (receiver_moves ok)
  have f: "receiver s = Q_fork \<longrightarrow> sender s = None"
    using inv by (auto simp: piping_inv_def flow_ok_def)
  from inv readable(2) [OF inv] show ?thesis unfolding piping_inv_def
    using ends_ok_receiver [OF _ f receiver_moves] flow_ok_receiver [OF _ _ receiver_moves]
      reply_ok_receiver [OF _ _ _ receiver_moves] by blast
qed

section \<open>The program ends\<close>

fun sender_left :: "sender_pc option \<Rightarrow> nat" where
  "sender_left None = 0" | "sender_left (Some K_close_r) = 40"
| "sender_left (Some (K_test i)) = 39 - 6 * i" | "sender_left (Some (K_write i)) = 38 - 6 * i"
| "sender_left (Some (K_sleep i)) = 37 - 6 * i" | "sender_left (Some K_close_w) = 8"
| "sender_left (Some K_close_w2) = 7" | "sender_left (Some K_read) = 6" | "sender_left (Some K_line) = 5"
| "sender_left (Some K_response) = 4" | "sender_left (Some K_close_r2) = 3" | "sender_left (Some K_return) = 2"
| "sender_left (Some K_killed) = 1"

fun receiver_left :: "counter_pc \<Rightarrow> nat" where
  "receiver_left Q_fork = 200" | "receiver_left Q_close_w = 100" | "receiver_left Q_read = 20"
| "receiver_left Q_print = 21" | "receiver_left Q_close_r = 10" | "receiver_left Q_close_r2 = 9"
| "receiver_left Q_format = 8" | "receiver_left Q_write = 7" | "receiver_left Q_close_w2 = 6"
| "receiver_left Q_wait = 5" | "receiver_left _ = 0"

text \<open>The messages the parent has not read yet, counted in bytes.\<close>

definition unread :: "piping \<Rightarrow> nat" where
  "unread s = 14 * (5 - messages_sent (sender s)) + length (holds (fds s))"

definition piping_left :: "piping \<Rightarrow> nat" where
  "piping_left s = sender_left (sender s) + receiver_left (receiver s) + unread s"

lemma sender_decreases:
  assumes inv: "piping_inv s" and pc: "sender s = Some pc" and step: "sender_step pc s = Some s'"
  shows "piping_left s' < piping_left s"
proof -
  have w: "(\<exists>i. pc = K_write i) \<longrightarrow> readers (fds s) \<noteq> 0"
    using readable(1) [OF inv] pc by auto
  have ok: "sender_ok (Some pc)" using inv pc by (simp add: piping_inv_def flow_ok_def)
  have eff: "sender_ok (sender s') \<and> opens k_w (sender s') \<le> opens k_w (sender s) \<and>
    (messages_sent (sender s') = messages_sent (sender s) \<and> holds (fds s') = holds (fds s) \<or>
     opens k_w (sender s) = 1 \<and> messages_sent (sender s') = Suc (messages_sent (sender s)) \<and>
       holds (fds s') = holds (fds s) @ hello)"
    by (rule sender_flow [OF pc step _ w]) (use ok pc in simp)
  moreover have "length hello = 14" by (simp add: hello_def)
  moreover have "messages_sent (sender s') \<le> 5" using eff messages_sent_le by blast
  ultimately have "unread s' = unread s"
    unfolding unread_def by (elim conjE disjE) simp_all
  moreover have "sender_left (sender s') < sender_left (sender s)"
    using step ok pc w
    by (cases pc) (auto simp: sender_step_def pipe_ops say_child_def split: if_splits)
  ultimately show ?thesis
    using sender_keeps_parent(1) [OF step] by (simp add: piping_left_def)
qed

lemma receiver_decreases:
  assumes inv: "piping_inv s" and step: "receiver_step ok s = Some s'"
  shows "piping_left s' < piping_left s"
proof (cases "receiver s")
  case Q_fork
  then have "sender s = None" using inv by (simp add: piping_inv_def flow_ok_def)
  with step Q_fork show ?thesis
    by (cases ok) (auto simp: receiver_step_def piping_left_def unread_def)
next
  case Q_read
  show ?thesis
  proof (cases "holds (fds s) = []")
    case True
    with step Q_read show ?thesis
      by (auto simp: receiver_step_def pipe_read_def piping_left_def unread_def split: if_splits)
  next
    case False
    then have f: "flow (messages_sent (sender s)) (holds (fds s)) (num s)" "messages_sent (sender s) \<le> 5"
        "length (buf s) = 1024"
      using inv Q_read messages_sent_le by (auto simp: piping_inv_def flow_ok_def reads_def printed_ok_def)
    have "14 \<le> length (holds (fds s)) \<and> length (holds (fds s)) \<le> 70"
    proof -
      obtain m where "holds (fds s) = concat (replicate m hello)" using f(1) by (auto simp: flow_def)
      with False flow_cstr [OF f(1) False f(2,3)] length_messages [of m] show ?thesis by (cases m) auto
    qed
    with step Q_read False show ?thesis
      by (auto simp: receiver_step_def pipe_read_def piping_left_def unread_def)
  qed
next
  case Q_write
  with step show ?thesis
    by (auto simp: receiver_step_def pipe_write_def piping_left_def unread_def split: if_splits)
next
  case Q_wait
  with step show ?thesis
    by (auto simp: receiver_step_def piping_left_def unread_def split: if_splits)
qed (use step in \<open>auto simp: receiver_step_def piping_left_def unread_def close_read_def close_write_def\<close>)

text \<open>Who waits, waits for one that can go on.\<close>

definition piping_over :: "piping \<Rightarrow> bool" where
  "piping_over s \<longleftrightarrow> receiver s = Q_return \<or> receiver s = Q_killed \<and> sender s = None"

lemma sender_goes_on:
  "pc \<noteq> K_read \<Longrightarrow> pc \<noteq> K_return \<Longrightarrow> pc \<noteq> K_killed \<Longrightarrow> \<exists>s'. sender_step pc s = Some s'"
  by (cases pc) (auto simp: sender_step_def Let_def split: option.split)

lemma piping_progress:
  assumes inv: "piping_inv s"
  shows "piping_over s \<or> (\<exists>s'. piping_step s s')"
proof (cases "receiver_step True s")
  case None
  then consider "receiver s = Q_return" | "receiver s = Q_killed"
    | "receiver s = Q_read" "holds (fds s) = []" "writers (fds s) \<noteq> 0"
    | "receiver s = Q_wait" "sender s \<noteq> None" "sender s \<noteq> Some K_return" "sender s \<noteq> Some K_killed"
    by (cases "receiver s")
      (auto simp: receiver_step_def pipe_read_def Let_def split: if_splits option.splits)
  then show ?thesis
  proof cases
    case 2
    with inv show ?thesis by (auto simp: piping_over_def piping_inv_def reply_ok_def)
  next
    case 3
    then have "opens k_w (sender s) \<noteq> 0" using inv by (auto simp: piping_inv_def ends_ok_def held_def q_w_def)
    then obtain pc where "sender s = Some pc" "k_w pc" by (auto simp: opens_def split: option.splits if_splits)
    with sender_goes_on [of pc s] show ?thesis by (cases pc) (auto intro: sender_moves)
  next
    case 4
    then obtain pc where pc: "sender s = Some pc" "pc \<noteq> K_return" "pc \<noteq> K_killed" by auto
    show ?thesis
    proof (cases "pc = K_read")
      case True
      then have "holds (fds2 s) \<noteq> []"
        using inv 4(1) pc by (auto simp: piping_inv_def reply_ok_def replied_def heard_def)
      then have "\<exists>s'. sender_step pc s = Some s'"
        using True by (simp add: sender_step_def pipe_read_def)
      with pc(1) show ?thesis by (blast intro: sender_moves)
    qed (use sender_goes_on [of pc s] pc in \<open>blast intro: sender_moves\<close>)
  qed (simp add: piping_over_def)
qed (blast intro: receiver_moves)

interpretation piping_runs: terminating piping_init piping_step piping_inv piping_left piping_over
proof (unfold_locales, goal_cases)
  case (3 s s')
  from 3(2,1) show ?case by cases (use sender_decreases receiver_decreases in blast)+
qed (use piping_inv_init piping_keeps piping_progress in auto)

text \<open>At the end of a run with a child.\<close>

lemma piping_result:
  assumes "piping_inv s" "receiver s = Q_return"
  shows "1 \<le> num s \<and> num s \<le> 5 \<and> parent_out s = replicate (nat (num s)) (''from child: Hello, World!'' @ [LF]) \<and>
    child_out s = [''----------'' @ [LF], ''Response: '' @ reply_text (num s) @ [LF]]"
proof -
  have c: "sender s = Some K_return" using assms by (simp add: piping_inv_def reply_ok_def)
  have "holds (fds s) = []" "flow 5 (holds (fds s)) (num s)"
    using assms c by (auto simp: piping_inv_def flow_ok_def past_loop_def reads_def)
  then have "0 < num s" by (auto simp: flow_def hello_def)
  with assms c flow_ok_num [of s] show ?thesis
    by (auto simp: piping_inv_def flow_ok_def printed_ok_def reply_ok_def child_lines_def)
qed

section \<open>Every count is possible\<close>

text \<open>All messages read: the count does not change any more.\<close>

definition all_read :: "int \<Rightarrow> piping \<Rightarrow> bool" where
  "all_read n s \<longleftrightarrow>
     piping_inv s \<and> messages_sent (sender s) = 5 \<and> holds (fds s) = [] \<and> receiver s \<noteq> Q_print \<and>
     receiver s \<noteq> Q_fork \<and> num s = n"

lemma all_read_step:
  assumes all: "all_read n s" and step: "piping_step s s'"
  shows "all_read n s'"
proof -
  have inv: "piping_inv s" "piping_inv s'"
    using all piping_keeps [OF _ step] by (auto simp: all_read_def)
  from step show ?thesis
  proof cases
    case (sender_moves pc)
    have w: "(\<exists>i. pc = K_write i) \<longrightarrow> readers (fds s) \<noteq> 0"
      using readable(1) [OF inv(1)] sender_moves(1) by auto
    have "sender_ok (sender s)" using inv by (simp add: piping_inv_def flow_ok_def)
    from sender_flow [OF sender_moves this w] messages_sent_le [of "sender s'"] all inv
      sender_keeps_parent [OF sender_moves(2)]
    show ?thesis by (auto simp: all_read_def)
  next
    case (receiver_moves ok)
    with all inv show ?thesis
      by (cases "receiver s")
        (auto simp: all_read_def receiver_step_def pipe_ops split: if_splits)
  qed
qed

lemma all_read_run: "piping_step\<^sup>*\<^sup>* s s' \<Longrightarrow> all_read n s \<Longrightarrow> all_read n s'"
  by (induction rule: rtranclp_induct) (auto intro: all_read_step)

lemma all_read_end:
  assumes "all_read n s"
  shows "\<exists>s'. piping_step\<^sup>*\<^sup>* s s' \<and> receiver s' = Q_return \<and> num s' = n"
proof -
  have "piping_inv s" using assms by (simp add: all_read_def)
  from piping_runs.reaches_goal [OF this] obtain s' where s': "piping_step\<^sup>*\<^sup>* s s'" "piping_over s'" by blast
  from all_read_run [OF s'(1) assms] s'(2) have "receiver s' = Q_return" "num s' = n"
    by (auto simp: all_read_def piping_over_def)
  with s'(1) show ?thesis by blast
qed

text \<open>One message is written; what there is is read.\<close>

lemma one_message:
  assumes "sender s = Some (K_test i)" "i < 5" "readers (fds s) \<noteq> 0"
  shows "\<exists>s'. piping_step\<^sup>*\<^sup>* s s' \<and> sender s' = Some (K_test (i + 1)) \<and> holds (fds s') \<noteq> [] \<and>
    receiver s' = receiver s \<and> num s' = num s \<and> readers (fds s') = readers (fds s)"
proof -
  let ?a = "s\<lparr>sender := Some (K_write i)\<rparr>"
  let ?b = "?a\<lparr>sender := Some (K_sleep i), fds := (fds s)\<lparr>holds := holds (fds s) @ hello\<rparr>\<rparr>"
  let ?c = "?b\<lparr>sender := Some (K_test (i + 1))\<rparr>"
  have "piping_step s ?a"
    by (rule sender_moves [of _ "K_test i"]) (use assms in \<open>simp_all add: sender_step_def\<close>)
  moreover have "piping_step ?a ?b"
    by (rule sender_moves [of _ "K_write i"]) (use assms in \<open>simp_all add: sender_step_def pipe_write_def\<close>)
  moreover have "piping_step ?b ?c"
    by (rule sender_moves [of _ "K_sleep i"]) (simp_all add: sender_step_def)
  ultimately have "piping_step\<^sup>*\<^sup>* s ?c" by (meson rtranclp.rtrancl_into_rtrancl rtranclp.rtrancl_refl)
  then show ?thesis by (intro exI [of _ ?c]) (simp add: hello_def)
qed

lemma some_messages:
  assumes "sender s = Some (K_test i)" "i + k \<le> 5" "readers (fds s) \<noteq> 0"
  shows "\<exists>s'. piping_step\<^sup>*\<^sup>* s s' \<and> sender s' = Some (K_test (i + k)) \<and> (holds (fds s') = [] \<longrightarrow> k = 0) \<and>
    receiver s' = receiver s \<and> num s' = num s \<and> readers (fds s') = readers (fds s)"
  using assms(2)
proof (induction k)
  case 0
  with assms show ?case by (intro exI [of _ s]) simp
next
  case (Suc k)
  then obtain t where t: "piping_step\<^sup>*\<^sup>* s t" "sender t = Some (K_test (i + k))" "receiver t = receiver s"
      "num t = num s" "readers (fds t) = readers (fds s)" by auto
  with one_message [of t "i + k"] Suc.prems assms(3) obtain u where
    "piping_step\<^sup>*\<^sup>* t u" "sender u = Some (K_test (i + k + 1))" "holds (fds u) \<noteq> []" "receiver u = receiver t"
    "num u = num t" "readers (fds u) = readers (fds t)" by auto
  with t show ?case by (intro exI [of _ u]) auto
qed

lemma one_read:
  assumes "piping_reachable s" "receiver s = Q_read" "holds (fds s) \<noteq> []"
  shows "\<exists>s'. piping_step\<^sup>*\<^sup>* s s' \<and> sender s' = sender s \<and> holds (fds s') = [] \<and> receiver s' = Q_read \<and>
    num s' = num s + 1 \<and> readers (fds s') = readers (fds s)"
proof -
  have inv: "piping_inv s" by (rule piping_runs.inv_reachable [OF assms(1)])
  have f: "flow (messages_sent (sender s)) (holds (fds s)) (num s)" "messages_sent (sender s) \<le> 5"
      "length (buf s) = 1024" "0 \<le> num s" "num s \<le> 5"
    using inv assms messages_sent_le flow_ok_num [of s] by (auto simp: piping_inv_def flow_ok_def reads_def printed_ok_def)
  note b = flow_cstr [OF f(1) assms(3) f(2,3)]
  let ?a = "s\<lparr>receiver := Q_print, fds := (fds s)\<lparr>holds := []\<rparr>, buf := overwrite (holds (fds s)) (buf s)\<rparr>"
  let ?c = "?a\<lparr>receiver := Q_read, num := num s + 1,
    parent_out := parent_out s @ [''from child: '' @ cstr (overwrite (holds (fds s)) (buf s)) @ [LF]]\<rparr>"
  have "piping_step s ?a"
    by (rule receiver_moves [of True]) (use assms b in \<open>simp add: receiver_step_def pipe_read_def\<close>)
  moreover have "piping_step ?a ?c"
    by (rule receiver_moves [of True]) (use f in \<open>simp add: receiver_step_def to_int32_id'\<close>)
  ultimately have "piping_step\<^sup>*\<^sup>* s ?c" by (meson rtranclp.rtrancl_into_rtrancl rtranclp.rtrancl_refl)
  then show ?thesis by (intro exI [of _ ?c]) simp
qed

definition reading :: "nat \<Rightarrow> nat \<Rightarrow> piping \<Rightarrow> bool" where
  "reading i n s \<longleftrightarrow>
     piping_reachable s \<and> sender s = Some (K_test i) \<and> receiver s = Q_read \<and> holds (fds s) = [] \<and>
     num s = int n \<and> readers (fds s) \<noteq> 0"

lemma reading_start: "\<exists>s. reading 0 0 s"
proof -
  let ?s = "piping_start (replicate 1024 NUL)"
  let ?a = "?s\<lparr>receiver := Q_close_w, sender := Some K_close_r,
    fds := \<lparr>holds = [], readers = 2, writers = 2\<rparr>, fds2 := \<lparr>holds = [], readers = 2, writers = 2\<rparr>\<rparr>"
  let ?b = "?a\<lparr>receiver := Q_read, fds := \<lparr>holds = [], readers = 2, writers = 1\<rparr>\<rparr>"
  let ?c = "?b\<lparr>sender := Some (K_test 0), fds := \<lparr>holds = [], readers = 1, writers = 1\<rparr>\<rparr>"
  have "piping_reachable ?s"
    by (rule reach_init) (auto simp: piping_init_def intro: exI [of _ "replicate 1024 NUL"])
  moreover have "piping_step ?s ?a"
    by (rule receiver_moves [of True]) (simp add: receiver_step_def piping_start_def)
  moreover have "piping_step ?a ?b"
    by (rule receiver_moves [of True]) (simp add: receiver_step_def close_write_def)
  moreover have "piping_step ?b ?c"
    by (rule sender_moves [of _ K_close_r]) (simp_all add: sender_step_def close_read_def)
  ultimately have "piping_reachable ?c" by (meson reach_step)
  then show ?thesis
    unfolding reading_def by (intro exI [of _ ?c]) (simp add: piping_start_def)
qed

lemma reading_more:
  assumes "reading i n s" "i + k \<le> 5" "0 < k"
  shows "\<exists>s'. reading (i + k) (Suc n) s'"
proof -
  obtain t where t: "piping_step\<^sup>*\<^sup>* s t" "sender t = Some (K_test (i + k))" "holds (fds t) \<noteq> []"
      "receiver t = Q_read" "num t = int n" "readers (fds t) \<noteq> 0"
    using some_messages [of s i k] assms by (auto simp: reading_def)
  have "piping_reachable t" using assms(1) reachable_run [OF t(1)] by (simp add: reading_def)
  from one_read [OF this t(4,3)] obtain u where
    "piping_step\<^sup>*\<^sup>* t u" "sender u = sender t" "holds (fds u) = []" "receiver u = Q_read" "num u = num t + 1"
    "readers (fds u) = readers (fds t)" by blast
  with t reachable_run [OF this(1) \<open>piping_reachable t\<close>] show ?thesis
    by (intro exI [of _ u]) (simp add: reading_def)
qed

lemma reading_all:
  assumes "1 \<le> j" "j \<le> n" "n \<le> 5"
  shows "\<exists>s. reading (5 - n + j) j s"
  using assms(1,2)
proof (induction j rule: dec_induct)
  case base
  obtain s where "reading 0 0 s" using reading_start by blast
  from reading_more [OF this, of "5 - n + 1"] assms show ?case by auto
next
  case (step j)
  then obtain s where "reading (5 - n + j) j s" by auto
  from reading_more [OF this, of 1] step(2,4) assms(3) show ?case by auto
qed

lemma every_count:
  assumes "1 \<le> n" "n \<le> 5"
  shows "\<exists>s. piping_reachable s \<and> receiver s = Q_return \<and> num s = int n"
proof -
  obtain s where s: "reading 5 n s"
    using reading_all [of n n] assms by auto
  then have r: "piping_reachable s" by (simp add: reading_def)
  from s piping_runs.inv_reachable [OF r] have "all_read (int n) s"
    by (simp add: all_read_def reading_def)
  from all_read_end [OF this] reachable_run [OF _ r] show ?thesis by blast
qed

section \<open>Properties\<close>

text \<open>
  C39. What parent and child of \<^verbatim>\<open>pipe\<close> have printed when they have ended (and there was a child): in
  every such state the parent has printed one line for each of its reads, the child the number of
  these lines, and that number is between 1 and 5, as the five messages can come together; and each
  of these five outputs is possible.
\<close>

theorem pipe_counts_reads:
  "{(parent_out s, child_out s) | s. piping_reachable s \<and> receiver s = Q_return} =
   (\<lambda>n. (replicate n (''from child: Hello, World!'' @ [LF]),
          [''----------'' @ [LF], ''Response: '' @ show_int (int n) @ '' messages received'' @ [LF]])) ` {1..5}"
  (is "?finals = ?outputs ` _")
proof (intro equalityI subsetI)
  fix outs assume "outs \<in> ?finals"
  then obtain s where s: "outs = (parent_out s, child_out s)" "piping_inv s" "receiver s = Q_return"
    using piping_runs.inv_reachable by blast
  from piping_result [OF s(2,3)] have "outs = ?outputs (nat (num s))" "nat (num s) \<in> {1..5}"
    by (auto simp: s(1) reply_text_def)
  then show "outs \<in> ?outputs ` {1..5}" by (rule image_eqI)
next
  fix outs assume "outs \<in> ?outputs ` {1..5}"
  then obtain n where n: "outs = ?outputs n" "1 \<le> n" "n \<le> 5" by auto
  obtain s where s: "piping_reachable s" "receiver s = Q_return" "num s = int n"
    using every_count [OF n(2,3)] by blast
  from piping_result [OF piping_runs.inv_reachable [OF s(1)] s(2)] s(3) n(1)
  have "outs = (parent_out s, child_out s)" by (simp add: reply_text_def)
  with s(1,2) show "outs \<in> ?finals" by blast
qed

text \<open>
  C40. Every execution of \<^verbatim>\<open>pipe\<close> is finite and from every state on the way parent and child can end;
  when \<open>fork\<close> failed, the parent is killed writing to a pipe that nobody reads.
\<close>

theorem pipe_ends:
  assumes "piping_reachable s"
  shows "(\<nexists>f. piping_init (f 0) \<and> (\<forall>i. piping_step (f i) (f (Suc i)))) \<and>
    (\<exists>s'. piping_step\<^sup>*\<^sup>* s s' \<and>
       (receiver s' = Q_return \<and> sender s' = Some K_return \<or> receiver s' = Q_killed \<and> sender s' = None))"
proof -
  have inv: "piping_inv s" by (rule piping_runs.inv_reachable [OF assms])
  obtain s' where s': "piping_step\<^sup>*\<^sup>* s s'" "piping_over s'"
    using piping_runs.reaches_goal [OF inv] by blast
  have "piping_inv s'"
    using piping_runs.inv_reachable reachable_run [OF s'(1) assms] by blast
  with s' piping_runs.no_infinite_run show ?thesis
    by (auto simp: piping_over_def piping_inv_def reply_ok_def)
qed

theorem pipe_ends_witness:
  "\<exists>s'. piping_step\<^sup>*\<^sup>* (piping_start (replicate 1024 NUL)) s' \<and>
     (receiver s' = Q_return \<and> sender s' = Some K_return \<or> receiver s' = Q_killed \<and> sender s' = None)"
proof -
  have "piping_reachable (piping_start (replicate 1024 NUL))"
    by (rule reach_init) (auto simp: piping_init_def intro: exI [of _ "replicate 1024 NUL"])
  from pipe_ends [OF this] show ?thesis by blast
qed

end
