(* ===== verification/Ipc_Calls.thy ===== *)
theory Ipc_Calls
  imports File_Transfer
begin

text \<open>
  Programs that are one process and the kernel: the FIFO pair, the message queue pair and \<open>popen\<close> of
  \<^verbatim>\<open>src/ipc_code\<close>, the locks of \<^verbatim>\<open>src/Lecture7/lock_unlock\<close> and \<^verbatim>\<open>lockfile\<close> (\<^verbatim>\<open>Lecture8\<close> has the same
  files), and the senders and receivers of \<^verbatim>\<open>src/Lecture11\<close>.

  An array that is not initialised is the parameter \<open>beyond\<close> of the program.  \<open>mq_send\<close> takes its
  message as \<open>write\<close> does, and \<open>mq_receive\<close> delivers it as \<open>read\<close> does.  A null \<open>FILE\<close> pointer is 0.
\<close>

section \<open>FIFOs\<close>

definition fifo_c2s :: string where "fifo_c2s = ''/tmp/fifo_c2s''"
definition fifo_s2c :: string where "fifo_s2c = ''/tmp/fifo_s2c''"
definition EEXIST :: int where "EEXIST = 17"

definition make_fifo :: "string \<Rightarrow> int io \<Rightarrow> int io" where
  "make_fifo path k =
     bnd (sysi (CSys (''mkfifo '' @ path) [])) (\<lambda>rc.
     if rc < 0 then bnd get_errno (\<lambda>e. if e \<noteq> EEXIST then thn (c_perror ''mkfifo'') (c_exit 1) else k)
     else k)"

text \<open>The test for a failed \<open>open\<close> compares with 0.\<close>

definition open_fifo :: "string \<Rightarrow> int \<Rightarrow> (int \<Rightarrow> int io) \<Rightarrow> int io" where
  "open_fifo path flags k =
     bnd (sysi (COpen path flags)) (\<lambda>fd.
     if fd = 0 then thn (c_perror ''open'') (c_exit 1) else k fd)"

definition fifo_reply :: bytes where "fifo_reply = ''Hello from server'' @ [NUL]"

definition fifo_round :: "int \<Rightarrow> int \<Rightarrow> bytes \<Rightarrow> (bytes + unit) io" where
  "fifo_round fd1 fd2 buf0 =
     read_into fd1 buf0 (\<lambda>size buf.
     if size = 0 then
       thn (say ''Peer closed FIFO. If not reopen, further read may return size 0, exit'') (leave ())
     else
       thn (print_array ''receive: '' buf [LF]) (
       bnd (c_write fd2 fifo_reply (int (length fifo_reply))) (\<lambda>_.
       thn (act (ASys ''sleep'' [1])) (go buf))))"

definition fifo_server :: "bytes \<Rightarrow> int io" where
  "fifo_server beyond =
     make_fifo fifo_c2s (make_fifo fifo_s2c (
     open_fifo fifo_c2s O_RDONLY (\<lambda>fd1.
     open_fifo fifo_s2c O_WRONLY (\<lambda>fd2.
     bnd (repeat_io (fifo_round fd1 fd2) beyond) (\<lambda>_.
     seqs
       [c_close fd1, c_close fd2, act (ASys (''unlink '' @ fifo_c2s) []), act (ASys (''unlink '' @ fifo_s2c) [])]
       (ret 0))))))"

definition fifo_message :: string where "fifo_message = ''Hello from client''"

fun fifo_rounds :: "nat \<Rightarrow> int \<Rightarrow> int \<Rightarrow> bytes \<Rightarrow> int io \<Rightarrow> int io" where
  "fifo_rounds 0 fd1 fd2 buf k = k"
| "fifo_rounds (Suc n) fd1 fd2 buf k =
     bnd (c_write fd1 (fifo_message @ [NUL]) (int (length fifo_message) + 1)) (\<lambda>_.
     thn (say (''send to server: '' @ fifo_message)) (
     read_into fd2 buf (\<lambda>size b.
     put_NUL b size (\<lambda>buf'.
     thn (print_array ''receive: '' buf' [LF]) (fifo_rounds n fd1 fd2 buf' k)))))"

definition fifo_client :: "bytes \<Rightarrow> string list \<Rightarrow> int io" where
  "fifo_client beyond argv =
     (let num = (if length argv > 1 then atoi (argv ! 1) else 1) in
      open_fifo fifo_c2s O_WRONLY (\<lambda>fd1.
      open_fifo fifo_s2c O_RDONLY (\<lambda>fd2.
      fifo_rounds (nat num) fd1 fd2 beyond (seqs [c_close fd1, c_close fd2] (ret 0)))))"

section \<open>Message queues\<close>

definition mq_sender :: "string list \<Rightarrow> int io" where
  "mq_sender argv =
     bnd (sysi (CSys ''mq_open /my_mq O_CREAT O_WRONLY'' [])) (\<lambda>mq.
     let pause = (if length argv > 1 then atoi (argv ! 1) else 0) in
     seqs
       [act (ASys ''sleep'' [pause mod 2 ^ 32]), send_text mq (''Hello from POSIX MQ'' @ [NUL]), act (ASys ''mq_close'' [mq])]
       (ret 0))"

definition mq_receiver :: "int io" where
  "mq_receiver =
     bnd (sysi (CSys ''mq_open /my_mq O_RDONLY'' [])) (\<lambda>mq.
     if mq = -1 then thn (c_perror ''mq_open failed'') (c_exit 1)
     else
       bnd (sysi (CSys ''mq_getattr'' [mq])) (\<lambda>rc.
       if rc = -1 then thn (c_perror ''mq_getattr failed'') (c_exit 1)
       else
         thn (say ''Waiting for message...'') (
         bnd (c_read mq 8192) (\<lambda>(bytes_read, d).
         if bytes_read = -1 then thn (c_perror ''mq_receive failed'') (c_exit 1)
         else
           put_NUL (overwrite d (replicate 8192 NUL)) bytes_read (\<lambda>buffer.
           seqs
             [print_array ''Received: '' buffer [LF], act (ASys ''mq_close'' [mq]), act (ASys ''mq_unlink /my_mq'' [])]
             (ret 0))))))"

section \<open>A pipe to a command\<close>

text \<open>The loop of \<open>write_data\<close> increments \<open>i\<close> past the last number, which overflows for the largest.\<close>

definition write_data :: "int \<Rightarrow> int \<Rightarrow> int io \<Rightarrow> int io" where
  "write_data stream num k =
     seqs (map (\<lambda>i. act (AFputs stream (show_int i @ [LF]))) [0..num]) (
     if num = INT_MAX then c_fault ''signed overflow''
     else
       bnd (sysi (CSys ''ferror'' [stream])) (\<lambda>e.
       if e \<noteq> 0 then thn (c_eprint (''Output to stream failed.'' @ [LF])) (c_exit EXIT_FAILURE) else k))"

definition popen_sort :: "string list \<Rightarrow> int io" where
  "popen_sort argv =
     (let num = (if length argv > 1 then atoi (argv ! 1) else 15) in
      bnd (sysi (CSys ''popen sort w'' [])) (\<lambda>out_stream.
      if out_stream = 0 then
        thn (c_eprint (''incorrect parameters or too many files.'' @ [LF])) (ret EXIT_FAILURE)
      else
        thn (say (''sort integers from 0 to '' @ show_int num @ '' alphabetically'')) (
        write_data out_stream num (
        bnd (sysi (CSys ''pclose'' [out_stream])) (\<lambda>rc.
        thn (if rc \<noteq> 0 then c_eprint (''Could not run more or other error.'' @ [LF]) else ret ()) (ret EXIT_SUCCESS))))))"

section \<open>Locks on files\<close>

definition O_RDWR :: int where "O_RDWR = 2"
definition EAGAIN :: int where "EAGAIN = 11"
definition EACCES :: int where "EACCES = 13"

text \<open>\<open>fcntl(fd, F_SETLK, &fl)\<close> for the bytes 100 to 109 of the file.\<close>

definition setlk :: "int \<Rightarrow> int \<Rightarrow> int io" where
  "setlk fd l_type = sysi (CSys ''fcntl F_SETLK'' [fd, l_type, 100, 10])"

definition lock_unlock :: "bytes \<Rightarrow> int io" where
  "lock_unlock beyond =
     thn (say ''Opening file.'') (
     bnd (sysi (COpen ''testfile.txt'' O_RDWR)) (\<lambda>fd.
     if fd = -1 then thn (c_perror ''File open failed'') (c_exit EXIT_FAILURE)
     else
       thn (say ''Locking the file.'') (
       bnd (setlk fd F_WRLCK) (\<lambda>rc.
       if rc = -1 then
         bnd get_errno (\<lambda>e.
         thn (if e = EACCES \<or> e = EAGAIN then say ''Already locked by another process''
              else c_perror ''Handle unexpected error'') (c_exit EXIT_SUCCESS))
       else
         seqs [say ''Lock was granted.'', act (ASys ''lseek SEEK_SET'' [fd, 100])] (
         bnd (c_read fd 10) (\<lambda>(n, d).
         put_NUL (overwrite d beyond) 10 (\<lambda>buf.
         seqs [print_array ''The 100-109 bytes in the file are: '' buf [LF], say ''Unlocking the file.''] (
         bnd (setlk fd F_UNLCK) (\<lambda>rc.
         thn (if rc = -1 then c_perror ''Handle unexpected error'' else say ''Unlock was granted.'')
           (c_exit EXIT_SUCCESS))))))))))"

definition lockfile_text :: string where
  "lockfile_text = ''The additional text we want to write to the file. ''"

text \<open>No result is tested; \<open>l_type\<close> is the only member of the lock that is not zero.\<close>

definition lockfile :: "int io" where
  "lockfile =
     thn (say ''opening testfile.txt'') (
     bnd (sysi (COpen ''testfile.txt'' O_WRONLY)) (\<lambda>fd.
     seqs [say ''Place a blocking lock on the file'', act (AFcntlLock fd F_WRLCK), say ''Write to the file'', act (ALseekEnd fd)] (
     bnd (c_write fd lockfile_text (int (length lockfile_text))) (\<lambda>_.
     thn (say ''Finish writing; Hit Enter to unlock the file'') (
     bnd (sysi (CSys ''getchar'' [])) (\<lambda>_.
     seqs
       [say ''Enter received, unlock the file now'', act (AFcntlLock fd F_UNLCK), say ''file is unlocked'', c_close fd]
       (ret 0)))))))"

section \<open>Broadcast and multicast\<close>

definition group_port :: int where "group_port = 10000"

text \<open>
  The senders.  \<open>inet_pton\<close> stores the address when it succeeds, and the bytes stay zero otherwise;
  \<open>sizeof(msg)\<close> counts the NUL.
\<close>

definition group_address :: "reply \<Rightarrow> bytes" where
  "group_address r = sockaddr_in AF_INET group_port (if rv r = 1 then take 4 (dat r) else replicate 4 NUL)"

definition sender_round :: "int \<Rightarrow> bytes \<Rightarrow> string \<Rightarrow> string \<Rightarrow> unit \<Rightarrow> (unit + int) io" where
  "sender_round sockfd dest note msg u =
     thn (say note) (
     bnd (c_sendto sockfd (msg @ [NUL]) (int (length msg) + 1) dest) (\<lambda>_.
     thn (act (ASys ''sleep'' [5])) (go ())))"

definition broadcast_note :: string where
  "broadcast_note = ''The broadcast sender sends: This is a broadcast message.''"

definition broadcast_msg :: string where "broadcast_msg = ''This is a broadcast message.'' @ [LF]"

definition broadcast_sender :: "int io" where
  "broadcast_sender =
     bnd (sysi (CSocket AF_INET SOCK_DGRAM 0)) (\<lambda>sockfd.
     bnd (call (CSys ''inet_pton 255.255.255.255'' [AF_INET])) (\<lambda>r.
     seqs [act (ASys ''setsockopt SO_BROADCAST'' [sockfd]), say ''The broadcast sender is on.''] (
     repeat_io (sender_round sockfd (group_address r) broadcast_note broadcast_msg) ())))"

definition multicast_note :: string where
  "multicast_note = ''The multicast sender sends: This is a multicast message.''"

definition multicast_msg :: string where "multicast_msg = ''This is a multicast message.'' @ [LF]"

definition multicast_sender :: "int io" where
  "multicast_sender =
     bnd (sysi (CSocket AF_INET SOCK_DGRAM 0)) (\<lambda>sockfd.
     thn (say ''The multicast sender is on.'') (
     bnd (call (CSys ''inet_pton 225.0.0.37'' [AF_INET])) (\<lambda>r.
     repeat_io (sender_round sockfd (group_address r) multicast_note multicast_msg) ())))"

text \<open>
  The receivers print the array up to its first NUL, whatever a datagram has left of it.  The array
  of the first one is declared in the loop: \<open>beyond i\<close> is what it holds when round \<open>i\<close> begins.
\<close>

definition broadcast_round :: "(nat \<Rightarrow> bytes) \<Rightarrow> int \<Rightarrow> nat \<Rightarrow> (nat + int) io" where
  "broadcast_round beyond sockfd i =
     bnd (c_recvfrom sockfd 100) (\<lambda>r.
     thn (print_array ''Received: '' (overwrite (dat r) (beyond i)) []) (go (Suc i)))"

definition broadcast_receiver :: "(nat \<Rightarrow> bytes) \<Rightarrow> int io" where
  "broadcast_receiver beyond =
     bnd (sysi (CSocket AF_INET SOCK_DGRAM 0)) (\<lambda>sockfd.
     thn (say ''The broadcast receiver is started.'') (
     bnd (sysi (CBind sockfd (htons group_port))) (\<lambda>rc.
     if rc < 0 then thn (c_perror ''bind'') (ret 1)
     else
       thn (act (ASys ''setsockopt SO_REUSEADDR'' [sockfd])) (repeat_io (broadcast_round beyond sockfd) 0))))"

definition multicast_round :: "int \<Rightarrow> bytes \<Rightarrow> (bytes + int) io" where
  "multicast_round fd msgbuf =
     bnd (c_recvfrom fd 256) (\<lambda>r.
     if rv r < 0 then thn (c_perror ''recvfrom'') (c_exit 1)
     else
       (let msgbuf' = overwrite (dat r) msgbuf in
        thn (print_array [] msgbuf' [LF]) (go msgbuf')))"

definition multicast_receiver :: "bytes \<Rightarrow> int io" where
  "multicast_receiver beyond =
     thn (say ''The multicast client is on. '') (
     bnd (sysi (CSocket AF_INET SOCK_DGRAM 0)) (\<lambda>fd.
     if fd < 0 then thn (c_perror ''socket'') (c_exit 1)
     else
       bnd (sysi (CBind fd (htons group_port))) (\<lambda>rc.
       if rc < 0 then thn (c_perror ''bind'') (c_exit 1)
       else
         bnd (sysi (CSys ''setsockopt IP_ADD_MEMBERSHIP 225.0.0.37'' [fd])) (\<lambda>rc.
         if rc < 0 then thn (c_perror ''setsockopt'') (c_exit 1)
         else repeat_io (multicast_round fd) beyond))))"

section \<open>Laws of the FIFO programs\<close>

lemma wpt_make_fifo:
  assumes "\<And>r. wpt k Q E (t @ [Sys (CSys (''mkfifo '' @ path) []) r])" "\<And>c. E (Blocked c) t"
    "\<And>r e. E (Exited 1) (t @ [Sys (CSys (''mkfifo '' @ path) []) r, Act (APerror ''mkfifo'' e)])"
  shows "wpt (make_fifo path k) Q E t"
  unfolding make_fifo_def by (intro wpt_intros) (use assms in auto)

lemma wpt_open_fifo:
  assumes "\<And>fd r. wpt (k fd) Q E (t @ [Sys (COpen path flags) r])" "\<And>c. E (Blocked c) t"
    "\<And>r e. E (Exited 1) (t @ [Sys (COpen path flags) r, Act (APerror ''open'' e)])"
  shows "wpt (open_fifo path flags k) Q E t"
  unfolding open_fifo_def by (intro wpt_intros) (use assms in auto)

lemma wpt_read_array:
  assumes "length buf = 1024"
    and "\<And>r. rv r = -1 \<Longrightarrow> dat r = [] \<Longrightarrow> wpt (k (-1) buf) Q E (t @ [Sys (CRead fd 1024) r])"
    and "\<And>r. rv r = int (length (dat r)) \<Longrightarrow> length (dat r) \<le> 1024 \<Longrightarrow> length (overwrite (dat r) buf) = 1024 \<Longrightarrow>
      wpt (k (rv r) (overwrite (dat r) buf)) Q E (t @ [Sys (CRead fd 1024) r])"
    and "\<And>c. E (Blocked c) t"
  shows "wpt (read_into fd buf k) Q E t"
  unfolding read_into_def
proof (rule wpt_bnd, rule wpt_read, goal_cases)
  case (1 r)
  with assms(2) [of r] show ?case by (simp add: overwrite_def)
next
  case (2 r)
  then have "length (overwrite (dat r) buf) = 1024" using assms(1) by (simp add: overwrite_def)
  with 2 assms(3) [of r] show ?case by simp
qed (rule assms(4))

lemmas ipc_intros = wpt_make_fifo wpt_open_fifo wpt_read_array wpt_die wpt_err_exit wpt_say wpt_put_NUL
  wpt_print_array wpt_intros

text \<open>
  The server has answered every read but those that found the end of the file, and it is over
  when a read finds that.
\<close>

definition fifo_answered :: "int \<Rightarrow> int \<Rightarrow> entry list \<Rightarrow> bool" where
  "fifo_answered fd1 fd2 t \<longleftrightarrow>
     writes t = replicate (length (filter (\<lambda>n. n \<noteq> 0) (read_results fd1 t))) (fd2, fifo_reply)"

definition fifo_over :: "int \<Rightarrow> entry list \<Rightarrow> bool" where
  "fifo_over fd1 t \<longleftrightarrow> read_results fd1 t \<noteq> [] \<and> last (read_results fd1 t) = 0"

lemma fifo_round_law:
  assumes "length buf = 1024" "fifo_answered fd1 fd2 t" "closed t = []"
  shows "wpt (fifo_round fd1 fd2 buf)
     (\<lambda>x t'. case x of
        Inr u \<Rightarrow> fifo_answered fd1 fd2 t' \<and> fifo_over fd1 t' \<and> closed t' = []
      | Inl b \<Rightarrow> length b = 1024 \<and> fifo_answered fd1 fd2 t' \<and> closed t' = [])
     (\<lambda>s t. blocked s \<or> faulted s \<or> exits_1 s) t"
  unfolding fifo_round_def
  by (intro wpt_write ipc_intros)
    (use assms in \<open>auto simp: fifo_answered_def fifo_over_def replicate_append_same\<close>)

lemma fifo_round_calls: "calls_each_round (fifo_round fd1 fd2)"
  unfolding fifo_round_def read_into_def c_read_def bnd_assoc bnd_ret split_beta
  by (intro calls_first tcp_shrinks)

definition fifo_served :: "entry list \<Rightarrow> bool" where
  "fifo_served t \<longleftrightarrow>
     (\<exists>fd1 fd2 u.
        t = u @ [Act (AClose fd1), Act (AClose fd2),
          Act (ASys (''unlink '' @ fifo_c2s) []), Act (ASys (''unlink '' @ fifo_s2c) [])] \<and>
        fifo_answered fd1 fd2 u \<and> fifo_over fd1 u \<and> closed u = [])"

lemma fifo_server_law:
  assumes "length beyond = 1024"
  shows "wpt (fifo_server beyond) (\<lambda>n t. n = 0 \<and> fifo_served t)
     (\<lambda>s t. blocked s \<or> faulted s \<or> exits_1 s) []"
proof -
  have loop: "wpt (repeat_io (fifo_round fd1 fd2) beyond)
      (\<lambda>_ t. fifo_answered fd1 fd2 t \<and> fifo_over fd1 t \<and> closed t = [])
      (\<lambda>s t. blocked s \<or> faulted s \<or> exits_1 s) t"
    if "writes t = []" "closed t = []" "read_results fd1 t = []" for fd1 fd2 t
    by (rule wpt_repeat [where I = "\<lambda>b t. length b = 1024 \<and> fifo_answered fd1 fd2 t \<and> closed t = []", OF fifo_round_calls])
      (auto intro: fifo_round_law simp: assms that fifo_answered_def)
  show ?thesis
    unfolding fifo_server_def seqs_simps
    by (intro wpt_make_fifo wpt_open_fifo wpt_bnd wpt_conseq [OF loop] wpt_intros)
      (auto simp: fifo_served_def intro!: wpt_intros)
qed

text \<open>A client has sent its message \<open>n\<close> times and printed every answer.\<close>

definition fifo_asked :: "int \<Rightarrow> int \<Rightarrow> nat \<Rightarrow> entry list \<Rightarrow> bool" where
  "fifo_asked fd1 fd2 n t \<longleftrightarrow>
     writes t = replicate n (fd1, fifo_message @ [NUL]) \<and> length (read_results fd2 t) = n"

text \<open>The answers a trace read, as \<open>printf\<close> shows them.\<close>

fun reads_shown :: "int \<Rightarrow> entry list \<Rightarrow> string list" where
  "reads_shown fd [] = []"
| "reads_shown fd (Sys (CRead fd' n) r # t) =
     (if fd' = fd then [''receive: '' @ cstr (dat r) @ [LF]] else []) @ reads_shown fd t"
| "reads_shown fd (_ # t) = reads_shown fd t"

lemma reads_shown_append [simp]: "reads_shown fd (s @ t) = reads_shown fd s @ reads_shown fd t"
  by (induction fd s rule: reads_shown.induct) auto

definition fifo_line :: string where
  "fifo_line = ''send to server: '' @ fifo_message @ [LF]"

fun alternate :: "string \<Rightarrow> string list \<Rightarrow> string list" where
  "alternate a [] = []"
| "alternate a (b # bs) = a # b # alternate a bs"

lemma alternate_append [simp]: "alternate a (bs @ cs) = alternate a bs @ alternate a cs"
  by (induction bs) auto

definition fifo_client_inv :: "int \<Rightarrow> int \<Rightarrow> nat \<Rightarrow> entry list \<Rightarrow> bool" where
  "fifo_client_inv fd1 fd2 n t \<longleftrightarrow>
     fifo_asked fd1 fd2 n t \<and> printed t = alternate fifo_line (reads_shown fd2 t) \<and> closed t = []"

lemma fifo_rounds_law:
  assumes "fifo_client_inv fd1 fd2 m t" "length buf = 1024"
    and "\<And>t. fifo_client_inv fd1 fd2 (m + n) t \<Longrightarrow> wpt k Q (\<lambda>s t. blocked s \<or> faulted s \<or> exits_1 s) t"
  shows "wpt (fifo_rounds n fd1 fd2 buf k) Q (\<lambda>s t. blocked s \<or> faulted s \<or> exits_1 s) t"
  using assms
proof (induction n arbitrary: m t buf)
  case (Suc n)
  have step: "wpt (fifo_rounds n fd1 fd2 b k) Q (\<lambda>s t. blocked s \<or> faulted s \<or> exits_1 s) t'"
    if "fifo_client_inv fd1 fd2 (Suc m) t'" "length b = 1024" for b t'
    using Suc.IH [OF that] Suc.prems(3) by simp
  show ?case
    unfolding fifo_rounds.simps
    by (intro wpt_write ipc_intros step)
      (use Suc.prems(1,2) in \<open>auto simp: fifo_client_inv_def fifo_asked_def fifo_line_def
        cstr_put_NUL replicate_append_same simp flip: replicate_Suc\<close>)
qed simp

definition fifo_talked :: "nat \<Rightarrow> entry list \<Rightarrow> bool" where
  "fifo_talked n t \<longleftrightarrow>
     (\<exists>fd1 fd2. fifo_asked fd1 fd2 n t \<and> printed t = alternate fifo_line (reads_shown fd2 t) \<and> closed t = [fd1, fd2])"

lemma fifo_client_law:
  assumes "length beyond = 1024"
  shows "wpt (fifo_client beyond argv)
     (\<lambda>n t. n = 0 \<and> fifo_talked (nat (if length argv > 1 then atoi (argv ! 1) else 1)) t)
     (\<lambda>s t. blocked s \<or> faulted s \<or> exits_1 s) []"
  unfolding fifo_client_def Let_def seqs_simps
  by (intro wpt_open_fifo fifo_rounds_law [where m = 0])
    (auto simp: assms fifo_client_inv_def fifo_asked_def fifo_talked_def intro!: wpt_intros)

section \<open>Laws of the locks\<close>

text \<open>The descriptors a trace holds the lock of: every read and every write is of one of them.\<close>

fun locked_io :: "int set \<Rightarrow> entry list \<Rightarrow> bool" where
  "locked_io H [] = True"
| "locked_io H (Sys (CSys f ns) r # t) =
     locked_io
       (if f = ''fcntl F_SETLK'' \<and> rv r \<noteq> -1
        then if ns ! 1 = F_WRLCK then insert (ns ! 0) H else H - {ns ! 0} else H) t"
| "locked_io H (Act (AFcntlLock fd ty) # t) = locked_io (if ty = F_WRLCK then insert fd H else H - {fd}) t"
| "locked_io H (Sys (CRead fd n) r # t) \<longleftrightarrow> fd \<in> H \<and> locked_io H t"
| "locked_io H (Sys (CWrite fd b) r # t) \<longleftrightarrow> fd \<in> H \<and> locked_io H t"
| "locked_io H (_ # t) = locked_io H t"

text \<open>The requests for locks, with their results, and the reads with what they delivered.\<close>

fun lock_requests :: "entry list \<Rightarrow> (int \<times> int) list" where
  "lock_requests [] = []"
| "lock_requests (Sys (CSys f ns) r # t) =
     (if f = ''fcntl F_SETLK'' then [(ns ! 1, rv r)] else []) @ lock_requests t"
| "lock_requests (_ # t) = lock_requests t"

fun reads_of :: "entry list \<Rightarrow> bytes list" where
  "reads_of [] = []"
| "reads_of (Sys (CRead fd n) r # t) = dat r # reads_of t"
| "reads_of (_ # t) = reads_of t"

text \<open>
  A run of \<open>lock_unlock\<close> that exits with status 0 was refused the lock, or read once, showed what it
  read and gave the lock back.
\<close>

definition lock_used :: "bytes \<Rightarrow> entry list \<Rightarrow> bool" where
  "lock_used beyond t \<longleftrightarrow>
     lock_requests t = [(F_WRLCK, -1)] \<and> reads_of t = [] \<or>
     (\<exists>v v' d. lock_requests t = [(F_WRLCK, v), (F_UNLCK, v')] \<and> v \<noteq> -1 \<and> reads_of t = [d] \<and>
        ''The 100-109 bytes in the file are: '' @ cstr ((overwrite d beyond)[10 := NUL]) @ [LF] \<in> set (printed t))"

definition lock_stop :: "bytes \<Rightarrow> stop \<Rightarrow> entry list \<Rightarrow> bool" where
  "lock_stop beyond s t \<longleftrightarrow>
     locked_io {} t \<and>
     (blocked s \<or> s = Exited 1 \<and> lock_requests t = [] \<or> s = Exited 0 \<and> lock_used beyond t)"

lemma lock_unlock_law:
  assumes "length beyond = 20"
  shows "wpt (lock_unlock beyond) (\<lambda>_ _. False) (lock_stop beyond) []"
  unfolding lock_unlock_def setlk_def EXIT_SUCCESS_def EXIT_FAILURE_def seqs_simps split_beta
  by (intro wpt_read ipc_intros)
    (use assms in \<open>auto simp: lock_stop_def lock_used_def norm_reply_def overwrite_def set_update_memI F_WRLCK_def F_UNLCK_def\<close>)

lemma lockfile_law:
  "wpt lockfile
     (\<lambda>n t. n = 0 \<and> locked_io {} t \<and> (\<exists>fd. writes t = [(fd, lockfile_text)] \<and> closed t = [fd]))
     (\<lambda>s t. locked_io {} t \<and> blocked s) []"
  unfolding lockfile_def seqs_simps
  by (intro wpt_write ipc_intros) (auto simp: F_WRLCK_def F_UNLCK_def)

section \<open>Laws of the groups\<close>

text \<open>The results of the calls of \<open>recvfrom\<close>, and the array after each of the messages.\<close>

fun recv_results :: "entry list \<Rightarrow> (int \<times> bytes) list" where
  "recv_results [] = []"
| "recv_results (Sys (CRecvfrom fd n) r # t) = (rv r, dat r) # recv_results t"
| "recv_results (_ # t) = recv_results t"

definition received :: "entry list \<Rightarrow> bytes list" where
  "received t = map snd (filter (\<lambda>(n, d). 0 \<le> n) (recv_results t))"

lemma recv_results_append [simp]: "recv_results (s @ t) = recv_results s @ recv_results t"
  by (induction s rule: recv_results.induct) auto

fun arrays :: "bytes \<Rightarrow> bytes list \<Rightarrow> bytes list" where
  "arrays old [] = []"
| "arrays old (d # ds) = overwrite d old # arrays (overwrite d old) ds"

definition last_array :: "bytes \<Rightarrow> bytes list \<Rightarrow> bytes" where
  "last_array old ds = foldl (\<lambda>a d. overwrite d a) old ds"

lemma arrays_snoc [simp]: "arrays old (ds @ [d]) = arrays old ds @ [overwrite d (last_array old ds)]"
  by (induction ds arbitrary: old) (auto simp: last_array_def)

lemma last_array_simps [simp]:
  "last_array old [] = old" "last_array old (ds @ [d]) = overwrite d (last_array old ds)"
  by (simp_all add: last_array_def)

text \<open>
  A sender announces and sends its message again and again, to port 10000 of its group: it has
  announced each of the datagrams, and perhaps one more.
\<close>

definition sends_to_group :: "string \<Rightarrow> string \<Rightarrow> string \<Rightarrow> entry list \<Rightarrow> bool" where
  "sends_to_group intro note msg t \<longleftrightarrow>
     (\<exists>fd r n. datagrams_out fd t = replicate n (msg @ [NUL], group_address r) \<and>
        (printed t = [] \<and> n = 0 \<or> printed t = (intro @ [LF]) # replicate n (note @ [LF]) \<or>
         printed t = (intro @ [LF]) # replicate (Suc n) (note @ [LF])))"

lemma c_sendto_text:
  "c_sendto fd (msg @ [NUL]) (int (length msg) + 1) a = sysi (CSendto fd (msg @ [NUL]) a)"
  by (simp add: c_sendto_def nat_add_distrib)

lemma sender_round_calls: "calls_each_round (sender_round fd dest note msg)"
  unfolding sender_round_def [abs_def] c_sendto_text sysi_def bnd_assoc say_def c_print_def
  by (intro calls_after_act calls_first tcp_shrinks)

lemma sender_law:
  assumes "datagrams_out fd t = []" "printed t = [intro @ [LF]]"
  shows "wpt (repeat_io (sender_round fd (group_address r) note msg) ()) (\<lambda>_ _. False)
     (\<lambda>s t. blocked s \<and> sends_to_group intro note msg t) t"
proof (rule wpt_repeat [where I = "\<lambda>_ t. \<exists>n. datagrams_out fd t = replicate n (msg @ [NUL], group_address r) \<and>
    printed t = (intro @ [LF]) # replicate n (note @ [LF])", OF sender_round_calls], goal_cases)
  case (1 u t)
  then obtain n where "datagrams_out fd t = replicate n (msg @ [NUL], group_address r)"
    "printed t = (intro @ [LF]) # replicate n (note @ [LF])" by blast
  then show ?case
    unfolding sender_round_def c_sendto_text
    by (intro ipc_intros)
      (auto simp: sends_to_group_def norm_reply_def replicate_append_same simp flip: replicate_Suc
        intro!: exI [of _ "Suc n"] exI [of _ n])
qed (use assms in auto)

lemma senders_law:
  "wpt broadcast_sender (\<lambda>_ _. False)
     (\<lambda>s t. blocked s \<and> sends_to_group ''The broadcast sender is on.'' broadcast_note broadcast_msg t) []"
  "wpt multicast_sender (\<lambda>_ _. False)
     (\<lambda>s t. blocked s \<and> sends_to_group ''The multicast sender is on.'' multicast_note multicast_msg t) []"
  unfolding broadcast_sender_def multicast_sender_def seqs_simps
  by (intro ipc_intros sender_law; simp add: sends_to_group_def; auto intro!: exI [of _ 0] exI [of _ "[]"])+

text \<open>
  A receiver has shown, behind its first line, what the arrays held after the messages received;
  the array of a message that is no text is not shown, and the receiver is over.
\<close>

definition shows_arrays :: "string \<Rightarrow> (bytes \<Rightarrow> string) \<Rightarrow> stop \<Rightarrow> bytes list \<Rightarrow> string list \<Rightarrow> bool" where
  "shows_arrays intro line s as ps \<longleftrightarrow>
     ps = [] \<and> as = [] \<and> blocked s \<or>
     ps = (intro @ [LF]) # map line as \<and> (blocked s \<or> exits_1 s) \<or>
     ps = (intro @ [LF]) # map line (butlast as) \<and> faulted s \<and> as \<noteq> []"

lemma broadcast_round_calls: "calls_each_round (broadcast_round beyond fd)"
  unfolding broadcast_round_def [abs_def] c_recvfrom_def
  by (intro calls_first tcp_shrinks)

definition fresh_arrays :: "(nat \<Rightarrow> bytes) \<Rightarrow> bytes list \<Rightarrow> bytes list" where
  "fresh_arrays beyond ds = map (\<lambda>(i, d). overwrite d (beyond i)) (enumerate 0 ds)"

lemma fresh_arrays_simps [simp]:
  "fresh_arrays beyond [] = []"
  "fresh_arrays beyond (ds @ [d]) = fresh_arrays beyond ds @ [overwrite d (beyond (length ds))]"
  by (simp_all add: fresh_arrays_def enumerate_append_eq)

lemma broadcast_receiver_law:
  "wpt (broadcast_receiver beyond)
     (\<lambda>n t. n = 1 \<and> received t = [] \<and> printed t = [''The broadcast receiver is started.'' @ [LF]])
     (\<lambda>s t. shows_arrays ''The broadcast receiver is started.'' (\<lambda>a. ''Received: '' @ cstr a) s
        (fresh_arrays beyond (map snd (recv_results t))) (printed t)) []"
proof -
  have loop: "wpt (repeat_io (broadcast_round beyond fd) 0) Q
      (\<lambda>s t. shows_arrays intro (\<lambda>a. ''Received: '' @ cstr a) s (fresh_arrays beyond (map snd (recv_results t))) (printed t)) t"
    if "recv_results t = []" "printed t = [intro @ [LF]]" for fd Q t intro
  proof (rule wpt_repeat [where I = "\<lambda>i t. length (recv_results t) = i \<and>
      printed t = (intro @ [LF]) # map (\<lambda>a. ''Received: '' @ cstr a) (fresh_arrays beyond (map snd (recv_results t)))", OF broadcast_round_calls], goal_cases)
    case (1 i t)
    then show ?case
      unfolding broadcast_round_def c_recvfrom_def
      by (intro ipc_intros) (auto simp: shows_arrays_def)
  qed (use that in simp_all)
  show ?thesis
    unfolding broadcast_receiver_def
    by (intro ipc_intros loop) (auto simp: shows_arrays_def received_def)
qed

lemma multicast_round_calls: "calls_each_round (multicast_round fd)"
  unfolding multicast_round_def [abs_def] c_recvfrom_def Let_def
  by (intro calls_first tcp_shrinks)

lemma multicast_receiver_law:
  "wpt (multicast_receiver beyond) (\<lambda>_ _. False)
     (\<lambda>s t. shows_arrays ''The multicast client is on. '' (\<lambda>a. cstr a @ [LF]) s
        (arrays beyond (received t)) (printed t)) []"
proof -
  have loop: "wpt (repeat_io (multicast_round fd) beyond) (\<lambda>_ _. False)
      (\<lambda>s t. shows_arrays intro (\<lambda>a. cstr a @ [LF]) s (arrays beyond (received t)) (printed t)) t"
    if "recv_results t = []" "printed t = [intro @ [LF]]" for fd t intro
  proof (rule wpt_repeat [where I = "\<lambda>a t. a = last_array beyond (received t) \<and>
      printed t = (intro @ [LF]) # map (\<lambda>a. cstr a @ [LF]) (arrays beyond (received t))", OF multicast_round_calls], goal_cases)
    case (1 a t)
    then show ?case
      unfolding multicast_round_def c_recvfrom_def Let_def
      by (intro ipc_intros) (auto simp: received_def shows_arrays_def)
  qed (use that in \<open>simp_all add: received_def\<close>)
  show ?thesis
    unfolding multicast_receiver_def
    by (intro ipc_intros loop) (auto simp: shows_arrays_def received_def)
qed

text \<open>The message of a sender covers what the array held.\<close>

lemma cstr_text: "NUL \<notin> set msg \<Longrightarrow> cstr (overwrite (msg @ [NUL]) old) = msg"
  by (simp add: overwrite_def cstr_before_NUL cstr_id)

section \<open>Laws of the message queue and of the pipe to a command\<close>

lemma mq_receiver_law:
  "wpt mq_receiver
     (\<lambda>n t. n = 0 \<and> (\<exists>d. reads_of t = [d] \<and> length d < 8192 \<and>
        printed t = [''Waiting for message...'' @ [LF], ''Received: '' @ cstr d @ [LF]]))
     (\<lambda>s t. blocked s \<or> exits_1 s \<or> faulted s \<and> (\<exists>d. reads_of t = [d] \<and> length d = 8192)) []"
  unfolding mq_receiver_def seqs_simps split_beta
  by (intro wpt_read ipc_intros) (auto simp: cstr_put_NUL set_update_memI)

lemma wpt_outputs:
  assumes "\<And>t'. file_out f t' = file_out f t @ concat (map g is) \<Longrightarrow> printed t' = printed t \<Longrightarrow> wpt k Q E t'"
  shows "wpt (seqs (map (\<lambda>i. act (AFputs f (g i))) is) k) Q E t"
  using assms
proof (induction "is" arbitrary: t)
  case (Cons i "is")
  have "wpt (seqs (map (\<lambda>i. act (AFputs f (g i))) is) k) Q E (t @ [Act (AFputs f (g i))])"
    by (rule Cons.IH) (rule Cons.prems, simp_all)
  then show ?case unfolding list.map seqs_simps by (intro wpt_thn wpt_prims)
qed simp

text \<open>The lines the program gives to the command.\<close>

definition numbers_to :: "int \<Rightarrow> bytes" where
  "numbers_to num = concat (map (\<lambda>i. show_int i @ [LF]) [0..num])"

definition gave_numbers :: "int \<Rightarrow> entry list \<Rightarrow> bool" where
  "gave_numbers num t \<longleftrightarrow> (\<exists>f. file_out f t = numbers_to num)"

lemma gave_numbersI:
  "file_out f t = concat (map (\<lambda>i. show_int i @ [LF]) [0..num]) \<Longrightarrow> file_out f u = [] \<Longrightarrow> gave_numbers num (t @ u)"
  unfolding gave_numbers_def numbers_to_def by (intro exI [of _ f]) simp

lemma popen_sort_law:
  "wpt (popen_sort argv)
     (\<lambda>n t. let num = (if length argv > 1 then atoi (argv ! 1) else 15) in
        n = 1 \<and> printed t = [] \<or> n = 0 \<and> gave_numbers num t)
     (\<lambda>s t. let num = (if length argv > 1 then atoi (argv ! 1) else 15) in
        blocked s \<or> exits_1 s \<and> gave_numbers num t \<or> faulted s \<and> num = INT_MAX) []"
  unfolding popen_sort_def write_data_def Let_def EXIT_SUCCESS_def EXIT_FAILURE_def
  by (intro wpt_outputs ipc_intros) (auto intro!: gave_numbersI split del: if_split)

section \<open>Properties\<close>

text \<open>
  C33. The FIFO pair.  A server that returns has written its reply for every read that did not find
  the end of the FIFO, in order; the last read found it, and then the server closed and removed
  both FIFOs.  A client that returns has written its message as often as it was told, and once
  when it was told nothing, has read after each message, and has printed each message and what it
  read behind it.
\<close>

theorem fifo_pair:
  assumes "length beyond = 1024"
  shows "(case fifo_server beyond w of
      Ret n w' \<Rightarrow> n = 0 \<and> (\<exists>t. trace w' = trace w @ t \<and> fifo_served t)
    | Stop s w' \<Rightarrow> blocked s \<or> faulted s \<or> exits_1 s) \<and>
   (case fifo_client beyond argv w of
      Ret n w' \<Rightarrow> n = 0 \<and> (\<exists>t. trace w' = trace w @ t \<and>
        fifo_talked (nat (if length argv > 1 then atoi (argv ! 1) else 1)) t)
    | Stop s w' \<Rightarrow> blocked s \<or> faulted s \<or> exits_1 s)"
  using wpt_case [OF fifo_server_law [OF assms], of w] wpt_case [OF fifo_client_law [OF assms, of argv], of w]
  by (cases "fifo_server beyond w"; cases "fifo_client beyond argv w") (auto split del: if_split)

definition fifo_script :: "reply list" where
  "fifo_script =
     [took 0, failed EEXIST, took 3, took 4, got_bytes (fifo_message @ [NUL]), took 18, got_bytes []]"

theorem fifo_pair_witness:
  "\<exists>w'. fifo_server (replicate 1024 NUL) (world0 fifo_script) = Ret 0 w' \<and>
     (\<exists>t. trace w' = trace (world0 fifo_script) @ t \<and> fifo_served t)"
proof -
  have "returns (fifo_server (replicate 1024 NUL) (world0 fifo_script)) 0"
    by (simp add: fifo_server_def make_fifo_def open_fifo_def fifo_script_def fifo_round_def read_into_def
        say_def fifo_message_def fifo_reply_def EEXIST_def eval_simps)
  with fifo_pair [of "replicate 1024 NUL" "world0 fifo_script" "[]"] show ?thesis
    by (auto simp: returns_def split: result.splits)
qed

text \<open>
  \<open>lock_unlock\<close> reads the file only while it holds the lock, and \<open>lockfile\<close> writes to the
  file only between its requests for the lock and for its release.  When \<open>lock_unlock\<close> exits
  with status 0, it was refused the lock and read nothing, or it was granted the lock, read once,
  printed the ten bytes and asked for the release; it exits with status 1 when it cannot open the
  file, having asked for no lock.
\<close>

theorem locks_protect_io:
  assumes "length beyond = 20"
  shows "(case lock_unlock beyond w of
      Ret _ _ \<Rightarrow> False
    | Stop s w' \<Rightarrow> \<exists>t. trace w' = trace w @ t \<and> lock_stop beyond s t) \<and>
   (case lockfile w of
      Ret n w' \<Rightarrow> \<exists>t fd. trace w' = trace w @ t \<and> n = 0 \<and> locked_io {} t \<and>
        writes t = [(fd, lockfile_text)] \<and> closed t = [fd]
    | Stop s w' \<Rightarrow> \<exists>t. trace w' = trace w @ t \<and> locked_io {} t \<and> blocked s)"
  using wpt_case [OF lock_unlock_law [OF assms], of w] wpt_case [OF lockfile_law, of w]
  by (cases "lock_unlock beyond w"; cases "lockfile w") auto

theorem locks_protect_io_witness:
  "\<exists>w' t. lock_unlock (replicate 20 (CHR ''x''))
       (world0 [took 3, took 0, got_bytes ''0123456789'', took 0]) = Stop (Exited 0) w' \<and>
     trace w' = t \<and> locked_io {} t \<and> lock_used (replicate 20 (CHR ''x'')) t"
proof -
  let ?w = "world0 [took 3, took 0, got_bytes ''0123456789'', took 0]"
  have "stops_as (lock_unlock (replicate 20 (CHR ''x'')) ?w) (Exited 0)"
    by (simp add: lock_unlock_def setlk_def say_def EXIT_SUCCESS_def eval_simps numeral_eq_Suc)
  with locks_protect_io [of "replicate 20 (CHR ''x'')" ?w] show ?thesis
    by (auto simp: stops_as_def lock_stop_def world0_def split: result.splits)
qed

text \<open>
  Broadcast and multicast.  The senders never return: they announce and send the same message
  to port 10000 of their group, in turn, and each datagram is announced.  The receivers print the
  array after every message; what a message did not cover is still in the array, and an array
  without a NUL is undefined behaviour.  The message of a sender is shown as it is, whatever the
  array held before it.
\<close>

theorem group_messages:
  "(case broadcast_sender w of
      Ret _ _ \<Rightarrow> False
    | Stop s w' \<Rightarrow> \<exists>t. trace w' = trace w @ t \<and> blocked s \<and>
        sends_to_group ''The broadcast sender is on.'' broadcast_note broadcast_msg t) \<and>
   (case multicast_sender w of
      Ret _ _ \<Rightarrow> False
    | Stop s w' \<Rightarrow> \<exists>t. trace w' = trace w @ t \<and> blocked s \<and>
        sends_to_group ''The multicast sender is on.'' multicast_note multicast_msg t) \<and>
   (case broadcast_receiver fresh w of
      Ret n w' \<Rightarrow> n = 1 \<and> (\<exists>t. trace w' = trace w @ t \<and> received t = [])
    | Stop s w' \<Rightarrow> \<exists>t. trace w' = trace w @ t \<and>
        shows_arrays ''The broadcast receiver is started.'' (\<lambda>a. ''Received: '' @ cstr a) s
          (fresh_arrays fresh (map snd (recv_results t))) (printed t)) \<and>
   (case multicast_receiver beyond w of
      Ret _ _ \<Rightarrow> False
    | Stop s w' \<Rightarrow> \<exists>t. trace w' = trace w @ t \<and>
        shows_arrays ''The multicast client is on. '' (\<lambda>a. cstr a @ [LF]) s
          (arrays beyond (received t)) (printed t)) \<and>
   cstr (overwrite (broadcast_msg @ [NUL]) old) = broadcast_msg \<and>
   cstr (overwrite (multicast_msg @ [NUL]) old) = multicast_msg"
proof (intro conjI, goal_cases)
  case 1
  then show ?case using wpt_case [OF senders_law(1), of w] by (simp split: result.splits)
next
  case 2
  then show ?case using wpt_case [OF senders_law(2), of w] by (simp split: result.splits)
next
  case 3
  then show ?case using wpt_case [OF broadcast_receiver_law [of fresh], of w]
    by (cases "broadcast_receiver fresh w") auto
next
  case 4
  then show ?case using wpt_case [OF multicast_receiver_law [of beyond], of w] by (simp split: result.splits)
qed (rule cstr_text, simp add: broadcast_msg_def multicast_msg_def)+

text \<open>
  The receiver of the message queue that returns has printed the one message it received; a
  message as long as its array makes it store behind the array.  \<open>popen_sort\<close> gives the
  numbers from 0 to \<open>num\<close>, one on each line, to the command, and the largest \<open>num\<close> is
  undefined behaviour.
\<close>

theorem queue_and_popen:
  "(case mq_receiver w of
      Ret n w' \<Rightarrow> \<exists>t d. trace w' = trace w @ t \<and> n = 0 \<and> reads_of t = [d] \<and> length d < 8192 \<and>
        printed t = [''Waiting for message...'' @ [LF], ''Received: '' @ cstr d @ [LF]]
    | Stop s w' \<Rightarrow> \<exists>t. trace w' = trace w @ t \<and>
        (blocked s \<or> exits_1 s \<or> faulted s \<and> (\<exists>d. reads_of t = [d] \<and> length d = 8192))) \<and>
   (let num = (if length argv > 1 then atoi (argv ! 1) else 15) in
    case popen_sort argv w of
      Ret n w' \<Rightarrow> \<exists>t. trace w' = trace w @ t \<and> (n = 1 \<and> printed t = [] \<or> n = 0 \<and> gave_numbers num t)
    | Stop s w' \<Rightarrow> \<exists>t. trace w' = trace w @ t \<and>
        (blocked s \<or> exits_1 s \<and> gave_numbers num t \<or> faulted s \<and> num = INT_MAX))"
proof (rule conjI, goal_cases)
  case 1
  then show ?case using wpt_case [OF mq_receiver_law, of w] by (cases "mq_receiver w") auto
next
  case 2
  then show ?case using wpt_case [OF popen_sort_law [of argv], of w]
    by (simp add: Let_def split: result.splits split del: if_split)
qed

end
