(* ===== verification/Small_Programs.thy ===== *)
theory Small_Programs
  imports Ipc_Calls Partial_Sums
begin

text \<open>
  Small programs of one process: arithmetic (\<^verbatim>\<open>Lecture1\<close>, \<^verbatim>\<open>Lecture9/gdb_example\<close>,
  \<^verbatim>\<open>MidtermPractice/q6\<close>, \<^verbatim>\<open>q7\<close>, \<^verbatim>\<open>q13\<close>), files (\<^verbatim>\<open>Lecture2\<close>, \<^verbatim>\<open>Lecture3/copy\<close>, \<^verbatim>\<open>Lecture4/hardlink\<close>),
  and arrays that are too small (\<^verbatim>\<open>Lecture9/gets_example\<close>, \<^verbatim>\<open>Lecture9/attack_example\<close>).

  A call of \<open>scanf\<close> finds the text of the standard input in \<open>dat\<close> of its reply.
\<close>

section \<open>Arithmetic\<close>

text \<open>The variable that \<open>scanf("%d")\<close> leaves: it keeps its value, or none, when there is no number.\<close>

definition scanf_int :: "int option \<Rightarrow> int option io" where
  "scanf_int old =
     bnd (call (CSys ''scanf %d'' [])) (\<lambda>r.
     ret (case fst (sscanf [Dec] (dat r)) of [VInt v] \<Rightarrow> Some v | _ \<Rightarrow> old))"

definition print_factors :: "int \<Rightarrow> int list \<Rightarrow> 'a io \<Rightarrow> 'a io" where
  "print_factors n is k =
     seqs (map (\<lambda>i. if n mod i = 0 then c_print (show_int i @ '' '') else ret ()) is) k"

text \<open>A loop up to \<open>n\<close> increments its variable once more, which overflows for the largest \<open>n\<close>.\<close>

definition factors :: "int io" where
  "factors =
     thn (c_print ''Enter a positive integer: '') (
     bnd (scanf_int None) (\<lambda>v.
     need v (\<lambda>n.
     thn (c_print (''Factors of '' @ show_int n @ '' are: '')) (
     print_factors n [1..n] (if n = INT_MAX then c_fault ''signed overflow'' else ret 0)))))"

definition myFactors :: "int io" where
  "myFactors =
     thn (c_print ''Enter a positive integer: '') (
     bnd (scanf_int None) (\<lambda>v.
     need v (\<lambda>n.
     print_factors n [1..n - 1] (thn (c_print [LF]) (ret 0)))))"

definition ERANGE :: int where "ERANGE = 34"

definition midterm_factors :: "int io" where
  "midterm_factors =
     thn (c_print ''Enter an integer to find the factors of: '') (
     bnd (scanf_int (Some 0)) (\<lambda>v.
     need v (\<lambda>n.
     if n \<le> 0 then thn (c_eprint (''Input is not valid'' @ [LF])) (c_exit EXIT_FAILURE)
     else
       bnd get_errno (\<lambda>e.
       if e = ERANGE then thn (c_eprint (''Input is outside allowable range'' @ [LF])) (c_exit EXIT_FAILURE)
       else
         print_factors n [1..n] (
           if n = INT_MAX then c_fault ''signed overflow'' else thn (c_print [LF]) (ret 0))))))"

text \<open>Products of \<open>int\<close> and \<open>long\<close>, which must not overflow.\<close>

definition mul_int :: "int \<Rightarrow> int \<Rightarrow> (int \<Rightarrow> 'a io) \<Rightarrow> 'a io" where
  "mul_int a b k = (if in_int32 (a * b) then k (a * b) else c_fault ''signed overflow'')"

definition mul_long :: "int \<Rightarrow> int \<Rightarrow> (int \<Rightarrow> 'a io) \<Rightarrow> 'a io" where
  "mul_long a b k =
     (if - (2 ^ 63) \<le> a * b \<and> a * b < 2 ^ 63 then k (a * b) else c_fault ''signed overflow'')"

fun double_times :: "nat \<Rightarrow> int \<Rightarrow> (int \<Rightarrow> 'a io) \<Rightarrow> 'a io" where
  "double_times 0 res k = k res"
| "double_times (Suc n) res k = mul_int res 2 (\<lambda>res. double_times n res k)"

definition power_of_two :: "string list \<Rightarrow> int io" where
  "power_of_two argv =
     (if length argv \<noteq> 2 then thn (c_eprint (''Usage: ./main n'' @ [LF])) (c_exit EXIT_FAILURE)
      else
        (let n = atoi (argv ! 1) in
         if n < 0 then thn (c_eprint (''Argument is invalid'' @ [LF])) (c_exit EXIT_FAILURE)
         else if n > 30 then
           thn (c_eprint (''Result cannot fit in a 32-bit integer'' @ [LF])) (c_exit EXIT_FAILURE)
         else
           double_times (nat n) 1 (\<lambda>res.
           thn (c_print (''2^'' @ show_int n @ '' = '' @ show_int res @ [LF])) (ret 0))))"

function factorial_loop :: "int \<Rightarrow> int \<Rightarrow> (int \<Rightarrow> 'a io) \<Rightarrow> 'a io" where
  "factorial_loop n result k =
     (if n > 0 then mul_long result n (\<lambda>result. factorial_loop (n - 1) result k) else k result)"
  by pat_completeness auto
termination
  by (relation "measure (\<lambda>(n, result, k). nat n)") auto

declare factorial_loop.simps [simp del]

definition factorial :: "int \<Rightarrow> (int \<Rightarrow> 'a io) \<Rightarrow> 'a io" where
  "factorial n k = factorial_loop n 1 k"

text \<open>\<open>main\<close> is C++: \<open>cin\<close> leaves 0 when there is no number, and the nearest \<open>int\<close> when it is too large.\<close>

definition cin_int :: "int io" where
  "cin_int =
     bnd (call (CSys ''cin >> int'' [])) (\<lambda>r.
     ret (case scan_decimal (dropWhile is_space (dat r)) of
        None \<Rightarrow> 0 | Some (v, rest) \<Rightarrow> max INT_MIN (min INT_MAX v)))"

definition gdb_example :: "int io" where
  "gdb_example =
     thn (say ''Input the number n'') (
     bnd cin_int (\<lambda>n.
     factorial n (\<lambda>val.
     seqs [say ''Calling the factorial function'', say (''The calculated factorial is: '' @ show_int val)] (
     bnd (sysi (CSys ''cin.get'' [])) (\<lambda>_. ret 0)))))"

definition parity_text :: "int \<Rightarrow> string" where
  "parity_text n = (if n mod 2 = 0 then show_int n @ '' is even.'' else show_int n @ '' is odd.'')"

definition oddeven :: "int io" where
  "oddeven =
     thn (c_print ''Enter an integer: '') (
     bnd (scanf_int None) (\<lambda>v. need v (\<lambda>n. thn (c_print (parity_text n @ [LF] @ '' '')) (ret 0))))"

definition myOddeven :: "int io" where
  "myOddeven =
     thn (c_print ''Enter an integer: '') (
     bnd (scanf_int None) (\<lambda>v. need v (\<lambda>n. thn (c_print (parity_text n @ [LF])) (ret 0))))"

section \<open>Squares by processes\<close>

text \<open>
  \<^verbatim>\<open>MidtermPractice/q13\<close>.  A child is the run in which \<open>fork\<close> has returned 0.  The data of the
  reply of \<open>pipe\<close> are the two descriptors; a read that does not fill the variable leaves it
  indeterminate.
\<close>

definition square_child :: "int \<Rightarrow> int \<Rightarrow> 'a io" where
  "square_child fd1 a = mul_int a a (\<lambda>n. bnd (c_write fd1 (int_bytes n) 4) (\<lambda>_. c_exit 0))"

definition square_of :: "int \<Rightarrow> int \<Rightarrow> int \<Rightarrow> (int option \<Rightarrow> int io) \<Rightarrow> int io" where
  "square_of fd0 fd1 a k =
     bnd (sysi CFork) (\<lambda>pid.
     if pid < 0 then thn (say ''Fork failure'') (c_exit EXIT_FAILURE)
     else if pid = 0 then square_child fd1 a
     else
       bnd (sysi (CSys ''wait'' [])) (\<lambda>_.
       bnd (c_read fd0 4) (\<lambda>(rc, d).
       if rc < 0 then thn (c_perror (''Read failure'' @ [LF])) (c_exit EXIT_FAILURE)
       else k (if length d = 4 then Some (bytes_int d) else None))))"

definition range_check :: "int \<Rightarrow> string \<Rightarrow> 'a io \<Rightarrow> 'a io" where
  "range_check a name k =
     (if a < -100 \<or> a > 100 then thn (c_eprint (name @ '' is out of range'' @ [LF])) (c_exit EXIT_FAILURE) else k)"

definition squares :: "string list \<Rightarrow> int io" where
  "squares argv =
     (if length argv \<noteq> 3 then thn (c_eprint (''Usage: ./main a b'' @ [LF])) (c_exit EXIT_FAILURE)
      else
        (let a = atoi (argv ! 1); b = atoi (argv ! 2) in
         range_check a ''a'' (
         range_check b ''b'' (
         bnd (call (CSys ''pipe'' [])) (\<lambda>r.
         if rv r < 0 then thn (c_eprint (''pipe error'' @ [LF])) (c_exit EXIT_FAILURE)
         else
           (let fd0 = int (of_char (dat r ! 0)); fd1 = int (of_char (dat r ! 1)) in
            square_of fd0 fd1 a (\<lambda>a2.
            square_of fd0 fd1 b (\<lambda>b2.
            need a2 (\<lambda>a2. need b2 (\<lambda>b2.
            thn (say (''Result = '' @ show_int (a2 - b2))) (ret 0)))))))))))"

section \<open>Files\<close>

text \<open>Both copy programs; they differ in the size of the array.\<close>

definition copy_round :: "nat \<Rightarrow> unit \<Rightarrow> (unit + unit) io" where
  "copy_round cap u =
     bnd (c_read 0 cap) (\<lambda>(n, d).
     if n \<noteq> 0 then bnd (c_write 1 d n) (\<lambda>_. go ()) else leave ())"

definition copy_stdin :: "nat \<Rightarrow> int io" where
  "copy_stdin cap = bnd (repeat_io (copy_round cap) ()) (\<lambda>_. ret 0)"

definition lecture2_copy :: "int io" where "lecture2_copy = copy_stdin 10000"
definition lecture3_copy :: "int io" where "lecture3_copy = copy_stdin 64"

text \<open>\<open>fgetc\<close> returns a byte or \<open>EOF\<close> (-1); after \<open>EOF\<close>, \<open>feof\<close> tells the end from an error.\<close>

definition c_fgetc :: "int \<Rightarrow> int io" where
  "c_fgetc fp = (if fp = 0 then c_fault ''null file pointer'' else sysi (CSys ''fgetc'' [fp]))"

definition byte_char :: "int \<Rightarrow> char" where
  "byte_char c = char_of (nat (c mod 256))"

definition fgetc_round :: "int \<Rightarrow> unit \<Rightarrow> (unit + unit) io" where
  "fgetc_round fp u =
     bnd (c_fgetc fp) (\<lambda>c.
     bnd (sysi (CSys ''feof'' [fp])) (\<lambda>e.
     if e \<noteq> 0 then leave () else thn (c_print [byte_char c]) (go ())))"

definition fgetc_file :: "int io" where
  "fgetc_file =
     bnd (sysi (CFopen ''file.txt'' ''r'')) (\<lambda>fp.
     bnd (repeat_io (fgetc_round fp) ()) (\<lambda>_.
     thn (c_fclose fp) (ret 0)))"

text \<open>\<open>hardlink\<close> keeps the character in a signed \<open>char\<close>, in which the byte 255 is \<open>EOF\<close>.\<close>

definition signed_char :: "int \<Rightarrow> int" where
  "signed_char c = (let b = c mod 256 in if b \<ge> 128 then b - 256 else b)"

definition hardlink_round :: "int \<Rightarrow> int \<Rightarrow> (int + unit) io" where
  "hardlink_round fp c =
     (if c \<noteq> -1 then
        thn (c_print [byte_char c]) (bnd (c_fgetc fp) (\<lambda>c. go (signed_char c)))
      else leave ())"

definition hardlink :: "int io" where
  "hardlink =
     bnd (sysi (CSys ''link dir/data.txt myhardlink'' [])) (\<lambda>rc.
     thn (if rc = 0 then say ''Hard link succeeds'' else ret ()) (
     bnd (sysi (CFopen ''myhardlink'' ''r'')) (\<lambda>fp.
     thn (c_print ''File content:'') (
     bnd (c_fgetc fp) (\<lambda>c.
     bnd (repeat_io (hardlink_round fp) (signed_char c)) (\<lambda>_.
     seqs [c_fclose fp, c_print [LF], act (ASys ''sleep'' [3])] (
     bnd (sysi (CSys ''unlink myhardlink'' [])) (\<lambda>rc.
     seqs [if rc < 0 then c_print ''unlink error'' else ret (), say ''file unlinked''] (ret 0)))))))))"

text \<open>
  \<open>calloc\<close> may fail: a read into a null pointer fails, and the store through it is a fault.  The two
  programs differ in the text before the contents and in how \<open>main\<close> ends.
\<close>

definition twenty_bytes :: "string \<Rightarrow> int io" where
  "twenty_bytes intro =
     bnd (sysi (CMalloc 100)) (\<lambda>c.
     bnd (sysi (COpen ''file.txt'' O_RDONLY)) (\<lambda>fd.
     if fd < 0 then thn (c_perror ''r1'') (c_exit 1)
     else if c = 0 then
       bnd (sysi (CSys ''read into a null pointer'' [fd, 20])) (\<lambda>sz.
       thn (say (''Returned that '' @ show_int sz @ '' bytes were read.'')) (c_fault ''null pointer''))
     else
       bnd (c_read fd 20) (\<lambda>(sz, d).
       thn (say (''Returned that '' @ show_int sz @ '' bytes were read.'')) (
       put_NUL (overwrite d (replicate 100 NUL)) sz (\<lambda>buf.
       thn (print_array intro buf [LF]) (ret 0))))))"

definition systemcalls :: "int io" where
  "systemcalls = twenty_bytes ''Those bytes are as follows: ''"

definition mySystemCalls :: "int io" where
  "mySystemCalls = twenty_bytes []"

section \<open>Arrays that are too small\<close>

text \<open>
  \<open>gets_sample\<close>: the loop state is what has been stored.  The text of \<open>%p\<close> is the parameter
  \<open>place\<close>.  The result is the array, or nothing for the null pointer; the caller ignores that.
\<close>

definition gets_round :: "nat \<Rightarrow> string \<Rightarrow> (string + int \<times> string) io" where
  "gets_round cap stored =
     bnd (sysi (CSys ''getchar'' [])) (\<lambda>c.
     if c \<noteq> 10 \<and> c \<noteq> -1 then
       if length stored < cap then go (stored @ [byte_char c]) else c_fault ''store outside an array''
     else leave (c, stored))"

definition gets_sample :: "string \<Rightarrow> bytes \<Rightarrow> (bytes \<Rightarrow> string option \<Rightarrow> 'a io) \<Rightarrow> 'a io" where
  "gets_sample place s k =
     bnd (repeat_io (gets_round (length s)) []) (\<lambda>(c, stored).
     put_NUL (overwrite stored s) (int (length stored)) (\<lambda>s'.
     thn (say (''String copied to location starting at '' @ place @ '' successfully'')) (
     k s' (if c = -1 \<and> stored = [] then None else Some (cstr s')))))"

definition gets_echo :: "string \<Rightarrow> bytes \<Rightarrow> int io" where
  "gets_echo place buf = gets_sample place buf (\<lambda>s _. thn (print_array [] s [LF]) (ret 0))"

text \<open>\<open>scanf("%s")\<close> into an array of 20 bytes that is not initialised.\<close>

definition scan_echo :: "bytes \<Rightarrow> int io" where
  "scan_echo buffer =
     seqs [say ''Call the legitimate function'', say ''Enter text:''] (
     bnd (call (CSys ''scanf %s'' [])) (\<lambda>r.
     case sscanf [Str 20] (dat r) of
       ([VStr v], e) \<Rightarrow>
         seqs [print_array (''You entered: '' @ [LF]) (overwrite (v @ [NUL]) buffer) [LF],
           say ''Complete the legitimate function''] (ret 0)
     | (vs, Overflow) \<Rightarrow> c_fault ''store outside an array''
     | _ \<Rightarrow>
         seqs [print_array (''You entered: '' @ [LF]) buffer [LF],
           say ''Complete the legitimate function''] (ret 0)))"

section \<open>Laws of arithmetic\<close>

definition divisors :: "int \<Rightarrow> int list" where
  "divisors n = filter (\<lambda>i. i dvd n) [1..n]"

lemma divisors_all: "0 < n \<Longrightarrow> set (divisors n) = {i. 0 < i \<and> i dvd n}" "sorted (divisors n)" "distinct (divisors n)"
  by (auto simp: divisors_def sorted_wrt_filter dest: zdvd_imp_le)

text \<open>What the programs print for a list of factors.\<close>

abbreviation shown :: "int list \<Rightarrow> string list" where
  "shown is \<equiv> map (\<lambda>i. show_int i @ '' '') is"

lemma print_factors_run:
  "\<exists>w'. print_factors n is k w = k w' \<and> script w' = script w \<and> errno w' = errno w \<and>
     printed (trace w') = printed (trace w) @ shown (filter (\<lambda>i. i dvd n) is)"
proof (induction "is" arbitrary: w)
  case (Cons i "is")
  show ?case
  proof (cases "i dvd n")
    case True
    from Cons [of "log_act (AOut (show_int i @ '' '')) w"] True show ?thesis
      by (auto simp: print_factors_def c_print_def dvd_eq_mod_eq_0)
  next
    case False
    from Cons [of w] False show ?thesis
      by (auto simp: print_factors_def thn_def dvd_eq_mod_eq_0)
  qed
qed (auto simp: print_factors_def)

lemma scanf_int_run:
  assumes "script w = got_bytes (show_int n @ LF # rest) # rs" "in_int32 n"
  shows "\<exists>w'. scanf_int old w = Ret (Some n) w' \<and> script w' = rs \<and> errno w' = errno w \<and>
    printed (trace w') = printed (trace w)"
  using assms(1) sscanf_Dec_text [OF assms(2), of "LF # rest" "[]"]
  by (auto simp: scanf_int_def bnd_def call_def Let_def norm_reply_def got_bytes_def is_digit_def)

lemma print_run [simp]: "thn (c_print s) k w = k (log_act (AOut s) w)"
  by (simp add: c_print_def)

lemma double_times_run:
  assumes "0 < res" "res * 2 ^ n \<le> INT_MAX"
  shows "double_times n res k = k (res * 2 ^ n)"
  using assms
proof (induction n arbitrary: res)
  case (Suc n)
  have "res * 2 * 1 \<le> res * 2 * 2 ^ n" using Suc.prems(1) by (intro mult_left_mono) auto
  also have "\<dots> \<le> INT_MAX" using Suc.prems(2) by (simp add: mult.assoc)
  finally have "in_int32 (res * 2)"
    using Suc.prems(1) by (simp add: in_int32_def INT_MIN_def)
  with Suc.IH [of "res * 2"] Suc.prems show ?case by (simp add: mul_int_def mult.assoc)
qed simp

lemma power_of_two_bound:
  assumes "0 \<le> n" "n \<le> 30"
  shows "double_times (nat n) 1 k = k (2 ^ nat n)"
proof -
  have "(2::int) ^ nat n \<le> 2 ^ 30" using assms by (intro power_increasing) auto
  then show ?thesis using double_times_run [of 1 "nat n" k] by (simp add: INT_MAX_def)
qed

lemma factorial_loop_run:
  assumes "1 \<le> result"
  shows "factorial_loop (int n) result k =
     (if result * fact n < 2 ^ 63 then k (result * fact n) else if n = 0 then k result else c_fault ''signed overflow'')"
  using assms
proof (induction n arbitrary: result)
  case (Suc n)
  define r where "r = result * int (Suc n)"
  have r: "result * fact (Suc n) = r * fact n" by (simp add: r_def algebra_simps)
  have r': "r = result * (1 + int n)" by (simp add: r_def)
  have pos: "1 \<le> r" using Suc.prems by (simp add: r_def distrib_left add_increasing2)
  have "r * 1 \<le> r * fact n" using pos by (intro mult_left_mono fact_ge_1) auto
  then have le: "r * fact n < 2 ^ 63 \<Longrightarrow> r < 2 ^ 63" by linarith
  show ?case
    using Suc.IH [OF pos] pos le
    unfolding r
    by (subst factorial_loop.simps) (auto simp: mul_long_def factorial_loop.simps [of 0] simp flip: r')
qed (simp add: factorial_loop.simps)

lemma fact_fits: "(fact n :: int) < 2 ^ 63 \<longleftrightarrow> n \<le> 20"
proof -
  have "(fact 20 :: int) < 2 ^ 63" "(2 :: int) ^ 63 \<le> fact 21" by (simp_all add: fact_numeral)
  moreover have "(fact n :: int) \<le> fact 20" if "n \<le> 20" using that by (rule fact_mono)
  moreover have "(fact 21 :: int) \<le> fact n" if "\<not> n \<le> 20" using that by (intro fact_mono) simp
  ultimately show ?thesis by (meson le_less_trans leD order_trans)
qed

lemma factorial_run:
  "factorial n k = (if n \<le> 20 then k (fact (nat n)) else c_fault ''signed overflow'')"
proof (cases "0 \<le> n")
  case True
  then show ?thesis
    using factorial_loop_run [of 1 "nat n" k] fact_fits [of "nat n"] by (auto simp: factorial_def)
qed (simp add: factorial_def factorial_loop.simps)

section \<open>Laws of the files\<close>

lemma copy_calls: "calls_each_round (copy_round cap)"
  unfolding copy_round_def [abs_def] c_read_def bnd_assoc bnd_ret split_beta
  by (intro calls_first tcp_shrinks)

lemma copy_law:
  "wpt (copy_stdin cap)
     (\<lambda>n t. n = 0 \<and> bytes_offered 1 t = bytes_read 0 t \<and> read_results 0 t \<noteq> [] \<and> last (read_results 0 t) = 0)
     (\<lambda>s t. blocked s \<and> (\<exists>pending. bytes_read 0 t = bytes_offered 1 t @ pending \<and> length pending \<le> cap)) []"
proof -
  have loop: "wpt (repeat_io (copy_round cap) ())
     (\<lambda>_ t. bytes_offered 1 t = bytes_read 0 t \<and> read_results 0 t \<noteq> [] \<and> last (read_results 0 t) = 0)
     (\<lambda>s t. blocked s \<and> (\<exists>pending. bytes_read 0 t = bytes_offered 1 t @ pending \<and> length pending \<le> cap)) []"
  proof (rule wpt_repeat [where I = "\<lambda>_ t. bytes_offered 1 t = bytes_read 0 t", OF copy_calls], goal_cases)
    case (1 u t)
    then show ?case
      unfolding copy_round_def
      by (intro wpt_read ipc_intros) (auto intro!: wpt_read wpt_write wpt_intros)
  qed simp
  show ?thesis
    unfolding copy_stdin_def by (intro wpt_bnd wpt_conseq [OF loop]) (auto intro!: wpt_prims)
qed

lemma twenty_bytes_law:
  "wpt (twenty_bytes intro)
     (\<lambda>n t. n = 0 \<and> (\<exists>d. reads_of t = [d] \<and> length d \<le> 20 \<and>
        printed t = [''Returned that '' @ show_int (int (length d)) @ '' bytes were read.'' @ [LF], intro @ cstr d @ [LF]]))
     (\<lambda>s t. blocked s \<or> exits_1 s \<or> faulted s \<and> concat (reads_of t) = []) []"
  unfolding twenty_bytes_def split_beta
  by (intro wpt_read ipc_intros) (auto simp: cstr_put_NUL set_update_memI)

section \<open>Runs over a text\<close>

lemma reply_simps [simp]:
  "rv (took n) = n" "norm_reply (CSys f ns) r = r" "norm_reply (CFopen path mode) r = r"
  by (simp_all add: took_def norm_reply_def)

lemma repeat_run:
  "body s w = Ret (Inl s') w' \<Longrightarrow> length (script w') < length (script w) \<Longrightarrow>
   repeat_io body s w = repeat_io body s' w'"
  "body s w = Ret (Inr b) w' \<Longrightarrow> repeat_io body s w = Ret b w'"
  "body s w = Stop e w' \<Longrightarrow> repeat_io body s w = Stop e w'"
  unfolding repeat_io_def by (subst repeat_var.simps, simp add: progress_def)+

text \<open>The replies to \<open>fgetc\<close> and \<open>feof\<close> for a file, and to \<open>fgetc\<close> or \<open>getchar\<close> alone.\<close>

definition byte :: "char \<Rightarrow> reply" where
  "byte c = took (int (of_char c))"

definition file_replies :: "bytes \<Rightarrow> reply list" where
  "file_replies cs = concat (map (\<lambda>c. [byte c, took 0]) cs) @ [took (-1), took 1]"

lemma byte_char_of [simp]: "byte_char (int (of_char c)) = c"
proof -
  have "(of_char c :: nat) < 256" by simp
  then have "int (of_char c) mod 256 = int (of_char c)" by (intro mod_pos_pos_trivial) simp_all
  then show ?thesis by (simp add: byte_char_def)
qed

lemma of_char_ge [simp]: "int (of_char c) \<noteq> -1"
  by (smt (verit) of_nat_0_le_iff)

lemma fgetc_loop:
  assumes "fp \<noteq> 0"
  shows "script w = file_replies cs @ rest \<Longrightarrow>
    \<exists>w'. repeat_io (fgetc_round fp) () w = Ret () w' \<and> script w' = rest \<and>
      printed (trace w') = printed (trace w) @ map (\<lambda>c. [c]) cs"
proof (induction cs arbitrary: w)
  case Nil
  then have "\<exists>w'. fgetc_round fp () w = Ret (Inr ()) w' \<and> script w' = rest \<and> printed (trace w') = printed (trace w)"
    using assms by (simp add: fgetc_round_def c_fgetc_def file_replies_def leave_def tcp_run)
  then show ?case by (auto dest: repeat_run(2))
next
  case (Cons c cs)
  then have "\<exists>w1. fgetc_round fp () w = Ret (Inl ()) w1 \<and> script w1 = file_replies cs @ rest \<and>
      printed (trace w1) = printed (trace w) @ [[c]]"
    using assms by (simp add: fgetc_round_def c_fgetc_def file_replies_def byte_def tcp_run)
  then obtain w1 where w1: "fgetc_round fp () w = Ret (Inl ()) w1" "script w1 = file_replies cs @ rest"
    "printed (trace w1) = printed (trace w) @ [[c]]" by blast
  from w1(2) Cons.prems have "length (script w1) < length (script w)" by (simp add: file_replies_def)
  with Cons.IH [OF w1(2)] w1(3) repeat_run(1) [of "fgetc_round fp", OF w1(1)] show ?case by simp
qed

text \<open>\<open>hardlink\<close> stops at the first byte 255.\<close>

lemma signed_char_simps [simp]:
  "byte_char (signed_char (int (of_char c))) = c"
  "signed_char (int (of_char c)) = -1 \<longleftrightarrow> c = CHR 0xFF"
  "signed_char (-1) = -1"
proof -
  have c: "(of_char c :: nat) < 256" by simp
  then have m: "int (of_char c) mod 256 = int (of_char c)" by (intro mod_pos_pos_trivial) simp_all
  have "byte_char (signed_char (int (of_char c))) = byte_char (int (of_char c))"
    using c m by (auto simp: byte_char_def signed_char_def Let_def mod_diff_right_eq)
  then show "byte_char (signed_char (int (of_char c))) = c" by simp
  have "of_char (CHR 0xFF) = (255 :: nat)" by simp
  then have "(of_char c :: nat) = 255 \<longleftrightarrow> c = CHR 0xFF" by (metis (no_types) of_char_eq_iff)
  moreover have "signed_char (int (of_char c)) = -1 \<longleftrightarrow> (of_char c :: nat) = 255"
    using c unfolding signed_char_def Let_def m by (simp del: of_char_eq_iff)
  ultimately show "signed_char (int (of_char c)) = -1 \<longleftrightarrow> c = CHR 0xFF" by simp
qed (simp add: signed_char_def)

lemma hardlink_round_run:
  "hardlink_round fp (-1) w = Ret (Inr ()) w"
  "fp \<noteq> 0 \<Longrightarrow> x \<noteq> CHR 0xFF \<Longrightarrow> script w = took v # rs \<Longrightarrow>
   \<exists>w'. hardlink_round fp (signed_char (int (of_char x))) w = Ret (Inl (signed_char v)) w' \<and> script w' = rs \<and>
     printed (trace w') = printed (trace w) @ [[x]]"
  by (simp_all add: hardlink_round_def c_fgetc_def leave_def go_def sysi_def bnd_def call_def norm_reply_def took_def Let_def)

text \<open>The replies to \<open>fgetc\<close> that \<open>hardlink\<close> takes for the end.\<close>

definition looks_like_end :: "int \<Rightarrow> bool" where
  "looks_like_end v \<longleftrightarrow> v = -1 \<or> v = 255"

lemma signed_char_end: "looks_like_end v \<Longrightarrow> signed_char v = -1"
  by (auto simp: looks_like_end_def signed_char_def)

lemma hardlink_loop:
  assumes "fp \<noteq> 0" "looks_like_end v"
  shows "script w = map byte cs @ took v # rest \<Longrightarrow> CHR 0xFF \<notin> set (x # cs) \<Longrightarrow>
    \<exists>w'. repeat_io (hardlink_round fp) (signed_char (int (of_char x))) w = Ret () w' \<and> script w' = rest \<and>
      printed (trace w') = printed (trace w) @ map (\<lambda>c. [c]) (x # cs)"
proof (induction cs arbitrary: w x)
  case Nil
  with hardlink_round_run(2) [OF assms(1), of x w v rest] signed_char_end [OF assms(2)] obtain w1
    where w1: "hardlink_round fp (signed_char (int (of_char x))) w = Ret (Inl (-1)) w1" "script w1 = rest"
      "printed (trace w1) = printed (trace w) @ [[x]]" by auto
  with repeat_run(1) [of "hardlink_round fp", OF w1(1)]
    repeat_run(2) [of "hardlink_round fp", OF hardlink_round_run(1), of w1] Nil show ?case by simp
next
  case (Cons c cs)
  with hardlink_round_run(2) [OF assms(1), of x w "int (of_char c)" "map byte cs @ took v # rest"]
  obtain w1 where w1: "hardlink_round fp (signed_char (int (of_char x))) w = Ret (Inl (signed_char (int (of_char c)))) w1"
    "script w1 = map byte cs @ took v # rest" "printed (trace w1) = printed (trace w) @ [[x]]"
    by (auto simp: byte_def)
  with repeat_run(1) [of "hardlink_round fp", OF w1(1)] Cons.IH [OF w1(2), of c] Cons.prems
  show ?case by auto
qed

text \<open>From the first \<open>fgetc\<close> on.\<close>

lemma hardlink_text:
  assumes "fp \<noteq> 0" "looks_like_end v" "script w = map byte cs @ took v # rest" "CHR 0xFF \<notin> set cs"
  shows "\<exists>w'. bnd (c_fgetc fp) (\<lambda>c. repeat_io (hardlink_round fp) (signed_char c)) w = Ret () w' \<and>
    script w' = rest \<and> printed (trace w') = printed (trace w) @ map (\<lambda>c. [c]) cs"
proof (cases cs)
  case Nil
  with assms(1,3) repeat_run(2) [of "hardlink_round fp", OF hardlink_round_run(1)] signed_char_end [OF assms(2)]
  show ?thesis by (simp add: c_fgetc_def sysi_def bnd_def call_def Let_def)
next
  case (Cons x xs)
  with assms hardlink_loop [OF assms(1,2), of "log_call (CSys ''fgetc'' [fp]) (byte x) (map byte xs @ took v # rest) w" xs rest x]
  show ?thesis by (simp add: c_fgetc_def sysi_def bnd_def call_def byte_def Let_def)
qed

text \<open>\<open>gets_sample\<close> stores the line, or stores behind the array.\<close>

lemma gets_round_run:
  "script w = took e # rest \<Longrightarrow> e = 10 \<or> e = -1 \<Longrightarrow>
   \<exists>w'. gets_round cap stored w = Ret (Inr (e, stored)) w' \<and> script w' = rest \<and> printed (trace w') = printed (trace w)"
  "script w = byte c # rest \<Longrightarrow> c \<noteq> LF \<Longrightarrow> length stored < cap \<Longrightarrow>
   \<exists>w'. gets_round cap stored w = Ret (Inl (stored @ [c])) w' \<and> script w' = rest \<and> printed (trace w') = printed (trace w)"
  "script w = byte c # rest \<Longrightarrow> c \<noteq> LF \<Longrightarrow> \<not> length stored < cap \<Longrightarrow>
   \<exists>w'. gets_round cap stored w = Stop (Fault ''store outside an array'') w'"
proof -
  have "of_char LF = (10 :: nat)" by simp
  then have "(of_char c :: nat) = 10 \<longleftrightarrow> c = LF" by (metis (no_types) of_char_eq_iff)
  then have "int (of_char c) = 10 \<longleftrightarrow> c = LF" by (simp del: of_char_eq_iff)
  then show
    "script w = took e # rest \<Longrightarrow> e = 10 \<or> e = -1 \<Longrightarrow>
     \<exists>w'. gets_round cap stored w = Ret (Inr (e, stored)) w' \<and> script w' = rest \<and> printed (trace w') = printed (trace w)"
    "script w = byte c # rest \<Longrightarrow> c \<noteq> LF \<Longrightarrow> length stored < cap \<Longrightarrow>
     \<exists>w'. gets_round cap stored w = Ret (Inl (stored @ [c])) w' \<and> script w' = rest \<and> printed (trace w') = printed (trace w)"
    "script w = byte c # rest \<Longrightarrow> c \<noteq> LF \<Longrightarrow> \<not> length stored < cap \<Longrightarrow>
     \<exists>w'. gets_round cap stored w = Stop (Fault ''store outside an array'') w'"
    by (simp_all add: gets_round_def leave_def go_def sysi_def bnd_def call_def norm_reply_def took_def byte_def Let_def)
qed

lemma gets_loop:
  assumes "e = 10 \<or> e = -1"
  shows "script w = map byte line @ took e # rest \<Longrightarrow> LF \<notin> set line \<Longrightarrow> length stored \<le> cap \<Longrightarrow>
    if length stored + length line \<le> cap
    then \<exists>w'. repeat_io (gets_round cap) stored w = Ret (e, stored @ line) w' \<and> script w' = rest \<and>
      printed (trace w') = printed (trace w)
    else \<exists>w'. repeat_io (gets_round cap) stored w = Stop (Fault ''store outside an array'') w'"
proof (induction line arbitrary: w stored)
  case Nil
  with gets_round_run(1) [of w e rest cap stored] assms repeat_run(2) [of "gets_round cap" stored w]
  show ?case by fastforce
next
  case (Cons c line)
  show ?case
  proof (cases "length stored < cap")
    case True
    with gets_round_run(2) [of w c "map byte line @ took e # rest" stored cap] Cons.prems obtain w1
      where w1: "gets_round cap stored w = Ret (Inl (stored @ [c])) w1" "script w1 = map byte line @ took e # rest"
        "printed (trace w1) = printed (trace w)" by auto
    with repeat_run(1) [of "gets_round cap", OF w1(1)] Cons.IH [OF w1(2), of "stored @ [c]"] Cons.prems True
    show ?thesis by auto
  next
    case False
    with gets_round_run(3) [of w c "map byte line @ took e # rest" stored cap] Cons.prems
      repeat_run(3) [of "gets_round cap" stored w]
    show ?thesis by fastforce
  qed
qed

section \<open>Properties\<close>

text \<open>
  The factor programs read a positive number \<open>n\<close> and print its divisors, each once, in increasing
  order; \<open>myFactors\<close> leaves out \<open>n\<close> itself.  For the largest \<open>int\<close> the loops of the other two
  overflow.
\<close>

theorem factor_programs:
  assumes "script w = got_bytes (show_int n @ LF # input) # rest" "0 < n" "n \<le> INT_MAX" "errno w \<noteq> ERANGE"
  shows "set (divisors n) = {i. 0 < i \<and> i dvd n} \<and> sorted (divisors n) \<and> distinct (divisors n)"
    and "if n = INT_MAX then \<exists>w'. factors w = Stop (Fault ''signed overflow'') w'
      else \<exists>w'. factors w = Ret 0 w' \<and> printed (trace w') = printed (trace w) @
        [''Enter a positive integer: '', ''Factors of '' @ show_int n @ '' are: ''] @ shown (divisors n)"
    and "\<exists>w'. myFactors w = Ret 0 w' \<and> printed (trace w') = printed (trace w) @
        [''Enter a positive integer: ''] @ shown (filter (\<lambda>i. i < n) (divisors n)) @ [[LF]]"
    and "if n = INT_MAX then \<exists>w'. midterm_factors w = Stop (Fault ''signed overflow'') w'
      else \<exists>w'. midterm_factors w = Ret 0 w' \<and> printed (trace w') = printed (trace w) @
        [''Enter an integer to find the factors of: ''] @ shown (divisors n) @ [[LF]]"
proof -
  have n: "in_int32 n" using assms(2,3) by (simp add: in_int32_def INT_MIN_def)
  note read = scanf_int_run [OF _ n, of _ input rest]
  show "set (divisors n) = {i. 0 < i \<and> i dvd n} \<and> sorted (divisors n) \<and> distinct (divisors n)"
    using divisors_all assms(2) by blast
  obtain w1 where w1: "scanf_int None (log_act (AOut ''Enter a positive integer: '') w) = Ret (Some n) w1"
    "printed (trace w1) = printed (trace w) @ [''Enter a positive integer: '']"
    using read [of "log_act (AOut ''Enter a positive integer: '') w" None] assms(1) by auto
  show "if n = INT_MAX then \<exists>w'. factors w = Stop (Fault ''signed overflow'') w'
      else \<exists>w'. factors w = Ret 0 w' \<and> printed (trace w') = printed (trace w) @
        [''Enter a positive integer: '', ''Factors of '' @ show_int n @ '' are: ''] @ shown (divisors n)"
    using print_factors_run [of n "[1..n]" "if n = INT_MAX then c_fault ''signed overflow'' else ret 0"
        "log_act (AOut (''Factors of '' @ show_int n @ '' are: '')) w1"] w1
    by (auto simp: factors_def bnd_def need_def divisors_def)
  have "filter (\<lambda>i. i dvd n) [1..n - 1] = filter (\<lambda>i. i < n) (divisors n)"
    using upto_split2 [of 1 n n] assms(2) by (auto simp: divisors_def upto_rec2 intro!: filter_cong)
  then show "\<exists>w'. myFactors w = Ret 0 w' \<and> printed (trace w') = printed (trace w) @
        [''Enter a positive integer: ''] @ shown (filter (\<lambda>i. i < n) (divisors n)) @ [[LF]]"
    using print_factors_run [of n "[1..n - 1]" "thn (c_print [LF]) (ret 0)" w1] w1
    by (auto simp: myFactors_def bnd_def need_def)
  obtain w2 where w2:
    "scanf_int (Some 0) (log_act (AOut ''Enter an integer to find the factors of: '') w) = Ret (Some n) w2"
    "errno w2 = errno w" "printed (trace w2) = printed (trace w) @ [''Enter an integer to find the factors of: '']"
    using read [of "log_act (AOut ''Enter an integer to find the factors of: '') w" "Some 0"] assms(1) by auto
  show "if n = INT_MAX then \<exists>w'. midterm_factors w = Stop (Fault ''signed overflow'') w'
      else \<exists>w'. midterm_factors w = Ret 0 w' \<and> printed (trace w') = printed (trace w) @
        [''Enter an integer to find the factors of: ''] @ shown (divisors n) @ [[LF]]"
    using print_factors_run [of n "[1..n]"
        "if n = INT_MAX then c_fault ''signed overflow'' else thn (c_print [LF]) (ret 0)" w2] w2 assms(2,4)
    by (auto simp: midterm_factors_def bnd_def need_def divisors_def get_errno_def)
qed

text \<open>
  \<open>q7\<close> prints the power of two, which fits an \<open>int\<close> for every argument it accepts.  \<open>factorial\<close>
  is exact up to 20 and overflows a \<open>long\<close> for every larger argument, which \<open>main\<close> does not test.
\<close>

theorem powers_and_factorials:
  "(case power_of_two argv w of
      Ret r w' \<Rightarrow> \<exists>n. r = 0 \<and> length argv = 2 \<and> n = atoi (argv ! 1) \<and> 0 \<le> n \<and> n \<le> 30 \<and>
        printed (trace w') = printed (trace w) @ [''2^'' @ show_int n @ '' = '' @ show_int (2 ^ nat n) @ [LF]]
    | Stop s w' \<Rightarrow> s = Exited 1 \<and> printed (trace w') = printed (trace w)) \<and>
   factorial n k = (if n \<le> 20 then k (fact (nat n)) else c_fault ''signed overflow'')"
proof (rule conjI, goal_cases)
  case 1
  show ?case
  proof (cases "length argv = 2 \<and> 0 \<le> atoi (argv ! 1) \<and> atoi (argv ! 1) \<le> 30")
    case True
    then show ?thesis by (simp add: power_of_two_def Let_def power_of_two_bound)
  next
    case False
    then show ?thesis by (auto simp: power_of_two_def Let_def c_eprint_def EXIT_FAILURE_def)
  qed
qed (rule factorial_run)

text \<open>
  \<open>q13\<close>: a child writes the square of its number into the pipe, four bytes, and the parent that
  reads what the two children have written prints the difference of the squares.
\<close>

theorem squares_subtracted:
  assumes "script w = p # took c1 # took c1 # got_bytes (int_bytes (a * a)) #
      took c2 # took c2 # got_bytes (int_bytes (b * b)) # rest"
    and "0 \<le> rv p" "0 < c1" "0 < c2" "\<bar>a\<bar> \<le> 100" "\<bar>b\<bar> \<le> 100"
  shows "(\<exists>w'. squares [name, show_int a, show_int b] w = Ret 0 w' \<and>
      printed (trace w') = printed (trace w) @ [''Result = '' @ show_int (a * a - b * b) @ [LF]]) \<and>
    (case (square_child fd1 a :: int io) v of
      Ret _ _ \<Rightarrow> False
    | Stop s v' \<Rightarrow> \<exists>t. trace v' = trace v @ t \<and>
        (blocked s \<and> t = [] \<or> s = Exited 0 \<and> writes t = [(fd1, int_bytes (a * a))]))"
proof -
  have square: "in_int32 (x * x)" if "\<bar>x\<bar> \<le> 100" for x :: int
  proof -
    have "x * x \<le> 100 * 100" using mult_mono [OF that that] by (simp add: abs_mult_self_eq)
    moreover have "0 \<le> x * x" by simp
    ultimately show ?thesis unfolding in_int32_def INT_MIN_def INT_MAX_def by linarith
  qed
  have ranges: "\<not> a < -100" "\<not> a > 100" "\<not> b < -100" "\<not> b > 100" using assms(5,6) by auto
  note squares = square [OF assms(5)] square [OF assms(6)]
  have ints: "in_int32 a" "in_int32 b" using assms(5,6) by (auto simp: in_int32_def INT_MIN_def INT_MAX_def)
  have "wpt (square_child fd1 a :: int io) (\<lambda>_ _. False)
      (\<lambda>s t. blocked s \<and> t = [] \<or> s = Exited 0 \<and> writes t = [(fd1, int_bytes (a * a))]) []"
    unfolding square_child_def mul_int_def by (intro wpt_write wpt_intros) (simp_all add: squares)
  note child = wpt_case [OF this, of v]
  show ?thesis
  proof (rule conjI, goal_cases)
    case 1
    show ?case
      using assms(1-4)
      by (simp add: ranges squares_def Let_def atoi_show_int ints range_check_def square_of_def bnd_def sysi_def c_read_def
          call_def norm_reply_def took_def got_bytes_def need_def bytes_int_bytes squares say_def)
  next
    case 2
    show ?case using child by (cases "(square_child fd1 a :: int io) v") auto
  qed
qed

theorem squares_subtracted_witness:
  "\<exists>w'. squares [''q13'', show_int 3, show_int (-2)] (world0
       [got_bytes [CHR 0x03, CHR 0x04], took 100, took 100, got_bytes (int_bytes (3 * 3)),
        took 101, took 101, got_bytes (int_bytes ((-2) * (-2)))]) = Ret 0 w' \<and>
     printed (trace w') = [''Result = '' @ show_int 5 @ [LF]]"
  using squares_subtracted [where w = "world0
       [got_bytes [CHR 0x03, CHR 0x04], took 100, took 100, got_bytes (int_bytes (3 * 3)),
        took 101, took 101, got_bytes (int_bytes ((-2) * (-2)))]"
      and p = "got_bytes [CHR 0x03, CHR 0x04]" and a = 3 and b = "-2" and ?c1.0 = 100 and ?c2.0 = 101
      and rest = "[]" and name = "''q13''", THEN conjunct1]
  by (simp add: world0_def got_bytes_def)

text \<open>
  The copy programs have given every byte they read to \<open>write\<close>, in order, and return at the end of
  the input only; while they wait, at most the bytes of the last read are missing.  \<open>fgetc_file\<close>
  prints its file; \<open>hardlink\<close> prints it up to the first byte 255.  \<open>twenty_bytes\<close>
  prints what one read delivered, as text, and is undefined when the read or \<open>calloc\<close> fails.
\<close>

theorem files_shown:
  assumes "fp \<noteq> 0" "script w1 = took fp # file_replies cs @ rest"
    and "script w2 = took 0 # took fp # map byte xs @ took v # took 0 # rest"
    and "CHR 0xFF \<notin> set xs" "looks_like_end v"
  shows "(case copy_stdin cap w of
      Ret n w' \<Rightarrow> \<exists>t. trace w' = trace w @ t \<and> n = 0 \<and> bytes_offered 1 t = bytes_read 0 t \<and> last (read_results 0 t) = 0
    | Stop s w' \<Rightarrow> \<exists>t pending. trace w' = trace w @ t \<and> blocked s \<and>
        bytes_read 0 t = bytes_offered 1 t @ pending \<and> length pending \<le> cap) \<and>
    (\<exists>w'. fgetc_file w1 = Ret 0 w' \<and> concat (printed (trace w')) = concat (printed (trace w1)) @ cs) \<and>
    (\<exists>w'. hardlink w2 = Ret 0 w' \<and> printed (trace w') = printed (trace w2) @
      [''Hard link succeeds'' @ [LF], ''File content:''] @
      map (\<lambda>c. [c]) xs @ [[LF], ''file unlinked'' @ [LF]]) \<and>
    (case twenty_bytes intro w of
      Ret n w' \<Rightarrow> \<exists>t d. trace w' = trace w @ t \<and> n = 0 \<and> reads_of t = [d] \<and> length d \<le> 20 \<and>
        printed t = [''Returned that '' @ show_int (int (length d)) @ '' bytes were read.'' @ [LF], intro @ cstr d @ [LF]]
    | Stop s w' \<Rightarrow> blocked s \<or> exits_1 s \<or> faulted s)"
proof (intro conjI, goal_cases)
  case 1
  then show ?case using wpt_case [OF copy_law [of cap], of w] by (cases "copy_stdin cap w") auto
next
  case 2
  let ?w = "log_call (CFopen ''file.txt'' ''r'') (took fp) (file_replies cs @ rest) w1"
  have "concat (map (\<lambda>c. [c]) cs) = cs" by (induction cs) auto
  with fgetc_loop [OF assms(1), of ?w cs rest] assms(1,2) show ?case
    by (auto simp: fgetc_file_def sysi_def bnd_def call_def norm_reply_def c_fclose_def took_def Let_def)
next
  case 3
  let ?v = "log_act (AOut ''File content:'') (log_call (CFopen ''myhardlink'' ''r'') (took fp)
     (map byte xs @ took v # took 0 # rest)
       (log_act (AOut (''Hard link succeeds'' @ [LF]))
         (log_call (CSys ''link dir/data.txt myhardlink'' []) (took 0)
           (took fp # map byte xs @ took v # took 0 # rest) w2)))"
  from hardlink_text [OF assms(1,5), of ?v xs "took 0 # rest"] assms(4) obtain v'
    where v': "bnd (c_fgetc fp) (\<lambda>c. repeat_io (hardlink_round fp) (signed_char c)) ?v = Ret () v'"
      "script v' = took 0 # rest" "printed (trace v') = printed (trace ?v) @ map (\<lambda>c. [c]) xs" by auto
  with assms(1,3) show ?case
    by (cases "c_fgetc fp ?v") 
      (simp_all add: hardlink_def sysi_def bnd_def call_def say_def c_fclose_def thn_def c_print_def Let_def)
next
  case 4
  then show ?case using wpt_case [OF twenty_bytes_law [of intro], of w] by (cases "twenty_bytes intro w") auto
qed

text \<open>
  The arrays that are too small.  \<open>gets_echo\<close> shows a line of fewer than eight bytes, and a longer
  one is stored past the end of its array, whatever ends the line.  \<open>scan_echo\<close> shows a word of
  fewer than twenty bytes, and a longer one is stored past the end.
\<close>

theorem echo_bounds:
  assumes "script w1 = map byte line @ took e # rest" "e = 10 \<or> e = -1" "LF \<notin> set line" "length buf = 8"
    and "script w2 = got_bytes (word @ after) # rest" "word \<noteq> []" "\<forall>c \<in> set word. \<not> is_space c"
    and "after = [] \<or> is_space (hd after)" "NUL \<notin> set word" "length buffer = 20"
  shows "(if length line < 8
      then \<exists>w'. gets_echo place buf w1 = Ret 0 w' \<and> printed (trace w') = printed (trace w1) @
        [''String copied to location starting at '' @ place @ '' successfully'' @ [LF], cstr line @ [LF]]
      else stops_as (gets_echo place buf w1) (Fault ''store outside an array'')) \<and>
    (if length word < 20
      then \<exists>w'. scan_echo buffer w2 = Ret 0 w' \<and> printed (trace w') = printed (trace w2) @
        [''Call the legitimate function'' @ [LF], ''Enter text:'' @ [LF],
         ''You entered: '' @ [LF] @ word @ [LF], ''Complete the legitimate function'' @ [LF]]
      else stops_as (scan_echo buffer w2) (Fault ''store outside an array''))"
proof (rule conjI, goal_cases)
  case 1
  have loop: "if length line \<le> 8
    then \<exists>w'. repeat_io (gets_round 8) [] w1 = Ret (e, line) w' \<and> script w' = rest \<and> printed (trace w') = printed (trace w1)
    else \<exists>w'. repeat_io (gets_round 8) [] w1 = Stop (Fault ''store outside an array'') w'"
    using gets_loop [OF assms(2,1,3), of "[]" 8] by (auto split: if_splits)
  show ?case
  proof (cases "length line < 8")
    case True
    with loop assms(4) show ?thesis
      by (auto simp: gets_echo_def gets_sample_def bnd_def put_NUL_def print_array_def say_def cstr_put_NUL set_update_memI)
  next
    case False
    with loop assms(4) show ?thesis
      by (cases "length line = 8") (auto simp: gets_echo_def gets_sample_def bnd_def put_NUL_def stops_as_def)
  qed
next
  case 2
  have "dropWhile is_space (word @ after) = word @ after" using assms(6,7) by (cases word) auto
  moreover have "takeWhile (\<lambda>c. \<not> is_space c) (word @ after) = word"
    using assms(7,8) by (auto simp: takeWhile_append2 takeWhile_eq_Nil_iff)
  ultimately have long: "\<not> length word < 20 \<Longrightarrow> sscanf [Str 20] (word @ after) = ([], Overflow)"
    using assms(6) by (simp add: sscanf.simps)
  have "NUL \<in> set (overwrite (word @ [NUL]) buffer)" "cstr (overwrite (word @ [NUL]) buffer) = word"
    using cstr_text [OF assms(9)] by (simp_all add: overwrite_def)
  then show ?case
    using sscanf_Str_word [OF assms(6,7) _ assms(8), of 20 "[]"] assms(5) long
    by (cases "length word < 20")
      (simp_all add: scan_echo_def bnd_def call_def say_def print_array_def got_bytes_def stops_as_def Let_def)
qed

theorem echo_bounds_witness:
  "stops_as (gets_echo ''0x7ffe'' (replicate 8 NUL) (world0 (map byte ''12345678'' @ [took 10])))
     (Fault ''store outside an array'')"
  using echo_bounds [of "world0 (map byte ''12345678'' @ [took 10])" "''12345678''" 10 "[]" "replicate 8 NUL"
      "world0 [got_bytes ''abc'']" "''abc''" "[]" "replicate 20 NUL" "''0x7ffe''"]
  by (simp add: world0_def is_space_def)

end
