(* ===== verification/Small_Processes.thy ===== *)
theory Small_Processes
  imports Small_Programs Err_Reports
begin

text \<open>
  Small programs around processes and hosts: \<open>fork\<close> and \<open>exec\<close> (\<^verbatim>\<open>Lecture3/fork\<close>, \<^verbatim>\<open>myFork\<close>,
  \<^verbatim>\<open>Lecture7/fork_example\<close>, \<^verbatim>\<open>fork_and_exec\<close>, \<^verbatim>\<open>wait_example\<close>, \<^verbatim>\<open>zombie_process\<close>), exit handlers
  (\<^verbatim>\<open>atexit_example\<close>), arguments and environment (\<^verbatim>\<open>echoarg\<close>, \<^verbatim>\<open>printenv\<close>), the first versions of the
  greeting (\<^verbatim>\<open>Lecture4/hellomsg\<close> and the client of \<^verbatim>\<open>hellomsg copy\<close>), \<^verbatim>\<open>Lecture4/chdir\<close>, and the lookup of
  hosts (\<^verbatim>\<open>Lecture5/gethostinfo\<close>, \<^verbatim>\<open>Lecture6/getaddrinfo/main.c\<close>).

  A process is the program as run with the reply that \<open>fork\<close> gave it.  The resolver of host names
  is a parameter.
\<close>

section \<open>Processes\<close>

definition spawn :: "string \<Rightarrow> string list \<Rightarrow> (int \<Rightarrow> 'a io) \<Rightarrow> 'a io" where
  "spawn program arg_list k =
     bnd (sysi CFork) (\<lambda>child_pid.
     if child_pid \<noteq> 0 then k child_pid
     else
       bnd (sysi (CSys (''execvp '' @ program @ concat (map (\<lambda>a. '' '' @ a) arg_list)) [])) (\<lambda>rc.
       if rc = -1 then thn (c_eprint (''an error occurred in execvp'' @ [LF])) c_abort
       else halt (Replaced program)))"

definition ls_args :: "string list" where "ls_args = [''ls'', ''-l'', ''/'']"

definition fork_and_exec :: "int io" where
  "fork_and_exec = spawn ''ls'' ls_args (\<lambda>_. thn (say ''done with main program'') (ret 0))"

text \<open>
  The reply to \<open>wait\<close> carries the four bytes of the status, which is indeterminate when \<open>wait\<close>
  fails.
\<close>

definition exit_text :: "int \<Rightarrow> string" where
  "exit_text status =
     (if status mod 128 = 0 then
        ''the child process exited normally, with exit code '' @ show_int (status div 256 mod 256) @ ''.''
      else ''the child process exited abnormally.'')"

definition wait_example :: "int io" where
  "wait_example =
     thn (say ''print in parent process before calling spawn.'') (
     spawn ''ls'' ls_args (\<lambda>_.
     bnd (call (CSys ''wait'' [])) (\<lambda>r.
     need (if rv r < 0 then None else Some (bytes_int (dat r))) (\<lambda>child_status.
     seqs [say (exit_text child_status), say ''done with the main program.''] (ret 0)))))"

definition say_pid :: "string \<Rightarrow> string \<Rightarrow> string \<Rightarrow> unit io" where
  "say_pid which before after = bnd (sysi (CSys which [])) (\<lambda>pid. say (before @ show_int pid @ after))"

definition lecture3_fork :: "int io" where
  "lecture3_fork =
     thn (say_pid ''getpid'' ''the main program process ID is '' []) (
     bnd (sysi CFork) (\<lambda>child_pid.
     if child_pid \<noteq> 0 then
       seqs [say_pid ''getpid'' ''this is the parent process, with id '' [],
         say (''the child's process ID is '' @ show_int child_pid)] (ret 0)
     else seqs [say_pid ''getpid'' ''this is the child process, with id '' []] (ret 0)))"

definition lecture3_myFork :: "int io" where
  "lecture3_myFork =
     thn (say_pid ''getpid'' ''The main process PID is '' ''.'') (
     bnd (sysi CFork) (\<lambda>pid.
     if pid \<noteq> 0 then
       seqs [say_pid ''getpid'' ''The parent's PID is '' ''.'',
         say (''The child PID is '' @ show_int pid @ ''.'')] (ret 0)
     else seqs [say_pid ''getpid'' ''This is the child process. The PID is '' ''.''] (ret 0)))"

definition fork_example :: "int io" where
  "fork_example =
     thn (say_pid ''getpid'' ''the main program process ID is '' []) (
     bnd (sysi CFork) (\<lambda>pid.
     if pid \<noteq> 0 then
       seqs [act (ASys ''sleep'' [1]), say_pid ''getpid'' ''this is the parent process, with id '' [],
         say (''the child's process ID is '' @ show_int pid)] (ret 0)
     else
       seqs [say (''This value should be 0: '' @ show_int pid),
         say_pid ''getpid'' ''this is the child process, with id '' [], say_pid ''getppid'' ''My parent pid is '' []] (ret 0)))"

definition zombie_process :: "int io" where
  "zombie_process =
     bnd (sysi CFork) (\<lambda>child_pid.
     if child_pid > 0 then thn (act (ASys ''sleep'' [60])) (ret 0) else c_exit 0)"

section \<open>Exit handlers\<close>

text \<open>
  \<open>exit\<close> and the return from \<open>main\<close> run the handlers, the last one registered first; each handler
  prints a line.
\<close>

definition exit_with :: "string list \<Rightarrow> int \<Rightarrow> 'a io" where
  "exit_with handlers n = seqs (map say (rev handlers)) (c_exit n)"

definition register :: "string \<Rightarrow> string \<Rightarrow> string list \<Rightarrow> (string list \<Rightarrow> 'a io) \<Rightarrow> 'a io" where
  "register handler complaint handlers k =
     bnd (sysi (CSys ''atexit'' [])) (\<lambda>rc.
     if rc \<noteq> 0 then thn (c_perror complaint) (exit_with handlers 1) else k (handlers @ [handler]))"

definition my_exit1 :: string where "my_exit1 = ''first exit handler''"
definition my_exit2 :: string where "my_exit2 = ''second exit handler''"

definition atexit_example :: "int io" where
  "atexit_example =
     register my_exit2 ''can't register my_exit2'' [] (\<lambda>hs.
     register my_exit1 ''can't register my_exit1'' hs (\<lambda>hs.
     register my_exit1 ''can't register my_exit1'' hs (\<lambda>hs.
     thn (say ''main is done'') (exit_with hs 0))))"

section \<open>Arguments and environment\<close>

definition echoarg :: "string list \<Rightarrow> int io" where
  "echoarg argv =
     seqs (map (\<lambda>(i, a). say (''argv['' @ show_int (int i) @ '']:'' @ a)) (enumerate 0 argv)) (c_exit 0)"

definition getenv :: "string list \<Rightarrow> string \<Rightarrow> string option" where
  "getenv environ name =
     (if name = [] then None
      else map_option (\<lambda>e. drop (length name + 1) e) (find (prefix_of (name @ ''='')) environ))"

definition printenv :: "string list \<Rightarrow> string list \<Rightarrow> int io" where
  "printenv environ argv =
     (if length argv > 1 then
        seqs (map (\<lambda>a. case getenv environ a of
            Some value \<Rightarrow> say (a @ ''='' @ value)
          | None \<Rightarrow> say (a @ '' undefined'')) (tl argv)) (ret 0)
      else seqs (map say environ) (ret 0))"

definition chdir_tmp :: "(int \<Rightarrow> string) \<Rightarrow> int io" where
  "chdir_tmp strerror =
     bnd (sysi (CSys ''chdir /tmp'' [])) (\<lambda>rc.
     if rc < 0 then err_sys strerror ''chdir failed'' else thn (say ''chdir to /tmp succeeded'') (ret 0))"

section \<open>The first greeting programs\<close>

text \<open>The server takes 0 for the failure of \<open>socket\<close>.\<close>

definition first_server :: "int io" where
  "first_server =
     bnd (sysi (CSocket AF_INET SOCK_STREAM 0)) (\<lambda>server_fd.
     if server_fd = 0 then die ''socket failed''
     else
       bnd (sysi (CBind server_fd (htons TCP_PORT))) (\<lambda>rc.
       if rc < 0 then die ''bind failed''
       else
         bnd (sysi (CListen server_fd 1024)) (\<lambda>rc.
         if rc < 0 then die ''listen''
         else
           accept_from server_fd (\<lambda>new_socket address.
           read_into new_socket zeros (\<lambda>valread buffer.
           seqs [print_array [] buffer [LF], send_text new_socket ''Hello from server'', say ''Hello message sent'']
             (ret 0))))))"

definition first_client :: "int io" where
  "first_client =
     client_socket AF_INET (\<lambda>sock.
     text_address AF_INET ''127.0.0.1'' TCP_PORT (\<lambda>serv_addr.
     connect_to sock serv_addr ''Connection Failed '' (
     ask sock ''Hello from client'' ''Hello message sent'' [] (ret 0))))"

text \<open>\<open>sizeof(msg)\<close> is the size of a pointer.\<close>

definition copy_client :: "int io" where
  "copy_client =
     bnd (sysi (CSocket AF_INET SOCK_STREAM 0)) (\<lambda>sock.
     if sock < 0 then die ''Socket failure''
     else
       bnd (call (CSys ''inet_pton 127.0.0.1'' [AF_INET])) (\<lambda>r.
       if rv r \<le> 0 then die ''Invalid address / address not supported''
       else
         bnd (sysi (CConnect sock (sockaddr_in AF_INET TCP_PORT (dat r)))) (\<lambda>rc.
         if rc \<noteq> 0 then die ''Connect error''
         else
           bnd (c_write sock (''Hello from client'' @ [NUL]) 8) (\<lambda>_.
           thn (say ''Hello message sent'') (
           read_into sock zeros (\<lambda>n buffer.
           thn (print_array [] buffer [LF]) (ret 0)))))))"

section \<open>Hosts\<close>

record hostent =
  h_name :: string
  h_aliases :: "string list"
  h_addr_list :: "bytes list"

fun print_addresses :: "(bytes \<Rightarrow> string option) \<Rightarrow> bytes list \<Rightarrow> int io \<Rightarrow> int io" where
  "print_addresses ntop [] k = k"
| "print_addresses ntop (a # as) k =
     (case ntop a of
        None \<Rightarrow> die ''inet_ntop error''
      | Some ip_str \<Rightarrow> thn (say (''address: '' @ ip_str)) (print_addresses ntop as k))"

definition print_host :: "(bytes \<Rightarrow> string option) \<Rightarrow> string \<Rightarrow> string \<Rightarrow> hostent option \<Rightarrow> int io" where
  "print_host ntop caller herror hostp =
     (case hostp of
        None \<Rightarrow> thn (c_eprint (caller @ '' error: '' @ herror @ [LF] @ '':'')) (ret 1)
      | Some h \<Rightarrow>
          thn (say (''official hostname: '' @ h_name h)) (
          seqs (map (\<lambda>a. say (''alias: '' @ a)) (h_aliases h)) (
          print_addresses ntop (h_addr_list h) (ret 0))))"

text \<open>
  \<open>to_addr\<close> and \<open>ntop\<close> are \<open>inet_pton\<close> and \<open>inet_ntop\<close>, or \<open>inet_aton\<close> and \<open>inet_ntoa\<close> in
  \<^verbatim>\<open>main1.c\<close>, whose conversion to text cannot fail.
\<close>

definition gethostinfo ::
  "(string \<Rightarrow> bytes option) \<Rightarrow> (bytes \<Rightarrow> string option) \<Rightarrow> (bytes \<Rightarrow> hostent option) \<Rightarrow>
   (string \<Rightarrow> hostent option) \<Rightarrow> string \<Rightarrow> string list \<Rightarrow> int io" where
  "gethostinfo to_addr ntop byaddr byname herror argv =
     (if length argv \<noteq> 2 then
        thn (c_eprint (''Usage: '' @ hd argv @ '' <domain name or dotted-decimal>'' @ [LF])) (c_exit 1)
      else
        (case to_addr (argv ! 1) of
           Some addr \<Rightarrow> print_host ntop ''gethostbyaddr'' herror (byaddr addr)
         | None \<Rightarrow> print_host ntop ''gethostbyname'' herror (byname (argv ! 1))))"

definition gethostinfo1 ::
  "(string \<Rightarrow> bytes option) \<Rightarrow> (bytes \<Rightarrow> string) \<Rightarrow> (bytes \<Rightarrow> hostent option) \<Rightarrow>
   (string \<Rightarrow> hostent option) \<Rightarrow> string \<Rightarrow> string list \<Rightarrow> int io" where
  "gethostinfo1 aton ntoa byaddr byname herror argv =
     gethostinfo aton (\<lambda>a. Some (ntoa a)) byaddr byname herror argv"

text \<open>
  The addresses \<open>getaddrinfo\<close> finds, each with its family, or the text of its error.  The result
  of \<open>inet_ntop\<close> is not tested: the array keeps the text before, or is indeterminate.
\<close>

fun print_infos :: "(int \<times> bytes \<Rightarrow> string option) \<Rightarrow> string option \<Rightarrow> (int \<times> bytes) list \<Rightarrow> int io \<Rightarrow> int io" where
  "print_infos ntop ipstr [] k = k"
| "print_infos ntop ipstr (p # ps) k =
     (let ipver = (if fst p = AF_INET then ''IPv4'' else ''IPv6'');
          ipstr' = (case ntop p of None \<Rightarrow> ipstr | Some s \<Rightarrow> Some s) in
      need ipstr' (\<lambda>s.
      thn (say ('' '' @ ipver @ '': '' @ s)) (print_infos ntop ipstr' ps k)))"

definition getaddrinfo_main ::
  "(string \<Rightarrow> string + (int \<times> bytes) list) \<Rightarrow> (int \<times> bytes \<Rightarrow> string option) \<Rightarrow> string list \<Rightarrow> int io" where
  "getaddrinfo_main resolve ntop argv =
     (if length argv < 2 then
        thn (c_eprint (''Usage: '' @ hd argv @ '' <domain name or dotted-decimal>'' @ [LF])) (c_exit 1)
      else
        (case resolve (argv ! 1) of
           Inl e \<Rightarrow> thn (c_eprint (''getaddrinfo error: '' @ e @ [LF])) (c_exit 1)
         | Inr res \<Rightarrow>
             thn (say (''IP addresses for '' @ argv ! 1 @ '':'' @ [LF])) (
             print_infos ntop None res (thn (act AFreeaddrinfo) (ret 0)))))"

section \<open>Laws\<close>

fun forks :: "entry list \<Rightarrow> int list" where
  "forks [] = []"
| "forks (Sys CFork r # t) = rv r # forks t"
| "forks (_ # t) = forks t"

text \<open>A child of \<open>spawn\<close>: another program, or aborted.\<close>

definition spawned :: "stop \<Rightarrow> entry list \<Rightarrow> bool" where
  "spawned s t \<longleftrightarrow> forks t = [0] \<and> (s = Replaced ''ls'' \<or> s = Aborted)"

lemma fork_and_exec_law:
  "wpt fork_and_exec
     (\<lambda>n t. n = 0 \<and> (\<exists>p. p \<noteq> 0 \<and> forks t = [p]) \<and> printed t = [''done with main program'' @ [LF]])
     (\<lambda>s t. printed t = [] \<and> (blocked s \<or> spawned s t)) []"
  unfolding fork_and_exec_def spawn_def by (intro ipc_intros) (auto simp: spawned_def)

lemma wait_example_law:
  "wpt wait_example
     (\<lambda>n t. n = 0 \<and> (\<exists>p. p \<noteq> 0 \<and> forks t = [p]) \<and> (\<exists>status. printed t =
        [''print in parent process before calling spawn.'' @ [LF], exit_text status @ [LF], ''done with the main program.'' @ [LF]]))
     (\<lambda>s t. blocked s \<or> spawned s t \<or> faulted s \<and> (\<exists>p. p \<noteq> 0 \<and> forks t = [p])) []"
  unfolding wait_example_def spawn_def seqs_simps by (intro ipc_intros) (auto simp: spawned_def split: if_splits)

lemma atexit_example_law:
  "wpt atexit_example (\<lambda>_ _. False)
     (\<lambda>s t. blocked s \<and> printed t = [] \<or>
        s = Exited 0 \<and> printed t = map (\<lambda>l. l @ [LF]) [''main is done'', my_exit1, my_exit1, my_exit2] \<or>
        s = Exited 1 \<and> printed t \<in> {[], [my_exit2 @ [LF]], [my_exit1 @ [LF], my_exit2 @ [LF]]}) []"
  unfolding atexit_example_def register_def exit_with_def append.simps rev.simps list.map seqs_simps
  by (intro ipc_intros) auto

lemma first_server_law: "answers_once ''Hello from server'' first_server"
  unfolding first_server_def seqs_simps
  by (intro answers_onceI wpt_accept_from tcp_intros length_zeros) (auto simp: answered_def)

lemma first_client_law: "talks ''Hello from client'' [] first_client"
  unfolding first_client_def ask_def seqs_simps
  by (intro talksI client_intros length_zeros; auto simp: talked_def cstr_read)

lemma copy_client_law:
  "wpt copy_client
     (\<lambda>n t. n = 0 \<and> (\<exists>fd. writes t = [(fd, ''Hello fr'')]))
     (\<lambda>s t. blocked s \<or> faulted s \<or> exits_1 s) []"
proof -
  have "c_write sock (''Hello from client'' @ [NUL]) 8 = sysi (CWrite sock ''Hello fr'')" for sock
    by (simp add: c_write_def)
  then show ?thesis
    unfolding copy_client_def by (simp only:) (intro tcp_intros length_zeros; auto)
qed

text \<open>Lines printed by a block.\<close>

lemma says_run: "\<exists>w'. seqs (map (\<lambda>x. say (f x)) xs) k w = k w' \<and> printed (trace w') = printed (trace w) @ map (\<lambda>x. f x @ [LF]) xs"
proof (induction xs arbitrary: w)
  case (Cons x xs)
  from Cons [of "log_act (AOut (f x @ [LF])) w"] show ?case by (auto simp: say_def)
qed auto

lemma print_addresses_run:
  assumes "\<forall>a \<in> set as. ntop a = Some (text_of a)"
  shows "\<exists>w'. print_addresses ntop as k w = k w' \<and>
    printed (trace w') = printed (trace w) @ map (\<lambda>a. ''address: '' @ text_of a @ [LF]) as"
  using assms
proof (induction "as" arbitrary: w)
  case (Cons a "as")
  from Cons.IH [of "log_act (AOut (''address: '' @ text_of a @ [LF])) w"] Cons.prems
  show ?case by (auto simp: say_def)
qed auto

section \<open>Properties\<close>

text \<open>
  The process that calls \<open>spawn\<close> goes on when \<open>fork\<close> gave it a number other than 0, also when
  \<open>fork\<close> failed, and prints its texts; the process that got 0 runs the program or aborts, and never
  goes on.  \<open>wait_example\<close> looks at an indeterminate status when \<open>wait\<close> fails.
\<close>

theorem spawning:
  "(case fork_and_exec w of
      Ret n w' \<Rightarrow> \<exists>t p. trace w' = trace w @ t \<and> n = 0 \<and> p \<noteq> 0 \<and> forks t = [p] \<and>
        printed t = [''done with main program'' @ [LF]]
    | Stop s w' \<Rightarrow> \<exists>t. trace w' = trace w @ t \<and> printed t = [] \<and> (blocked s \<or> spawned s t)) \<and>
   (case wait_example w of
      Ret n w' \<Rightarrow> \<exists>t p status. trace w' = trace w @ t \<and> n = 0 \<and> p \<noteq> 0 \<and> forks t = [p] \<and> printed t =
        [''print in parent process before calling spawn.'' @ [LF], exit_text status @ [LF], ''done with the main program.'' @ [LF]]
    | Stop s w' \<Rightarrow> \<exists>t. trace w' = trace w @ t \<and>
        (blocked s \<or> spawned s t \<or> faulted s \<and> (\<exists>p. p \<noteq> 0 \<and> forks t = [p])))"
proof (rule conjI, goal_cases)
  case 1
  then show ?case using wpt_case [OF fork_and_exec_law, of w] by (cases "fork_and_exec w") auto
next
  case 2
  then show ?case using wpt_case [OF wait_example_law, of w] by (cases "wait_example w") auto
qed

text \<open>
  The exit handlers run in the reverse of the order of their registration, a handler registered
  twice runs twice, and they run as well when the program exits because a registration failed.
\<close>

theorem exit_handlers_reversed:
  "case atexit_example w of
     Ret _ _ \<Rightarrow> False
   | Stop s w' \<Rightarrow> \<exists>t. trace w' = trace w @ t \<and>
       (blocked s \<and> printed t = [] \<or>
        s = Exited 0 \<and> printed t = map (\<lambda>l. l @ [LF]) [''main is done'', my_exit1, my_exit1, my_exit2] \<or>
        s = Exited 1 \<and> printed t \<in> {[], [my_exit2 @ [LF]], [my_exit1 @ [LF], my_exit2 @ [LF]]})"
  using wpt_case [OF atexit_example_law, of w] by (cases "atexit_example w") (simp_all del: insert_iff)

text \<open>
  The first greeting programs behave as the later ones do; the client of \<open>hellomsg copy\<close> sends
  the first eight bytes of its message.
\<close>

theorem first_greetings:
  "answers_once ''Hello from server'' first_server \<and> talks ''Hello from client'' [] first_client \<and>
   (case copy_client w of
      Ret n w' \<Rightarrow> \<exists>t fd. trace w' = trace w @ t \<and> n = 0 \<and> writes t = [(fd, take 8 ''Hello from client'')]
    | Stop s w' \<Rightarrow> blocked s \<or> faulted s \<or> exits_1 s)"
proof (intro conjI first_server_law first_client_law)
  show "case copy_client w of
      Ret n w' \<Rightarrow> \<exists>t fd. trace w' = trace w @ t \<and> n = 0 \<and> writes t = [(fd, take 8 ''Hello from client'')]
    | Stop s w' \<Rightarrow> blocked s \<or> faulted s \<or> exits_1 s"
    using wpt_case [OF copy_client_law, of w] by (cases "copy_client w") auto
qed

text \<open>
  \<open>gethostinfo\<close> looks an address up by address and anything else by name, and prints the name, the
  aliases and the addresses of the host in the order of the resolver; \<open>echoarg\<close> prints every
  argument with its number, and \<open>printenv\<close> without arguments every variable.
\<close>

theorem hosts_and_arguments_printed:
  assumes "length argv = 2"
    and "(case to_addr (argv ! 1) of Some a \<Rightarrow> byaddr a | None \<Rightarrow> byname (argv ! 1)) = Some h"
    and "\<forall>a \<in> set (h_addr_list h). ntop a = Some (text_of a)"
  shows "\<exists>w'. gethostinfo to_addr ntop byaddr byname herror argv w = Ret 0 w' \<and>
      printed (trace w') = printed (trace w) @ [''official hostname: '' @ h_name h @ [LF]] @
        map (\<lambda>a. ''alias: '' @ a @ [LF]) (h_aliases h) @
        map (\<lambda>a. ''address: '' @ text_of a @ [LF]) (h_addr_list h)"
    and "\<exists>w'. echoarg argv w = Stop (Exited 0) w' \<and> printed (trace w') = printed (trace w) @
      map (\<lambda>(i, a). ''argv['' @ show_int (int i) @ '']:'' @ a @ [LF]) (enumerate 0 argv)"
    and "\<exists>w'. printenv environ [name] w = Ret 0 w' \<and> printed (trace w') = printed (trace w) @ map (\<lambda>v. v @ [LF]) environ"
proof -
  have host: "\<exists>w'. print_host ntop f e (Some h) w = Ret 0 w' \<and>
      printed (trace w') = printed (trace w) @ [''official hostname: '' @ h_name h @ [LF]] @
        map (\<lambda>a. ''alias: '' @ a @ [LF]) (h_aliases h) @
        map (\<lambda>a. ''address: '' @ text_of a @ [LF]) (h_addr_list h)" for f e
  proof -
    let ?w = "log_act (AOut (''official hostname: '' @ h_name h @ [LF])) w"
    obtain v where v: "seqs (map (\<lambda>a. say (''alias: '' @ a)) (h_aliases h)) (print_addresses ntop (h_addr_list h) (ret 0)) ?w
        = print_addresses ntop (h_addr_list h) (ret 0) v"
      "printed (trace v) = printed (trace ?w) @ map (\<lambda>a. ''alias: '' @ a @ [LF]) (h_aliases h)"
      using says_run [of "\<lambda>a. ''alias: '' @ a" "h_aliases h" "print_addresses ntop (h_addr_list h) (ret 0)" ?w] by auto
    with print_addresses_run [OF assms(3), of "ret 0" v] show ?thesis by (auto simp: print_host_def say_def)
  qed
  with assms(1,2) show "\<exists>w'. gethostinfo to_addr ntop byaddr byname herror argv w = Ret 0 w' \<and>
      printed (trace w') = printed (trace w) @ [''official hostname: '' @ h_name h @ [LF]] @
        map (\<lambda>a. ''alias: '' @ a @ [LF]) (h_aliases h) @
        map (\<lambda>a. ''address: '' @ text_of a @ [LF]) (h_addr_list h)"
    by (cases "to_addr (argv ! 1)") (auto simp: gethostinfo_def)
  show "\<exists>w'. echoarg argv w = Stop (Exited 0) w' \<and> printed (trace w') = printed (trace w) @
      map (\<lambda>(i, a). ''argv['' @ show_int (int i) @ '']:'' @ a @ [LF]) (enumerate 0 argv)"
    using says_run [of "\<lambda>(i, a). ''argv['' @ show_int (int i) @ '']:'' @ a" "enumerate 0 argv" "c_exit 0" w]
    by (auto simp: echoarg_def case_prod_unfold)
  show "\<exists>w'. printenv environ [name] w = Ret 0 w' \<and> printed (trace w') = printed (trace w) @ map (\<lambda>v. v @ [LF]) environ"
    using says_run [of "\<lambda>v. v" environ "ret 0" w] by (auto simp: printenv_def)
qed

end
