(* ===== verification/Mutex_Sum.thy ===== *)
theory Mutex_Sum
  imports Transition C_String
begin

text \<open>
  \<^verbatim>\<open>src/MidtermPractice/q15/main.c\<close>: five threads add to a global counter under a mutex, thread \<open>k\<close>
  100 + \<open>k\<close> times; \<open>main\<close> joins them and prints the counter.

  A step is a statement; \<open>counter += 1\<close> is a load and a store.  \<open>pthread_create\<close> may fail: \<open>main\<close> then
  prints an error and exits, which ends the threads too.  The other calls succeed.
\<close>

section \<open>The program\<close>

datatype inc_pc = I_test | I_lock | I_load | I_store | I_unlock | I_done

record inc =
  ipc :: inc_pc
  rounds :: nat
  limit :: nat
  loaded :: int

datatype tally_pc = J_create nat | J_join nat | J_print | J_end | J_exit

record tally =
  tally_counter :: int
  tally_mutex :: "nat option"
  incs :: "inc list"
  jpc :: tally_pc
  said :: "string list"

definition new_inc :: "nat \<Rightarrow> inc" where
  "new_inc n = \<lparr>ipc = I_test, rounds = 0, limit = n, loaded = 0\<rparr>"

definition put_inc :: "nat \<Rightarrow> inc \<Rightarrow> tally \<Rightarrow> tally" where
  "put_inc k t s = s\<lparr>incs := (incs s)[k := t]\<rparr>"

definition final_text :: "int \<Rightarrow> string" where
  "final_text c = ''Final value after all updates: '' @ show_int c @ [LF]"

definition create_error :: string where
  "create_error = ''Error creating thread'' @ [LF]"

text \<open>A step of \<open>incrementCounter\<close> in thread \<open>k\<close>, whose state is \<open>t\<close>.\<close>

inductive inc_step :: "nat \<Rightarrow> inc \<Rightarrow> tally \<Rightarrow> tally \<Rightarrow> bool" where
  enter: "ipc t = I_test \<Longrightarrow> rounds t < limit t \<Longrightarrow> inc_step k t s (put_inc k (t\<lparr>ipc := I_lock\<rparr>) s)"
| leave: "ipc t = I_test \<Longrightarrow> \<not> rounds t < limit t \<Longrightarrow> inc_step k t s (put_inc k (t\<lparr>ipc := I_done\<rparr>) s)"
| lock: "ipc t = I_lock \<Longrightarrow> tally_mutex s = None \<Longrightarrow>
    inc_step k t s (put_inc k (t\<lparr>ipc := I_load\<rparr>) (s\<lparr>tally_mutex := Some k\<rparr>))"
| load: "ipc t = I_load \<Longrightarrow>
    inc_step k t s (put_inc k (t\<lparr>ipc := I_store, loaded := tally_counter s\<rparr>) s)"
| store: "ipc t = I_store \<Longrightarrow>
    inc_step k t s (put_inc k (t\<lparr>ipc := I_unlock\<rparr>) (s\<lparr>tally_counter := to_int32 (loaded t + 1)\<rparr>))"
| unlock: "ipc t = I_unlock \<Longrightarrow>
    inc_step k t s (put_inc k (t\<lparr>ipc := I_test, rounds := rounds t + 1\<rparr>) (s\<lparr>tally_mutex := None\<rparr>))"

text \<open>A step of \<open>main\<close>.\<close>

inductive join_step :: "tally \<Rightarrow> tally \<Rightarrow> bool" where
  create: "jpc s = J_create k \<Longrightarrow>
    join_step s (s\<lparr>incs := incs s @ [new_inc (100 + k)], jpc := (if k + 1 < 5 then J_create (k + 1) else J_join 0)\<rparr>)"
| create_fails: "jpc s = J_create k \<Longrightarrow> join_step s (s\<lparr>said := said s @ [create_error], jpc := J_exit\<rparr>)"
| join: "jpc s = J_join k \<Longrightarrow> ipc (incs s ! k) = I_done \<Longrightarrow>
    join_step s (s\<lparr>jpc := (if k + 1 < 5 then J_join (k + 1) else J_print)\<rparr>)"
| print: "jpc s = J_print \<Longrightarrow>
    join_step s (s\<lparr>said := said s @ [final_text (tally_counter s)], jpc := J_end\<rparr>)"

inductive tally_step :: "tally \<Rightarrow> tally \<Rightarrow> bool" where
  inc_moves: "jpc s \<noteq> J_exit \<Longrightarrow> k < length (incs s) \<Longrightarrow> inc_step k (incs s ! k) s s' \<Longrightarrow> tally_step s s'"
| main_moves: "join_step s s' \<Longrightarrow> tally_step s s'"

definition tally_start :: tally where
  "tally_start = \<lparr>tally_counter = 0, tally_mutex = None, incs = [], jpc = J_create 0, said = []\<rparr>"

code_pred (modes: i \<Rightarrow> o \<Rightarrow> bool) join_step .

inductive_cases inc_stepE: "inc_step k t s s'"
inductive_cases tally_stepE: "tally_step s s'"

section \<open>The invariant\<close>

definition holding :: "inc_pc \<Rightarrow> bool" where
  "holding p \<longleftrightarrow> p \<in> {I_load, I_store, I_unlock}"

text \<open>What a thread has added to the counter.\<close>

definition added :: "inc \<Rightarrow> int" where
  "added t = int (rounds t) + (if ipc t = I_unlock then 1 else 0)"

definition inc_ok :: "int \<Rightarrow> nat option \<Rightarrow> nat \<Rightarrow> inc \<Rightarrow> bool" where
  "inc_ok c m j t \<longleftrightarrow>
     limit t = 100 + j \<and> rounds t \<le> limit t \<and> (holding (ipc t) \<longleftrightarrow> m = Some j) \<and>
     (ipc t = I_done \<longrightarrow> rounds t = limit t) \<and>
     (ipc t = I_lock \<or> holding (ipc t) \<longrightarrow> rounds t < limit t) \<and>
     (ipc t = I_store \<longrightarrow> loaded t = c)"

fun main_ok :: "tally_pc \<Rightarrow> inc list \<Rightarrow> string list \<Rightarrow> bool" where
  "main_ok (J_create k) ts out \<longleftrightarrow> k < 5 \<and> length ts = k \<and> out = []"
| "main_ok (J_join k) ts out \<longleftrightarrow> k < 5 \<and> length ts = 5 \<and> (\<forall>j < k. ipc (ts ! j) = I_done) \<and> out = []"
| "main_ok J_print ts out \<longleftrightarrow> length ts = 5 \<and> (\<forall>j < 5. ipc (ts ! j) = I_done) \<and> out = []"
| "main_ok J_end ts out \<longleftrightarrow> length ts = 5 \<and> (\<forall>j < 5. ipc (ts ! j) = I_done) \<and> out = [final_text 510]"
| "main_ok J_exit ts out \<longleftrightarrow> length ts \<le> 5 \<and> out = [create_error]"

definition tally_inv :: "tally \<Rightarrow> bool" where
  "tally_inv s \<longleftrightarrow>
     (\<forall>j < length (incs s). inc_ok (tally_counter s) (tally_mutex s) j (incs s ! j)) \<and>
     (\<forall>j. tally_mutex s = Some j \<longrightarrow> j < length (incs s)) \<and>
     tally_counter s = (\<Sum>t \<leftarrow> incs s. added t) \<and>
     main_ok (jpc s) (incs s) (said s)"

lemma put_inc_fields [simp]:
  "incs (put_inc k t s) = (incs s)[k := t]" "tally_counter (put_inc k t s) = tally_counter s"
  "tally_mutex (put_inc k t s) = tally_mutex s" "jpc (put_inc k t s) = jpc s" "said (put_inc k t s) = said s"
  by (simp_all add: put_inc_def)

lemma main_ok_length: "main_ok p ts out \<Longrightarrow> length ts \<le> 5"
  by (cases p) auto

lemma main_ok_update:
  "main_ok p ts out \<Longrightarrow> k < length ts \<Longrightarrow> ipc (ts ! k) \<noteq> I_done \<Longrightarrow> main_ok p (ts[k := t]) out"
  by (cases p) (auto simp: nth_list_update)

lemma added_bound: "inc_ok c m j t \<Longrightarrow> added t \<le> int (100 + j)"
  by (auto simp: inc_ok_def added_def holding_def)

lemma tally_counter_bound:
  assumes "tally_inv s"
  shows "0 \<le> tally_counter s \<and> tally_counter s \<le> 5 * 105"
proof -
  have len: "length (incs s) \<le> 5" using assms main_ok_length by (auto simp: tally_inv_def)
  have "\<forall>t \<in> set (incs s). 0 \<le> added t \<and> added t \<le> 105"
    using assms len added_bound by (fastforce simp: tally_inv_def in_set_conv_nth added_def)
  then have "0 \<le> (\<Sum>t \<leftarrow> ts. added t) \<and> (\<Sum>t \<leftarrow> ts. added t) \<le> int (length ts) * 105" if "set ts \<subseteq> set (incs s)" for ts
    using that by (induction ts) (auto simp: algebra_simps)
  from this [of "incs s"] len assms show ?thesis by (simp add: tally_inv_def)
qed

lemma tally_inv_start: "tally_inv tally_start"
  by (simp add: tally_inv_def tally_start_def)

text \<open>
  A thread that moves keeps what the invariant says of the others: it changes the mutex by taking or
  releasing it, and the counter only while it holds the mutex.
\<close>

lemma inc_ok_other:
  assumes "inc_ok c m j t" "j \<noteq> k" "m' = m \<or> m = None \<and> m' = Some k \<or> m = Some k \<and> m' = None"
    and "c' = c \<or> m = Some k"
  shows "inc_ok c' m' j t"
  using assms by (auto simp: inc_ok_def holding_def)

lemma tally_inv_put:
  assumes "tally_inv s" "k < length (incs s)" "ipc (incs s ! k) \<noteq> I_done"
    and "m' = tally_mutex s \<or> tally_mutex s = None \<and> m' = Some k \<or> tally_mutex s = Some k \<and> m' = None"
    and "c' = tally_counter s \<or> tally_mutex s = Some k"
    and "inc_ok c' m' k t" "c' = tally_counter s - added (incs s ! k) + added t"
  shows "tally_inv (put_inc k t (s\<lparr>tally_counter := c', tally_mutex := m'\<rparr>))"
proof -
  have ok: "\<forall>j < length (incs s). inc_ok (tally_counter s) (tally_mutex s) j (incs s ! j)"
    and main: "main_ok (jpc s) (incs s) (said s)" and sum: "tally_counter s = (\<Sum>t \<leftarrow> incs s. added t)"
    and held: "\<forall>j. tally_mutex s = Some j \<longrightarrow> j < length (incs s)"
    using assms(1) unfolding tally_inv_def by blast+
  have "inc_ok c' m' j ((incs s)[k := t] ! j)" if "j < length (incs s)" for j
    using inc_ok_other [OF ok [rule_format, OF that] _ assms(4,5)] assms(6) that
    by (cases "j = k") (auto simp: nth_list_update)
  moreover have "\<forall>j. m' = Some j \<longrightarrow> j < length (incs s)" using held assms(2,4) by auto
  ultimately show ?thesis
    using main_ok_update [OF main assms(2,3)] sum_list_update_int [OF assms(2), of added t] sum assms(7)
    by (simp add: tally_inv_def)
qed

lemma same_fields [simp]: "s\<lparr>tally_counter := tally_counter s, tally_mutex := tally_mutex s\<rparr> = s"
  "s\<lparr>tally_counter := tally_counter s, tally_mutex := m\<rparr> = s\<lparr>tally_mutex := m\<rparr>"
  "s\<lparr>tally_counter := c, tally_mutex := tally_mutex s\<rparr> = s\<lparr>tally_counter := c\<rparr>"
  by simp_all

lemma inc_step_inv:
  assumes "tally_inv s" "k < length (incs s)" "inc_step k (incs s ! k) s s'"
  shows "tally_inv s'"
proof -
  let ?t = "incs s ! k"
  have ok: "inc_ok (tally_counter s) (tally_mutex s) k ?t" using assms(1,2) unfolding tally_inv_def by blast
  have incr: "to_int32 (tally_counter s + 1) = tally_counter s + 1"
    using tally_counter_bound [OF assms(1)] by (intro to_int32_id') auto
  note put = tally_inv_put [OF assms(1,2)]
  from assms(3) show ?thesis
  proof (cases rule: inc_step.cases)
    case enter
    with ok have "tally_inv (put_inc k (?t\<lparr>ipc := I_lock\<rparr>) (s\<lparr>tally_counter := tally_counter s, tally_mutex := tally_mutex s\<rparr>))"
      by (intro put) (auto simp: inc_ok_def holding_def added_def)
    with enter show ?thesis by simp
  next
    case leave
    with ok have "tally_inv (put_inc k (?t\<lparr>ipc := I_done\<rparr>) (s\<lparr>tally_counter := tally_counter s, tally_mutex := tally_mutex s\<rparr>))"
      by (intro put) (auto simp: inc_ok_def holding_def added_def)
    with leave show ?thesis by simp
  next
    case lock
    with ok have "tally_inv (put_inc k (?t\<lparr>ipc := I_load\<rparr>) (s\<lparr>tally_counter := tally_counter s, tally_mutex := Some k\<rparr>))"
      by (intro put) (auto simp: inc_ok_def holding_def added_def)
    with lock show ?thesis by simp
  next
    case load
    with ok have "tally_inv (put_inc k (?t\<lparr>ipc := I_store, loaded := tally_counter s\<rparr>)
        (s\<lparr>tally_counter := tally_counter s, tally_mutex := tally_mutex s\<rparr>))"
      by (intro put) (auto simp: inc_ok_def holding_def added_def)
    with load show ?thesis by simp
  next
    case store
    from store ok have "loaded ?t = tally_counter s" by (simp add: inc_ok_def)
    then have s': "s' = put_inc k (?t\<lparr>ipc := I_unlock\<rparr>) (s\<lparr>tally_counter := tally_counter s + 1, tally_mutex := tally_mutex s\<rparr>)"
      using store incr by simp
    show ?thesis
      unfolding s' using store ok by (intro put) (auto simp: inc_ok_def holding_def added_def)
  next
    case unlock
    with ok have "tally_inv (put_inc k (?t\<lparr>ipc := I_test, rounds := rounds ?t + 1\<rparr>)
        (s\<lparr>tally_counter := tally_counter s, tally_mutex := None\<rparr>))"
      by (intro put) (auto simp: inc_ok_def holding_def added_def)
    with unlock show ?thesis by simp
  qed
qed

text \<open>The counter when all threads have returned.\<close>

lemma all_done_sum:
  assumes "\<forall>j < length ts. inc_ok c m j (ts ! j)" "\<forall>j < 5. ipc (ts ! j) = I_done" "length ts = 5"
  shows "(\<Sum>t \<leftarrow> ts. added t) = 510"
proof -
  have a: "added (ts ! j) = 100 + int j" if "j < 5" for j
    using assms that by (auto simp: inc_ok_def added_def)
  have "(\<Sum>t \<leftarrow> ts. added t) = (\<Sum>j < 5. added (ts ! j))"
    using assms(3) by (simp add: sum_list_sum_nth atLeast0LessThan)
  also have "\<dots> = (\<Sum>j < 5. 100 + int j)" by (rule sum.cong) (simp_all add: a)
  also have "\<dots> = 510" by (simp add: numeral_eq_Suc)
  finally show ?thesis .
qed

lemma join_step_inv:
  assumes "tally_inv s" "join_step s s'"
  shows "tally_inv s'"
proof -
  have ok: "\<forall>j < length (incs s). inc_ok (tally_counter s) (tally_mutex s) j (incs s ! j)"
    and main: "main_ok (jpc s) (incs s) (said s)" and sum: "tally_counter s = (\<Sum>t \<leftarrow> incs s. added t)"
    and held: "\<forall>j. tally_mutex s = Some j \<longrightarrow> j < length (incs s)"
    using assms(1) unfolding tally_inv_def by blast+
  from assms(2) show ?thesis
  proof (cases rule: join_step.cases)
    case (create k)
    have len: "length (incs s) = k" using main create by simp
    then have "inc_ok (tally_counter s) (tally_mutex s) k (new_inc (100 + k))"
      using held by (auto simp: inc_ok_def new_inc_def holding_def)
    with create len ok main sum held show ?thesis
      by (auto simp: tally_inv_def nth_append less_Suc_eq new_inc_def added_def)
  next
    case (create_fails k)
    with ok main sum held show ?thesis by (simp add: tally_inv_def)
  next
    case (join k)
    with ok main sum held show ?thesis by (auto simp: tally_inv_def less_Suc_eq numeral_eq_Suc)
  next
    case print
    with ok main sum held all_done_sum [OF ok] show ?thesis by (simp add: tally_inv_def)
  qed
qed

section \<open>Termination\<close>

fun inc_rank :: "inc_pc \<Rightarrow> nat" where
  "inc_rank I_test = 5"
| "inc_rank I_lock = 4"
| "inc_rank I_load = 3"
| "inc_rank I_store = 2"
| "inc_rank I_unlock = 1"
| "inc_rank I_done = 0"

definition inc_left :: "inc \<Rightarrow> nat" where
  "inc_left t = 6 * (limit t - rounds t) + inc_rank (ipc t)"

fun main_left :: "tally_pc \<Rightarrow> nat" where
  "main_left (J_create k) = 10 + 1000 * (5 - k)"
| "main_left (J_join k) = 8 - k"
| "main_left J_print = 3"
| "main_left J_end = 1"
| "main_left J_exit = 0"

definition tally_left :: "tally \<Rightarrow> nat" where
  "tally_left s = main_left (jpc s) + (\<Sum>t \<leftarrow> incs s. inc_left t)"

definition tally_over :: "tally \<Rightarrow> bool" where
  "tally_over s \<longleftrightarrow> jpc s = J_end \<or> jpc s = J_exit"

lemma inc_step_decreases:
  assumes "tally_inv s" "k < length (incs s)" "inc_step k (incs s ! k) s s'"
  shows "tally_left s' < tally_left s"
proof -
  have k: "inc_ok (tally_counter s) (tally_mutex s) k (incs s ! k)"
    using assms(1,2) unfolding tally_inv_def by blast
  have main: "jpc s' = jpc s" using assms(3) by (rule inc_stepE) simp_all
  have "\<exists>t. incs s' = (incs s)[k := t] \<and> inc_left t < inc_left (incs s ! k)"
    using assms(3) by (rule inc_stepE) (use k in \<open>auto simp: inc_ok_def holding_def inc_left_def\<close>)
  then obtain t where t: "incs s' = (incs s)[k := t]" "inc_left t < inc_left (incs s ! k)" by blast
  with sum_list_update [OF assms(2), of inc_left t] main show ?thesis by (simp add: tally_left_def)
qed

lemma join_step_decreases:
  assumes "tally_inv s" "join_step s s'"
  shows "tally_left s' < tally_left s"
proof -
  have main: "main_ok (jpc s) (incs s) (said s)" using assms(1) by (simp add: tally_inv_def)
  from assms(2) show ?thesis
    by (cases rule: join_step.cases) (use main in \<open>auto simp: tally_left_def inc_left_def new_inc_def\<close>)
qed

lemma inc_can_step: "ipc t \<noteq> I_done \<Longrightarrow> ipc t \<noteq> I_lock \<or> tally_mutex s = None \<Longrightarrow> \<exists>s'. inc_step k t s s'"
  by (cases "ipc t"; cases "rounds t < limit t") (blast intro: inc_step.intros)+

lemma tally_progress:
  assumes "tally_inv s"
  shows "tally_over s \<or> (\<exists>s'. tally_step s s')"
proof (cases "jpc s")
  case (J_join k)
  have ok: "\<forall>j < length (incs s). inc_ok (tally_counter s) (tally_mutex s) j (incs s ! j)"
    and held: "\<forall>j. tally_mutex s = Some j \<longrightarrow> j < length (incs s)" and len: "k < length (incs s)"
    using assms J_join unfolding tally_inv_def by auto
  note moves = inc_moves [of s, unfolded J_join, OF tally_pc.distinct(13)]
  show ?thesis
  proof (cases "ipc (incs s ! k) = I_done")
    case True
    with J_join show ?thesis by (blast intro: main_moves join_step.join)
  next
    case False
    show ?thesis
    proof (cases "tally_mutex s")
      case None
      with False inc_can_step [of "incs s ! k" s k] len J_join show ?thesis by (blast intro: moves)
    next
      case (Some j)
      with ok held have j: "j < length (incs s)" "holding (ipc (incs s ! j))" by (auto simp: inc_ok_def)
      with inc_can_step [of "incs s ! j" s j] have "\<exists>s'. inc_step j (incs s ! j) s s'" by (auto simp: holding_def)
      with j(1) show ?thesis by (blast intro: moves)
    qed
  qed
qed (auto simp: tally_over_def intro: main_moves join_step.create join_step.print)

interpretation tally_runs: terminating "\<lambda>s. s = tally_start" tally_step tally_inv tally_left tally_over
proof (unfold_locales, goal_cases)
  case (1 s)
  then show ?case by (simp add: tally_inv_start)
next
  case (2 s s')
  from 2(2) show ?case by (rule tally_stepE) (use 2(1) inc_step_inv join_step_inv in blast)+
next
  case (3 s s')
  from 3(2) show ?case by (rule tally_stepE) (use 3(1) inc_step_decreases join_step_decreases in blast)+
next
  case (4 s)
  then show ?case by (rule tally_progress)
qed

section \<open>Properties\<close>

text \<open>
  In every interleaving, a program that has printed its result has printed 510, the sum of the
  rounds of the five threads; a program that could not create a thread has printed the error
  only.
\<close>

theorem q15_prints_510:
  assumes "reachable (\<lambda>s. s = tally_start) tally_step s" "tally_over s"
  shows "said s = [final_text 510] \<and> jpc s = J_end \<or> said s = [create_error] \<and> jpc s = J_exit"
  using tally_runs.inv_reachable [OF assms(1)] assms(2) by (auto simp: tally_inv_def tally_over_def)

text \<open>
  Every execution is finite, and every reachable state has an execution to the end: no thread
  waits for ever.
\<close>

theorem q15_terminates:
  "\<not> (\<exists>f. f 0 = tally_start \<and> (\<forall>i. tally_step (f i) (f (Suc i))))"
  "reachable (\<lambda>s. s = tally_start) tally_step s \<Longrightarrow> \<exists>s'. tally_step\<^sup>*\<^sup>* s s' \<and> tally_over s'"
  using tally_runs.no_infinite_run tally_runs.reaches_goal [OF tally_runs.inv_reachable] by blast+

theorem q15_prints_510_witness:
  "said (tally_start\<lparr>said := [create_error], jpc := J_exit\<rparr>) = [create_error]"
proof -
  let ?s = "tally_start\<lparr>said := [create_error], jpc := J_exit\<rparr>"
  have "join_step tally_start ?s"
    using create_fails [of tally_start 0] by (simp add: tally_start_def)
  then have "reachable (\<lambda>s. s = tally_start) tally_step ?s" by (blast intro: reach_init reach_step main_moves)
  with q15_prints_510 [of ?s] show ?thesis by (simp add: tally_over_def)
qed

end
