(* ===== verification/Spec2Isabelle.thy ===== *)
theory Spec2Isabelle
  imports Csapp Seq_Proxy Conc_Proxy Substring_Count Partial_Sums Sum_Threads Ring_Queue Udp_Echo Tcp_Hello Tcp_Concurrent File_Transfer Err_Reports Cond_Queue Counters Semaphores Process_Semaphore Shared_Races Thread_Handoff Pipes Ipc_Calls Small_Programs Small_Processes Mutex_Sum
begin

text \<open>
  A verification of the C programs of a course on network-centric programming (ECE 456).  The
  repository is a collection of programs: three assignments (\<^verbatim>\<open>src/Assignment1\<close> a substring counter,
  \<^verbatim>\<open>src/Assignment2\<close> a sequential web proxy, \<^verbatim>\<open>src/Assignment3\<close> a concurrent one), two homeworks on
  processes and threads (\<^verbatim>\<open>src/Homework1\<close>, \<^verbatim>\<open>src/Homework2\<close>), the package \<^verbatim>\<open>csapp.c\<close> that comes with
  the proxies, and the programs of the lectures on files, processes, sockets, threads and
  interprocess communication (\<^verbatim>\<open>src/Lecture1\<close> to \<^verbatim>\<open>src/Lecture11\<close>, \<^verbatim>\<open>src/ipc_code\<close>,
  \<^verbatim>\<open>src/MidtermPractice\<close>).

  \<^bold>\<open>Two models of execution.\<close>  A program that is one process and the kernel is a function on a
  \<open>world\<close> (theory \<open>Posix_IO\<close>): the replies that the kernel will give (\<open>script\<close>), \<open>errno\<close>, and the
  trace of the calls and actions so far.  A call takes the next reply; the theorems hold for every
  script, so the kernel, the network and the other processes may do anything that \<open>norm_reply\<close>
  allows.  A run ends in \<open>Ret\<close> of a value, or in \<open>Stop\<close>: \<open>exit\<close>, \<open>abort\<close>, undefined behaviour
  (\<open>Fault\<close>), a call for which the script has no reply (\<open>Blocked\<close>), a loop that goes round without a
  call (\<open>Spin\<close>), or another program (\<open>Replaced\<close>).  No fuel is needed: a loop is the total function
  \<open>repeat_var\<close>, each round of which uses up a reply or decreases a variant; a round that does neither
  is \<open>Spin\<close>, and the theorems name the outcomes that occur, so that \<open>Spin\<close> is excluded where it is
  not named.  A server that never ends is a program that does not return for any script, however
  long.  \<open>wp\<close> and \<open>wpt\<close> are the weakest preconditions over worlds and over traces alone; the loop
  rules \<open>wp_repeat\<close> and \<open>wpt_repeat\<close> ask for an invariant and for a call in each round.

  A program of several threads or processes that share memory is a step relation (theory
  \<open>Transition\<close>): the state is a record with the shared variables, the local variables and the
  control point of each thread; a step is one statement that reads or writes shared memory, or one
  call of the thread library; any thread that can take a step may be the next.  The locales
  \<open>inductive_invariant\<close> and \<open>terminating\<close> state once what follows from an inductive invariant and from
  a measure that every step decreases: every reachable state satisfies the invariant, there is no
  infinite execution, and every execution can be continued to an end.  A busy wait is a step that
  changes nothing; for a program that has one the locale \<open>busy_waiting\<close> shows that an infinite
  execution spins for ever from some moment on and that its schedule is not weakly fair.

  \<^bold>\<open>The base.\<close>  \<open>C_Prelude\<close>: \<open>int\<close> as the integers with the wrap-around \<open>to_int32\<close> written out, numbers as
  text.  \<open>C_String\<close>: \<open>strncasecmp\<close>, \<open>strstr\<close>, \<open>strchr\<close>, \<open>atoi\<close>, and \<open>sscanf\<close> with the sizes of the
  arrays it stores into.  \<open>Getopt\<close>: \<open>getopt_long\<close>.  \<open>Sockets\<close>: datagrams, arrays that are printed or
  terminated with a NUL.  \<open>Sections\<close>: the specification of texts that do not mix.

  \<^bold>\<open>The proxies.\<close>  \<open>Rio\<close> models \<open>rio_readn\<close>, \<open>rio_writen\<close>, \<open>rio_readnb\<close> and \<open>rio_readlineb\<close> of \<^verbatim>\<open>csapp.c\<close>: they
  deliver the bytes of the kernel, in order, none twice and none lost, across short counts and
  interrupts; the contract between the loops and what they read from is the locale \<open>byte_source\<close>,
  interpreted for the raw and for the buffered reader.  \<open>Csapp\<close> models the wrappers of the same file,
  \<open>open_clientfd\<close> and \<open>open_listenfd\<close>.  \<open>Http_Proxy\<close> is the code both proxies contain: a request that a
  browser sends is parsed, its first lines are rewritten, and what is sent to the server is stated
  exactly; the response is relayed in order.  \<open>Seq_Proxy\<close> and \<open>Conc_Proxy\<close> are the two programs
  (\<open>main\<close>, \<open>thread_handle\<close>, the child process, the tunnel for \<open>CONNECT\<close>): which descriptors are
  closed on every path, how each handler ends, that the tunnel copies both ways, what a thread logs of
  it, and that it ends only by a timeout.  \<open>Thread_Handoff\<close> is how \<open>main\<close> gives a connection to a thread: through a variable that it
  overwrites (Assignment 3, two threads can get the same connection) or through a cell of its own
  (\<^verbatim>\<open>Lecture8/concurrent_server_thread\<close>, they cannot).

  \<^bold>\<open>Counting and adding.\<close>  \<open>Substring_Count\<close> (\<^verbatim>\<open>p01.c\<close>): \<open>countSubstrings\<close> equals the number of positions
  at which the text occurs.  \<open>Partial_Sums\<close> (\<^verbatim>\<open>Homework1\<close>): the parts of the range are a partition, and
  the parent prints the sum for every order of the results.  \<open>Sum_Threads\<close>, \<open>Ring_Queue\<close>
  (\<^verbatim>\<open>Homework2\<close>): the printed sum is the sum of squares in every interleaving; the ring buffer refines
  a bounded queue; every execution of \<^verbatim>\<open>main.c\<close> ends, and every one of \<^verbatim>\<open>level3.c\<close>, where \<open>main\<close> waits
  for the consumers in a loop, under a fair schedule.  \<open>Counters\<close> (\<^verbatim>\<open>Lecture8\<close>): 1000 with the mutex, and exactly
  the values from 2 to 1000 without it.  \<open>Mutex_Sum\<close> (\<^verbatim>\<open>MidtermPractice/q15\<close>): five threads under a mutex
  print 510, or the error of a failed \<open>pthread_create\<close>.  \<open>Cond_Queue\<close> (\<^verbatim>\<open>Lecture9\<close>): the linked list refines a queue,
  pointers are valid, each message is processed once, also with spurious wakeups.

  \<^bold>\<open>Processes.\<close>  \<open>Semaphores\<close> and \<open>Process_Semaphore\<close> (\<^verbatim>\<open>ipc_code\<close>) refine the specification of \<open>Sections\<close>;
  where the calls may fail, what is lost is stated.  \<open>Shared_Races\<close>: the exact sets of results of two
  programs with races.  \<open>Pipes\<close>: the counts the parent can send back, and that every execution ends.
  \<open>Ipc_Calls\<close>: FIFOs, a message queue, \<open>popen\<close>, file locks, broadcast and multicast.

  \<^bold>\<open>Clients and servers.\<close>  \<open>Tcp_Hello\<close> (\<^verbatim>\<open>Lecture4\<close> to \<^verbatim>\<open>Lecture6\<close>), \<open>Tcp_Concurrent\<close> (\<^verbatim>\<open>Lecture7\<close>,
  \<^verbatim>\<open>Lecture8\<close>), \<open>Udp_Echo\<close> (\<^verbatim>\<open>Lecture10\<close>) and \<open>File_Transfer\<close> (\<^verbatim>\<open>Lecture6/readnbytes\<close>): a contract for a kind
  of server or client (the locales \<open>iterative_server\<close>, \<open>echo_server\<close> and \<open>echo_client\<close>, the predicates
  \<open>answers_once\<close> and \<open>talks\<close>), and its proof for each of the programs.  \<open>Err_Reports\<close>: the shell, the
  directory, file hole and daytime programs, with \<open>err_doit\<close> and the array it fills.

  \<^bold>\<open>Small programs.\<close>  \<open>Small_Programs\<close>: factors, powers, factorials, squares through a pipe, copies of
  files, and arrays that are too small.  \<open>Small_Processes\<close>: \<open>fork\<close> and \<open>exec\<close>, exit handlers, arguments
  and environment, the first greeting programs, and the lookup of hosts.

  \<^bold>\<open>Bounds.\<close>  Arrays have the sizes of the source (1024, 8192 or 10000 bytes, 20, 8); a store outside is a
  \<open>Fault\<close>, and so is the use of a variable nothing was stored in.  The contents of an array that is not
  initialised, or of the memory behind one, are parameters (\<open>beyond\<close>).  \<open>int\<close> arithmetic that the source
  leaves to wrap is \<open>to_int32\<close>, that of the \<open>long\<close> totals of the tunnel \<open>to_int64\<close>; in the small programs, where the overflow is the point, it is a fault.

  \<^bold>\<open>Not modelled.\<close>  When stdio writes out its buffers: output is in the order in which it was printed, so
  \<^verbatim>\<open>setbuf\<close>, \<^verbatim>\<open>mySetbuf\<close> and \<^verbatim>\<open>printorder\<close> are left out.  Weak memory: steps are sequentially consistent.
  Signals other than \<open>SIGALRM\<close> and \<open>SIGPIPE\<close> where the programs use them.  Byte orders: \<open>htons\<close> keeps
  16 bits.  The machine code an overflow may jump to (\<^verbatim>\<open>attack_example\<close>).  The resolver, the texts of
  \<open>strerror\<close> and the results of \<open>ctime\<close> and \<open>inet_ntop\<close> are parameters or replies.  The failures of the
  thread library in the step relations, except where a theory says so.  Floating point
  (\<^verbatim>\<open>reciprocal\<close>), programs that print the result of one call, threads that only print and are joined,
  the Java programs, and two files that do not compile.  \<^verbatim>\<open>csapp.c\<close> of Assignment 2 is the file of
  Assignment 3, which is modelled.
\<close>

end
